theory Spec2Isabelle
  imports Complex_Main "HOL-Library.Signed_Division" "HOL-Library.Multiset"
begin

unbundle bit_operations_syntax

section \<open>Batched low-order-refined assembly (fem/lor/lor_batched.cpp)\<close>

text \<open>
  A shallow embedding of \<^verbatim>\<open>BatchedLORAssembly\<close>: the feasibility check, the
  two passes that build the CSR matrix (\<^verbatim>\<open>FillI\<close>, \<^verbatim>\<open>FillJAndData\<close>), and the
  elimination of the essential degrees of freedom, serial and distributed.

  C++ \<^verbatim>\<open>int\<close> is modelled as \<open>int\<close>: no claim below depends on 32-bit wrap-around,
  and the one place where the width shows, the sentinel \<^verbatim>\<open>INT_MAX\<close> of
  \<^verbatim>\<open>GetMinElt\<close>, is kept as the constant it is. \<^verbatim>\<open>double\<close> is idealised as \<open>real\<close>.
  A read or write outside an array is undefined behaviour in the source; the model
  makes it the error value \<open>OutOfRange\<close>, and an access outside one of the
  \<^verbatim>\<open>Max\<close>-sized stack buffers the error value \<open>LocalBufferOverrun\<close>.
\<close>

subsection \<open>Feasibility check and dispatch\<close>

text \<open>
  The dynamic type of a domain integrator and of a finite element collection, as far
  as the \<^verbatim>\<open>dynamic_cast\<close>s of the file tell them apart.
\<close>

datatype Integrator =
  DiffusionIntegrator | MassIntegrator | CurlCurlIntegrator
  | VectorFEMassIntegrator | DivDivIntegrator | OtherIntegrator

datatype FECollection =
  H1_FECollection | ND_FECollection | RT_FECollection | Other_FECollection

record FESpace =
  FEColl :: FECollection
  UsesTensorBasis :: bool

text \<open>\<^verbatim>\<open>GetDBFI()\<close> returns a pointer that may be \<^verbatim>\<open>NULL\<close>: an option.\<close>

record BilinearForm =
  GetDBFI :: "Integrator list option"
  FESpace_of :: FESpace

definition HasIntegrators :: "Integrator \<Rightarrow> Integrator \<Rightarrow> BilinearForm \<Rightarrow> bool" where
  "HasIntegrators T1 T2 a =
     (case GetDBFI a of
        None \<Rightarrow> False
      | Some integs \<Rightarrow>
          if length integs = 1 then
            (let i0 = integs ! 0 in i0 = T1 \<or> i0 = T2)
          else if length integs = 2 then
            (let i0 = integs ! 0; i1 = integs ! 1
             in (i0 = T1 \<and> i1 = T2) \<or> (i0 = T2 \<and> i1 = T1))
          else False)"

definition FormIsSupported :: "BilinearForm \<Rightarrow> bool" where
  "FormIsSupported a =
     (let fec = FEColl (FESpace_of a) in
      if \<not> UsesTensorBasis (FESpace_of a) then False
      else if fec = H1_FECollection then
        HasIntegrators DiffusionIntegrator MassIntegrator a
      else if fec = ND_FECollection then
        HasIntegrators CurlCurlIntegrator VectorFEMassIntegrator a
      else if fec = RT_FECollection then
        HasIntegrators DivDivIntegrator VectorFEMassIntegrator a
      else False)"

text \<open>
  The static \<^verbatim>\<open>Assemble(a, fes_ho, ess_dofs, A)\<close> constructs one of the three derived
  assemblers and runs it, or does nothing. The model returns which one runs;
  \<open>None\<close> is the path that leaves \<^verbatim>\<open>A\<close> as it was.
\<close>

datatype BatchedLOR = BatchedLOR_H1 | BatchedLOR_ND | BatchedLOR_RT

definition Assemble_static :: "BilinearForm \<Rightarrow> FESpace \<Rightarrow> BatchedLOR option" where
  "Assemble_static a fes_ho =
     (let fec = FEColl fes_ho in
      if fec = H1_FECollection then
        (if HasIntegrators DiffusionIntegrator MassIntegrator a
         then Some BatchedLOR_H1 else None)
      else if fec = ND_FECollection then
        (if HasIntegrators CurlCurlIntegrator VectorFEMassIntegrator a
         then Some BatchedLOR_ND else None)
      else if fec = RT_FECollection then
        (if HasIntegrators DivDivIntegrator VectorFEMassIntegrator a
         then Some BatchedLOR_RT else None)
      else None)"

text \<open>
  The specification's words: each collection kind has a supported pair of operator
  kinds, and a form qualifies when its integrators are one or both of that pair.
\<close>

fun supported_pair :: "FECollection \<Rightarrow> (Integrator \<times> Integrator) option" where
  "supported_pair H1_FECollection = Some (DiffusionIntegrator, MassIntegrator)"
| "supported_pair ND_FECollection = Some (CurlCurlIntegrator, VectorFEMassIntegrator)"
| "supported_pair RT_FECollection = Some (DivDivIntegrator, VectorFEMassIntegrator)"
| "supported_pair Other_FECollection = None"

definition one_or_both :: "Integrator \<times> Integrator \<Rightarrow> Integrator list \<Rightarrow> bool" where
  "one_or_both p integs =
     (integs \<noteq> [] \<and> distinct integs \<and> set integs \<subseteq> {fst p, snd p})"

definition pairing_supported :: "FECollection \<Rightarrow> Integrator list option \<Rightarrow> bool" where
  "pairing_supported fec dbfi =
     (case (supported_pair fec, dbfi) of
        (Some p, Some integs) \<Rightarrow> one_or_both p integs
      | _ \<Rightarrow> False)"

text \<open>Two forms on an H1 space: one on a basis without tensor structure, one supported.\<close>

definition form_nontensor :: BilinearForm where
  "form_nontensor = \<lparr>GetDBFI = Some [DiffusionIntegrator],
      FESpace_of = \<lparr>FEColl = H1_FECollection, UsesTensorBasis = False\<rparr>\<rparr>"

definition form_two :: BilinearForm where
  "form_two = \<lparr>GetDBFI = Some [MassIntegrator, DiffusionIntegrator],
      FESpace_of = \<lparr>FEColl = H1_FECollection, UsesTensorBasis = True\<rparr>\<rparr>"

subsection \<open>Errors, checked array access, loops\<close>

datatype error = OutOfRange | LocalBufferOverrun | BadElementRestriction

definition ebind :: "error + 'a \<Rightarrow> ('a \<Rightarrow> error + 'b) \<Rightarrow> error + 'b" where
  "ebind m f = (case m of Inl e \<Rightarrow> Inl e | Inr x \<Rightarrow> f x)"

definition rd :: "'a list \<Rightarrow> int \<Rightarrow> error + 'a" where
  "rd xs i = (if 0 \<le> i \<and> i < int (length xs) then Inr (xs ! nat i) else Inl OutOfRange)"

definition wr :: "'a list \<Rightarrow> int \<Rightarrow> 'a \<Rightarrow> error + 'a list" where
  "wr xs i v = (if 0 \<le> i \<and> i < int (length xs) then Inr (xs[nat i := v]) else Inl OutOfRange)"

text \<open>
  \<^verbatim>\<open>for (int i = lo; i < hi; i++)\<close> runs its body on \<open>[lo..hi - 1]\<close>;
  \<^verbatim>\<open>MFEM_FORALL(i, N, body)\<close> on the host is the loop from 0 to \<open>N - 1\<close>.
\<close>

fun efold :: "('b \<Rightarrow> 's \<Rightarrow> error + 's) \<Rightarrow> 'b list \<Rightarrow> 's \<Rightarrow> error + 's" where
  "efold f [] s = Inr s"
| "efold f (x # xs) s = ebind (f x s) (efold f xs)"

text \<open>
  \<^verbatim>\<open>Reshape(p, n1, n2)(a, b)\<close> is \<^verbatim>\<open>p[a + n1*b]\<close>, and with three extents
  \<^verbatim>\<open>p[a + n1*(b + n2*c)]\<close>. An index outside its own extent is outside the tensor's
  contract and is an error here, also where the flat index would fall inside the array.
\<close>

definition rd2 :: "'a list \<Rightarrow> int \<Rightarrow> int \<Rightarrow> int \<Rightarrow> int \<Rightarrow> error + 'a" where
  "rd2 xs n1 n2 a b =
     (if 0 \<le> a \<and> a < n1 \<and> 0 \<le> b \<and> b < n2 then rd xs (a + n1 * b) else Inl OutOfRange)"

definition rd3 :: "'a list \<Rightarrow> int \<Rightarrow> int \<Rightarrow> int \<Rightarrow> int \<Rightarrow> int \<Rightarrow> int \<Rightarrow> error + 'a" where
  "rd3 xs n1 n2 n3 a b c =
     (if 0 \<le> a \<and> a < n1 \<and> 0 \<le> b \<and> b < n2 \<and> 0 \<le> c \<and> c < n3
      then rd xs (a + n1 * (b + n2 * c)) else Inl OutOfRange)"

text \<open>\<^verbatim>\<open>AtomicAdd(x[i], v)\<close> adds and returns the value read.\<close>

definition AtomicAdd :: "int list \<Rightarrow> int \<Rightarrow> int \<Rightarrow> error + (int \<times> int list)" where
  "AtomicAdd xs i v =
     ebind (rd xs i) (\<lambda>old. ebind (wr xs i (old + v)) (\<lambda>xs'. Inr (old, xs')))"

text \<open>
  A stack buffer \<^verbatim>\<open>int x[Max]\<close> is a list of \<^verbatim>\<open>Max\<close> cells. Reading \<^verbatim>\<open>x[e]\<close> with
  \<open>e\<close> outside the buffer is undefined behaviour in C++; here it is the outcome
  \<open>LocalBufferOverrun\<close>, as is writing there.
\<close>

definition rdb :: "'a list \<Rightarrow> int \<Rightarrow> error + 'a" where
  "rdb buf e = (if 0 \<le> e \<and> e < int (length buf) then Inr (buf ! nat e) else Inl LocalBufferOverrun)"

subsection \<open>Data\<close>

text \<open>
  What the passes read from the element restriction: the gather map (E-vector index
  to signed global DOF), and the incidence table as offsets and signed E-vector indices.
\<close>

record ElementRestriction =
  GatherMap :: "int list"
  Indices :: "int list"
  Offsets :: "int list"

text \<open>
  The assembler: the sizes it asks \<^verbatim>\<open>fes_ho\<close> for, the restriction (\<open>None\<close> when
  the operator returned is not an \<^verbatim>\<open>ElementRestriction\<close>, so that the
  \<^verbatim>\<open>dynamic_cast\<close> gives \<^verbatim>\<open>nullptr\<close>), the sparsity template
  \<^verbatim>\<open>sparse_mapping\<close> with its height, the element values \<^verbatim>\<open>sparse_ij\<close>, and the
  essential DOFs.
\<close>

record BatchedLORAssembly =
  GetVSize :: int
  GetDof :: int
  GetNE :: int
  GetElementRestriction :: "ElementRestriction option"
  sparse_mapping_Height :: int
  sparse_mapping :: "int list"
  sparse_ij :: "real list"
  ess_dofs :: "int list"

record SparseMatrix =
  Height :: int
  Width :: int
  GetI :: "int list"
  GetJ :: "int list"
  GetData :: "real list"

subsection \<open>Signed indices and the election\<close>

definition decode :: "int \<Rightarrow> int" where
  "decode v = (if v \<ge> 0 then v else -1 - v)"

definition INT_MAX :: int where
  "INT_MAX = 2147483647"

definition Max16 :: int where
  "Max16 = 16"

text \<open>
  \<^verbatim>\<open>GetMinElt\<close>: the outer loop reads \<^verbatim>\<open>my_elts[i]\<close> and keeps \<^verbatim>\<open>min_el\<close>; the
  inner loop reads \<^verbatim>\<open>nbr_elts[j]\<close> for \<open>j\<close> from 0 and stops at the first hit.
\<close>

fun GetMinElt_find :: "int \<Rightarrow> int list \<Rightarrow> int list \<Rightarrow> error + bool" where
  "GetMinElt_find e_i nbr_elts [] = Inr False"
| "GetMinElt_find e_i nbr_elts (j # js) =
     ebind (rdb nbr_elts j) (\<lambda>x.
       if e_i = x then Inr True else GetMinElt_find e_i nbr_elts js)"

definition GetMinElt_step :: "int list \<Rightarrow> int list \<Rightarrow> int \<Rightarrow> int \<Rightarrow> int \<Rightarrow> error + int" where
  "GetMinElt_step my_elts nbr_elts nbrNbElts i min_el =
     ebind (rdb my_elts i) (\<lambda>e_i.
       if e_i \<ge> min_el then Inr min_el
       else ebind (GetMinElt_find e_i nbr_elts [0..nbrNbElts - 1]) (\<lambda>hit.
              Inr (if hit then e_i else min_el)))"

definition GetMinElt :: "int list \<Rightarrow> int \<Rightarrow> int list \<Rightarrow> int \<Rightarrow> error + int" where
  "GetMinElt my_elts nbElts nbr_elts nbrNbElts =
     efold (GetMinElt_step my_elts nbr_elts nbrNbElts) [0..nbElts - 1] INT_MAX"

text \<open>The tensors the kernels read.\<close>

definition el_dof_lex :: "BatchedLORAssembly \<Rightarrow> ElementRestriction \<Rightarrow> int \<Rightarrow> int \<Rightarrow> error + int" where
  "el_dof_lex b r a e = rd2 (GatherMap r) (GetDof b) (GetNE b) a e"

definition map_at :: "BatchedLORAssembly \<Rightarrow> int \<Rightarrow> int \<Rightarrow> error + int" where
  "map_at b j a = rd2 (sparse_mapping b) (sparse_mapping_Height b) (GetDof b) j a"

definition V :: "BatchedLORAssembly \<Rightarrow> int \<Rightarrow> int \<Rightarrow> int \<Rightarrow> error + real" where
  "V b j a e = rd3 (sparse_ij b) (sparse_mapping_Height b) (GetDof b) (GetNE b) j a e"

subsection \<open>The row-count pass: \<^verbatim>\<open>FillI\<close>\<close>

text \<open>
  The loop that fills the stack buffer \<^verbatim>\<open>i_elts[Max]\<close> (and \<^verbatim>\<open>j_elts[Max]\<close>):
  entry \<open>e\<close> is read from the incidence table, decoded, and its element stored in
  slot \<open>e\<close>. The source does not compare \<open>e\<close> with \<^verbatim>\<open>Max\<close>.
\<close>

definition FillI_elts_step ::
  "BatchedLORAssembly \<Rightarrow> ElementRestriction \<Rightarrow> int \<Rightarrow> int \<Rightarrow> int list \<Rightarrow> error + int list" where
  "FillI_elts_step b r offset e elts =
     ebind (rd (Indices r) (offset + e)) (\<lambda>s_E.
       let E = decode s_E in
       if e < Max16 then Inr (elts[nat e := E sdiv GetDof b]) else Inl LocalBufferOverrun)"

definition FillI_elts ::
  "BatchedLORAssembly \<Rightarrow> ElementRestriction \<Rightarrow> int \<Rightarrow> int \<Rightarrow> error + int list" where
  "FillI_elts b r offset ne =
     efold (FillI_elts_step b r offset) [0..ne - 1] (replicate (nat Max16) 0)"

definition FillI_j ::
  "BatchedLORAssembly \<Rightarrow> ElementRestriction \<Rightarrow> int \<Rightarrow> int \<Rightarrow> int \<Rightarrow> int \<Rightarrow> int list
     \<Rightarrow> int \<Rightarrow> int list \<Rightarrow> error + int list" where
  "FillI_j b r ii ii_el iel_ho i_ne i_elts j I =
     ebind (map_at b j ii_el) (\<lambda>jj_el.
     if jj_el < 0 then Inr I else
     ebind (el_dof_lex b r jj_el iel_ho) (\<lambda>sjj.
     let jj = decode sjj in
     ebind (rd (Offsets r) jj) (\<lambda>j_offset.
     ebind (rd (Offsets r) (jj + 1)) (\<lambda>j_next_offset.
     let j_ne = j_next_offset - j_offset in
     if i_ne = 1 \<or> j_ne = 1 then
       ebind (AtomicAdd I ii 1) (\<lambda>(old, I'). Inr I')
     else
       ebind (FillI_elts b r j_offset j_ne) (\<lambda>j_elts.
       ebind (GetMinElt i_elts i_ne j_elts j_ne) (\<lambda>min_e.
       if iel_ho = min_e then ebind (AtomicAdd I ii 1) (\<lambda>(old, I'). Inr I')
       else Inr I))))))"

definition FillI_row ::
  "BatchedLORAssembly \<Rightarrow> ElementRestriction \<Rightarrow> int \<Rightarrow> int list \<Rightarrow> error + int list" where
  "FillI_row b r i I =
     (let ii_el = i smod GetDof b; iel_ho = i sdiv GetDof b in
      ebind (el_dof_lex b r ii_el iel_ho) (\<lambda>sii.
      let ii = decode sii in
      ebind (rd (Offsets r) ii) (\<lambda>i_offset.
      ebind (rd (Offsets r) (ii + 1)) (\<lambda>i_next_offset.
      let i_ne = i_next_offset - i_offset in
      ebind (FillI_elts b r i_offset i_ne) (\<lambda>i_elts.
      efold (FillI_j b r ii ii_el iel_ho i_ne i_elts)
        [0..sparse_mapping_Height b - 1] I)))))"

text \<open>The sequential scan that turns the counters into offsets.\<close>

definition scan_step :: "int \<Rightarrow> int list \<times> int \<Rightarrow> error + (int list \<times> int)" where
  "scan_step i = (\<lambda>(h_I, sum).
     ebind (rd h_I i) (\<lambda>nnz.
     ebind (wr h_I i sum) (\<lambda>h_I'. Inr (h_I', sum + nnz))))"

text \<open>
  The two \<^verbatim>\<open>MFEM_FORALL\<close>s of \<^verbatim>\<open>FillI\<close>: the counters are set to zero, then
  the counting iterations run in the order \<open>sched\<close>.
\<close>

definition count_pass ::
  "BatchedLORAssembly \<Rightarrow> ElementRestriction \<Rightarrow> int list \<Rightarrow> int list \<Rightarrow> error + int list" where
  "count_pass b r sched I =
     ebind (efold (\<lambda>ii I. wr I ii 0) [0..GetVSize b] I) (\<lambda>I0.
     efold (FillI_row b r) sched I0)"

text \<open>
  \<open>FillI_sched\<close> is \<^verbatim>\<open>FillI\<close> with the counting iterations in the order \<open>sched\<close>;
  \<open>FillI\<close> is the host order. The result is the matrix and the value returned.
\<close>

definition FillI_sched ::
  "BatchedLORAssembly \<Rightarrow> int list \<Rightarrow> SparseMatrix \<Rightarrow> error + (SparseMatrix \<times> int)" where
  "FillI_sched b sched A =
     (let nvdof = GetVSize b in
      case GetElementRestriction b of
        None \<Rightarrow> Inl BadElementRestriction
      | Some r \<Rightarrow>
          ebind (count_pass b r sched (GetI A)) (\<lambda>I1.
          ebind (efold scan_step [0..nvdof - 1] (I1, 0)) (\<lambda>(h_I, sum).
          ebind (wr h_I nvdof sum) (\<lambda>h_I'.
          ebind (rd h_I' nvdof) (\<lambda>nnz.
          Inr (A\<lparr>GetI := h_I'\<rparr>, nnz))))))"

definition FillI :: "BatchedLORAssembly \<Rightarrow> SparseMatrix \<Rightarrow> error + (SparseMatrix \<times> int)" where
  "FillI b A = FillI_sched b [0..GetDof b * GetNE b - 1] A"


subsection \<open>The fill pass: \<^verbatim>\<open>FillJAndData\<close>\<close>

definition GetAndIncrementNnzIndex :: "int \<Rightarrow> int list \<Rightarrow> error + (int \<times> int list)" where
  "GetAndIncrementNnzIndex i_L I = AtomicAdd I i_L 1"

text \<open>The orientation sign of a pair of signed indices, as both kernels compute it.\<close>

definition sgn_of :: "int \<Rightarrow> int \<Rightarrow> int" where
  "sgn_of sjj sii = (if (sjj \<ge> 0 \<and> sii \<ge> 0) \<or> (sjj < 0 \<and> sii < 0) then 1 else -1)"

text \<open>
  The loop that fills \<^verbatim>\<open>i_elts[Max]\<close> and \<^verbatim>\<open>i_B[Max]\<close> (and the two
  \<^verbatim>\<open>j_\<close> buffers): the element of each incidence entry, and its local slot encoded
  with the entry's sign.
\<close>

definition FillJ_elts_step ::
  "BatchedLORAssembly \<Rightarrow> ElementRestriction \<Rightarrow> int \<Rightarrow> int \<Rightarrow> int list \<times> int list
     \<Rightarrow> error + (int list \<times> int list)" where
  "FillJ_elts_step b r offset e = (\<lambda>(elts, B).
     ebind (rd (Indices r) (offset + e)) (\<lambda>s_E.
       let plus = (s_E \<ge> 0);
           E = (if plus then s_E else -1 - s_E);
           Bi = E smod GetDof b
       in if e < Max16
          then Inr (elts[nat e := E sdiv GetDof b], B[nat e := (if plus then Bi else -1 - Bi)])
          else Inl LocalBufferOverrun))"

definition FillJ_elts ::
  "BatchedLORAssembly \<Rightarrow> ElementRestriction \<Rightarrow> int \<Rightarrow> int \<Rightarrow> error + (int list \<times> int list)" where
  "FillJ_elts b r offset ne =
     efold (FillJ_elts_step b r offset) [0..ne - 1]
       (replicate (nat Max16) 0, replicate (nat Max16) 0)"

text \<open>
  The reverse lookup in the template: the first \<open>m\<close> with
  \<^verbatim>\<open>map(m, ii_el_2) == jj_el_2\<close>, and \<open>-1\<close> when there is none. The assertion that
  follows the loop in the source tests \<^verbatim>\<open>j >= 0\<close>, which always holds, so the value
  \<open>-1\<close> goes on to index \<^verbatim>\<open>V\<close>.
\<close>

fun find_nonzero :: "BatchedLORAssembly \<Rightarrow> int \<Rightarrow> int \<Rightarrow> int list \<Rightarrow> error + int" where
  "find_nonzero b ii_el_2 jj_el_2 [] = Inr (-1)"
| "find_nonzero b ii_el_2 jj_el_2 (m # ms) =
     ebind (map_at b m ii_el_2) (\<lambda>c.
       if c = jj_el_2 then Inr m else find_nonzero b ii_el_2 jj_el_2 ms)"

definition accum_l ::
  "BatchedLORAssembly \<Rightarrow> int \<Rightarrow> int \<Rightarrow> int \<Rightarrow> int list \<Rightarrow> int list \<Rightarrow> int \<Rightarrow> real
     \<Rightarrow> error + real" where
  "accum_l b iel_ho_2 sii_el_2 ii_el_2 j_elts j_B l val =
     ebind (rdb j_elts l) (\<lambda>jel_ho_2.
      if iel_ho_2 = jel_ho_2 then
        ebind (rdb j_B l) (\<lambda>sjj_el_2.
        let jj_el_2 = decode sjj_el_2;
            sgn_2 = sgn_of sjj_el_2 sii_el_2
        in ebind (find_nonzero b ii_el_2 jj_el_2 [0..sparse_mapping_Height b - 1]) (\<lambda>j2.
           ebind (V b j2 ii_el_2 iel_ho_2) (\<lambda>v.
           Inr (val + of_int sgn_2 * v))))
      else Inr val)"

definition accum_k ::
  "BatchedLORAssembly \<Rightarrow> int list \<Rightarrow> int list \<Rightarrow> int \<Rightarrow> int list \<Rightarrow> int list \<Rightarrow> int \<Rightarrow> real
     \<Rightarrow> error + real" where
  "accum_k b i_elts i_B j_ne j_elts j_B k val =
     ebind (rdb i_elts k) (\<lambda>iel_ho_2.
     ebind (rdb i_B k) (\<lambda>sii_el_2.
     let ii_el_2 = decode sii_el_2
     in efold (accum_l b iel_ho_2 sii_el_2 ii_el_2 j_elts j_B) [0..j_ne - 1] val))"

definition FillJ_j ::
  "BatchedLORAssembly \<Rightarrow> ElementRestriction \<Rightarrow> int \<Rightarrow> int \<Rightarrow> int \<Rightarrow> int \<Rightarrow> int
     \<Rightarrow> int list \<Rightarrow> int list \<Rightarrow> int \<Rightarrow> int list \<times> int list \<times> real list
     \<Rightarrow> error + (int list \<times> int list \<times> real list)" where
  "FillJ_j b r sii ii ii_el iel_ho i_ne i_elts i_B j = (\<lambda>(I, J, AV).
     ebind (map_at b j ii_el) (\<lambda>jj_el.
     if jj_el < 0 then Inr (I, J, AV) else
     ebind (el_dof_lex b r jj_el iel_ho) (\<lambda>sjj.
     let jj = decode sjj;
         sgn = sgn_of sjj sii
     in
     ebind (rd (Offsets r) jj) (\<lambda>j_offset.
     ebind (rd (Offsets r) (jj + 1)) (\<lambda>j_next_offset.
     let j_ne = j_next_offset - j_offset in
     if i_ne = 1 \<or> j_ne = 1 then
       ebind (GetAndIncrementNnzIndex ii I) (\<lambda>(nnz, I').
       ebind (wr J nnz jj) (\<lambda>J'.
       ebind (V b j ii_el iel_ho) (\<lambda>v.
       ebind (wr AV nnz (of_int sgn * v)) (\<lambda>AV'.
       Inr (I', J', AV')))))
     else
       ebind (FillJ_elts b r j_offset j_ne) (\<lambda>(j_elts, j_B).
       ebind (GetMinElt i_elts i_ne j_elts j_ne) (\<lambda>min_e.
       if iel_ho = min_e then
         ebind (efold (accum_k b i_elts i_B j_ne j_elts j_B) [0..i_ne - 1] 0) (\<lambda>val.
         ebind (GetAndIncrementNnzIndex ii I) (\<lambda>(nnz, I').
         ebind (wr J nnz jj) (\<lambda>J'.
         ebind (wr AV nnz val) (\<lambda>AV'.
         Inr (I', J', AV')))))
       else Inr (I, J, AV))))))))"

definition FillJ_row ::
  "BatchedLORAssembly \<Rightarrow> ElementRestriction \<Rightarrow> int \<Rightarrow> int list \<times> int list \<times> real list
     \<Rightarrow> error + (int list \<times> int list \<times> real list)" where
  "FillJ_row b r i s =
     (let ii_el = i smod GetDof b; iel_ho = i sdiv GetDof b in
      ebind (el_dof_lex b r ii_el iel_ho) (\<lambda>sii.
      let ii = decode sii in
      ebind (rd (Offsets r) ii) (\<lambda>i_offset.
      ebind (rd (Offsets r) (ii + 1)) (\<lambda>i_next_offset.
      let i_ne = i_next_offset - i_offset in
      ebind (FillJ_elts b r i_offset i_ne) (\<lambda>(i_elts, i_B).
      efold (FillJ_j b r sii ii ii_el iel_ho i_ne i_elts i_B)
        [0..sparse_mapping_Height b - 1] s)))))"

text \<open>
  \<open>FillJAndData_sched\<close> copies \<^verbatim>\<open>A.I\<close> into the fresh array \<^verbatim>\<open>I_\<close> of
  \<open>nvdof + 1\<close> cells, runs the iterations in the order \<open>sched\<close> on the copy and on
  \<^verbatim>\<open>A.J\<close>, \<^verbatim>\<open>A.Data\<close>, and hands back the matrix; the copy is dropped.
\<close>

definition FillJAndData_sched ::
  "BatchedLORAssembly \<Rightarrow> int list \<Rightarrow> SparseMatrix \<Rightarrow> error + SparseMatrix" where
  "FillJAndData_sched b sched A =
     (let nvdof = GetVSize b in
      case GetElementRestriction b of
        None \<Rightarrow> Inl BadElementRestriction
      | Some r \<Rightarrow>
          ebind (efold (\<lambda>i I. ebind (rd (GetI A) i) (\<lambda>v. wr I i v)) [0..nvdof]
                   (replicate (nat (nvdof + 1)) 0)) (\<lambda>I.
          ebind (efold (FillJ_row b r) sched (I, GetJ A, GetData A)) (\<lambda>(I', J, AV).
          Inr (A\<lparr>GetJ := J, GetData := AV\<rparr>))))"

definition FillJAndData :: "BatchedLORAssembly \<Rightarrow> SparseMatrix \<Rightarrow> error + SparseMatrix" where
  "FillJAndData b A = FillJAndData_sched b [0..GetDof b * GetNE b - 1] A"

subsection \<open>\<^verbatim>\<open>SparseIJToCSR\<close> and the serial \<^verbatim>\<open>Assemble\<close>\<close>

text \<open>
  \<^verbatim>\<open>Memory::New(n)\<close> gives \<open>n\<close> cells whose content is not specified: the content
  is the argument \<open>u\<close>, over which every statement below is universal.
\<close>

definition New :: "int \<Rightarrow> (nat \<Rightarrow> 'a) \<Rightarrow> 'a list" where
  "New n u = map u [0..<nat n]"

definition SparseIJToCSR_sched ::
  "BatchedLORAssembly \<Rightarrow> int list \<Rightarrow> int list \<Rightarrow> (nat \<Rightarrow> int) \<Rightarrow> (nat \<Rightarrow> real)
     \<Rightarrow> SparseMatrix \<Rightarrow> error + SparseMatrix" where
  "SparseIJToCSR_sched b sched1 sched2 ui ud A_mat =
     (let nvdof = GetVSize b;
          A1 = A_mat\<lparr>Height := nvdof, Width := nvdof, GetI := New (nvdof + 1) ui\<rparr>
      in ebind (FillI_sched b sched1 A1) (\<lambda>(A2, nnz).
         FillJAndData_sched b sched2 (A2\<lparr>GetJ := New nnz ui, GetData := New nnz ud\<rparr>)))"

definition SparseIJToCSR ::
  "BatchedLORAssembly \<Rightarrow> (nat \<Rightarrow> int) \<Rightarrow> (nat \<Rightarrow> real) \<Rightarrow> SparseMatrix \<Rightarrow> error + SparseMatrix" where
  "SparseIJToCSR b ui ud A_mat =
     SparseIJToCSR_sched b [0..GetDof b * GetNE b - 1] [0..GetDof b * GetNE b - 1] ui ud A_mat"

text \<open>
  The elimination loop of the serial \<^verbatim>\<open>Assemble\<close>. \<open>elim_sym\<close> is the innermost
  loop with its \<^verbatim>\<open>break\<close>: it zeroes the first entry of the scanned row whose column
  is \<open>idof\<close>.
\<close>

fun elim_sym :: "int list \<Rightarrow> int \<Rightarrow> int list \<Rightarrow> real list \<Rightarrow> error + real list" where
  "elim_sym J idof [] dA = Inr dA"
| "elim_sym J idof (k # ks) dA =
     ebind (rd J k) (\<lambda>c. if c = idof then wr dA k 0 else elim_sym J idof ks dA)"

definition elim_j :: "int list \<Rightarrow> int list \<Rightarrow> int \<Rightarrow> int \<Rightarrow> real list \<Rightarrow> error + real list" where
  "elim_j I J idof j dA =
     ebind (rd J j) (\<lambda>jdof.
     if jdof \<noteq> idof then
       ebind (wr dA j 0) (\<lambda>dA1.
       ebind (rd I jdof) (\<lambda>lo.
       ebind (rd I (jdof + 1)) (\<lambda>hi.
       elim_sym J idof [lo..hi - 1] dA1)))
     else Inr dA)"

definition elim_i :: "int list \<Rightarrow> int list \<Rightarrow> int list \<Rightarrow> int \<Rightarrow> real list \<Rightarrow> error + real list" where
  "elim_i ess I J i dA =
     ebind (rd ess i) (\<lambda>idof.
     ebind (rd I idof) (\<lambda>lo.
     ebind (rd I (idof + 1)) (\<lambda>hi.
     efold (elim_j I J idof) [lo..hi - 1] dA)))"

definition Eliminate :: "int list \<Rightarrow> SparseMatrix \<Rightarrow> error + SparseMatrix" where
  "Eliminate ess A_mat =
     ebind (efold (elim_i ess (GetI A_mat) (GetJ A_mat)) [0..int (length ess) - 1] (GetData A_mat))
       (\<lambda>dA. Inr (A_mat\<lparr>GetData := dA\<rparr>))"

text \<open>
  The serial \<^verbatim>\<open>Assemble(A)\<close>: \<^verbatim>\<open>AssembleWithoutBC\<close> (the kernel of the derived class
  has filled \<^verbatim>\<open>sparse_ij\<close> and \<^verbatim>\<open>sparse_mapping\<close>), then the elimination.
\<close>

definition Assemble ::
  "BatchedLORAssembly \<Rightarrow> (nat \<Rightarrow> int) \<Rightarrow> (nat \<Rightarrow> real) \<Rightarrow> SparseMatrix \<Rightarrow> error + SparseMatrix" where
  "Assemble b ui ud A = ebind (SparseIJToCSR b ui ud A) (Eliminate (ess_dofs b))"

subsection \<open>The elimination of \<^verbatim>\<open>ParAssemble\<close>\<close>

text \<open>
  The distributed matrix is hypre's: a diagonal block and an off-diagonal block, each
  in CSR form. How they are built (\<^verbatim>\<open>MakeSquareBlockDiag\<close>, \<^verbatim>\<open>MakePtAP\<close>) and the
  exchange of the row mask are hypre's work; the model starts from the two blocks and
  from \<^verbatim>\<open>eliminate_col\<close> as the exchange has filled it.
\<close>

record hypre_CSRMatrix =
  NumRows :: int
  NumCols :: int
  csr_i :: "int list"
  csr_j :: "int list"
  csr_data :: "real list"

definition par_diag_j :: "int list \<Rightarrow> int list \<Rightarrow> int \<Rightarrow> int \<Rightarrow> real list \<Rightarrow> error + real list" where
  "par_diag_j I J idof j data =
     ebind (rd J j) (\<lambda>jdof.
     if jdof = idof then wr data j 1
     else
       ebind (wr data j 0) (\<lambda>data1.
       ebind (rd I jdof) (\<lambda>lo.
       ebind (rd I (jdof + 1)) (\<lambda>hi.
       elim_sym J idof [lo..hi - 1] data1))))"

definition par_diag_i :: "int list \<Rightarrow> int list \<Rightarrow> int list \<Rightarrow> int \<Rightarrow> real list \<Rightarrow> error + real list" where
  "par_diag_i ess I J i data =
     ebind (rd ess i) (\<lambda>idof.
     ebind (rd I idof) (\<lambda>lo.
     ebind (rd I (idof + 1)) (\<lambda>hi.
     efold (par_diag_j I J idof) [lo..hi - 1] data)))"

definition par_offd_row_i :: "int list \<Rightarrow> int list \<Rightarrow> int \<Rightarrow> real list \<Rightarrow> error + real list" where
  "par_offd_row_i ess I i data =
     ebind (rd ess i) (\<lambda>idof.
     ebind (rd I idof) (\<lambda>lo.
     ebind (rd I (idof + 1)) (\<lambda>hi.
     efold (\<lambda>j d. wr d j 0) [lo..hi - 1] data)))"

text \<open>The second loop over \<^verbatim>\<open>eliminate_col\<close>, which collects the marked columns.\<close>

definition cols_step :: "int list \<Rightarrow> int \<Rightarrow> int list \<Rightarrow> error + int list" where
  "cols_step eliminate_col i cols =
     ebind (rd eliminate_col i) (\<lambda>m. if m \<noteq> 0 then Inr (cols @ [i]) else Inr cols)"

definition par_offd_col_row :: "int list \<Rightarrow> int list \<Rightarrow> int \<Rightarrow> int \<Rightarrow> real list \<Rightarrow> error + real list" where
  "par_offd_col_row I J j i data =
     ebind (rd I i) (\<lambda>lo.
     ebind (rd I (i + 1)) (\<lambda>hi.
     elim_sym J j [lo..hi - 1] data))"

definition par_offd_col :: "int \<Rightarrow> int list \<Rightarrow> int list \<Rightarrow> int \<Rightarrow> real list \<Rightarrow> error + real list" where
  "par_offd_col nrows_offd I J j data =
     efold (par_offd_col_row I J j) [0..nrows_offd - 1] data"

definition ParEliminate ::
  "int list \<Rightarrow> int list \<Rightarrow> hypre_CSRMatrix \<times> hypre_CSRMatrix
     \<Rightarrow> error + (hypre_CSRMatrix \<times> hypre_CSRMatrix)" where
  "ParEliminate ess eliminate_col = (\<lambda>(diag, offd).
     let diag_nrows = NumRows diag;
         offd_ncols = NumCols offd;
         n_ess_dofs = int (length ess)
     in
     ebind (efold (\<lambda>i row. ebind (rd ess i) (\<lambda>d. wr row d (1::int))) [0..n_ess_dofs - 1]
              (replicate (nat diag_nrows) 0)) (\<lambda>eliminate_row.
     ebind (efold (par_diag_i ess (csr_i diag) (csr_j diag)) [0..n_ess_dofs - 1]
              (csr_data diag)) (\<lambda>ddata.
     ebind (efold (par_offd_row_i ess (csr_i offd)) [0..n_ess_dofs - 1]
              (csr_data offd)) (\<lambda>odata1.
     ebind (efold (cols_step eliminate_col) [0..offd_ncols - 1] []) (\<lambda>cols_to_eliminate.
     ebind (efold (par_offd_col (NumRows offd) (csr_i offd) (csr_j offd)) cols_to_eliminate
              odata1) (\<lambda>odata2.
     Inr (diag\<lparr>csr_data := ddata\<rparr>, offd\<lparr>csr_data := odata2\<rparr>)))))))"

subsection \<open>A small mesh\<close>

text \<open>
  Two elements with two local slots each on three global DOFs: element 0 holds DOFs 0
  and 1, element 1 holds DOF 1, with reversed orientation, and DOF 2. The template
  couples every slot with every slot. The two elements contribute 2 and 3 to the
  entry (1, 1).
\<close>

definition ex_restr :: ElementRestriction where
  "ex_restr = \<lparr>GatherMap = [0, 1, -2, 2], Indices = [0, 1, -3, 3], Offsets = [0, 1, 3, 4]\<rparr>"

definition ex_lor :: BatchedLORAssembly where
  "ex_lor = \<lparr>GetVSize = 3, GetDof = 2, GetNE = 2,
     GetElementRestriction = Some ex_restr,
     sparse_mapping_Height = 2,
     sparse_mapping = [0, 1, 0, 1],
     sparse_ij = [10, 20, 30, 2, 3, 60, 70, 80],
     ess_dofs = [0]\<rparr>"

definition ex_empty :: SparseMatrix where
  "ex_empty = \<lparr>Height = 0, Width = 0, GetI = [], GetJ = [], GetData = []\<rparr>"

subsection \<open>Notions of the specification\<close>

text \<open>The exclusive prefix sums of the first \<open>n\<close> counters, and their total last.\<close>

definition prefix_sums :: "int list \<Rightarrow> nat \<Rightarrow> int list" where
  "prefix_sums cnt n = map (\<lambda>i. sum_list (take i cnt)) [0..<Suc n]"

text \<open>The per-row counters: one for each row and one more, none negative.\<close>

definition counters_ok :: "nat \<Rightarrow> int list \<Rightarrow> bool" where
  "counters_ok n I \<longleftrightarrow> length I = n \<and> (\<forall>x \<in> set I. 0 \<le> x)"

text \<open>Every incidence list has at most \<^verbatim>\<open>Max\<close> entries.\<close>

definition degree_ok :: "ElementRestriction \<Rightarrow> bool" where
  "degree_ok r \<longleftrightarrow>
     (\<forall>d \<in> set [0..int (length (Offsets r)) - 2].
        Offsets r ! nat (d + 1) - Offsets r ! nat d \<le> Max16)"

text \<open>Seventeen elements with one slot each, all on the one global DOF.\<close>

definition ex17_restr :: ElementRestriction where
  "ex17_restr = \<lparr>GatherMap = replicate 17 0, Indices = [0..16], Offsets = [0, 17]\<rparr>"

definition ex17 :: BatchedLORAssembly where
  "ex17 = \<lparr>GetVSize = 1, GetDof = 1, GetNE = 17,
     GetElementRestriction = Some ex17_restr,
     sparse_mapping_Height = 1,
     sparse_mapping = [0],
     sparse_ij = replicate 17 1,
     ess_dofs = []\<rparr>"

subsection \<open>CSR matrices\<close>

text \<open>The positions of row \<open>r\<close> in \<^verbatim>\<open>J\<close> and \<^verbatim>\<open>Data\<close>.\<close>

definition row_slice :: "int list \<Rightarrow> int \<Rightarrow> int list" where
  "row_slice I r = [I ! nat r..I ! nat (r + 1) - 1]"

text \<open>
  A CSR matrix of \<open>n\<close> rows in good shape: \<open>n + 1\<close> offsets from 0 that do not
  decrease and end at the length of \<^verbatim>\<open>J\<close> and \<^verbatim>\<open>Data\<close>; for a square one, column
  indices below \<open>n\<close>.
\<close>

definition csr_shape :: "int \<Rightarrow> int list \<Rightarrow> int list \<Rightarrow> real list \<Rightarrow> bool" where
  "csr_shape n I J D \<longleftrightarrow>
     0 \<le> n \<and> length I = nat n + 1 \<and> I ! 0 = 0 \<and> sorted I \<and> I ! nat n = int (length J)
     \<and> length D = length J"

definition csr_ok :: "int \<Rightarrow> int list \<Rightarrow> int list \<Rightarrow> real list \<Rightarrow> bool" where
  "csr_ok n I J D \<longleftrightarrow> csr_shape n I J D \<and> (\<forall>c \<in> set J. 0 \<le> c \<and> c < n)"

text \<open>No row holds a column twice.\<close>

definition rows_distinct :: "int \<Rightarrow> int list \<Rightarrow> int list \<Rightarrow> bool" where
  "rows_distinct n I J \<longleftrightarrow>
     (\<forall>r \<in> set [0..n - 1]. distinct (map (\<lambda>p. J ! nat p) (row_slice I r)))"

text \<open>The pattern is symmetric: where \<open>(r, c)\<close> is stored, \<open>(c, r)\<close> is stored.\<close>

definition pattern_symmetric :: "int \<Rightarrow> int list \<Rightarrow> int list \<Rightarrow> bool" where
  "pattern_symmetric n I J \<longleftrightarrow>
     (\<forall>r \<in> set [0..n - 1]. \<forall>p \<in> set (row_slice I r).
        r \<in> (\<lambda>q. J ! nat q) ` set (row_slice I (J ! nat p)))"

text \<open>The values with the positions in \<open>Z\<close> set to zero.\<close>

definition zero_at :: "int set \<Rightarrow> real list \<Rightarrow> real list" where
  "zero_at Z xs = map (\<lambda>p. if int p \<in> Z then 0 else xs ! p) [0..<length xs]"

text \<open>
  The positions that the elimination of \<open>idof\<close> zeroes on account of position \<open>j\<close>
  of its row: \<open>j\<close> itself and the first position of the row of its column that holds
  column \<open>idof\<close>, unless \<open>j\<close> is on the diagonal.
\<close>

definition elim_zeros_j :: "int list \<Rightarrow> int list \<Rightarrow> int \<Rightarrow> int \<Rightarrow> int set" where
  "elim_zeros_j I J idof j =
     (if J ! nat j = idof then {}
      else insert j (set_option (find (\<lambda>k. J ! nat k = idof) (row_slice I (J ! nat j)))))"

definition elim_zeros :: "int list \<Rightarrow> int list \<Rightarrow> int list \<Rightarrow> int set" where
  "elim_zeros I J ess = (\<Union>idof \<in> set ess. \<Union>j \<in> set (row_slice I idof). elim_zeros_j I J idof j)"

text \<open>
  One element with four slots on four DOFs and a template that couples every slot with
  every slot: a dense 4 by 4 block, with DOF 0 essential.
\<close>

definition ex_dense :: BatchedLORAssembly where
  "ex_dense = \<lparr>GetVSize = 4, GetDof = 4, GetNE = 1,
     GetElementRestriction =
       Some \<lparr>GatherMap = [0, 1, 2, 3], Indices = [0, 1, 2, 3], Offsets = [0, 1, 2, 3, 4]\<rparr>,
     sparse_mapping_Height = 4,
     sparse_mapping = [0, 1, 2, 3, 0, 1, 2, 3, 0, 1, 2, 3, 0, 1, 2, 3],
     sparse_ij = [1, 2, 3, 4, 5, 6, 7, 8, 9, 10, 11, 12, 13, 14, 15, 16],
     ess_dofs = [0]\<rparr>"

text \<open>
  A run of writes of 0 at positions in \<open>Z\<close> and of 1 at positions in \<open>N\<close>, seen from
  its two ends: a position in neither set keeps its value, one in \<open>Z\<close> only ends as 0,
  one in \<open>N\<close> only ends as 1.
\<close>

definition writes01 :: "int set \<Rightarrow> int set \<Rightarrow> real list \<Rightarrow> real list \<Rightarrow> bool" where
  "writes01 Z N t t' \<longleftrightarrow>
     length t' = length t
     \<and> (\<forall>p < length t.
          (int p \<notin> Z \<and> int p \<notin> N \<longrightarrow> t' ! p = t ! p)
        \<and> (int p \<in> Z \<and> int p \<notin> N \<longrightarrow> t' ! p = 0)
        \<and> (int p \<in> N \<and> int p \<notin> Z \<longrightarrow> t' ! p = 1))"

text \<open>The diagonal positions of the rows of the essential DOFs.\<close>

definition diag_ones :: "int list \<Rightarrow> int list \<Rightarrow> int list \<Rightarrow> int set" where
  "diag_ones I J ess = {p. \<exists>d \<in> set ess. p \<in> set (row_slice I d) \<and> J ! nat p = d}"

text \<open>
  The positions of the off-diagonal block that the distributed elimination zeroes: the
  rows of the essential DOFs, and in every row the first position of each marked column.
\<close>

definition offd_zeros :: "int list \<Rightarrow> int list \<Rightarrow> int list \<Rightarrow> int list \<Rightarrow> int \<Rightarrow> int set" where
  "offd_zeros I J ess cols nrows =
     (\<Union>d \<in> set ess. set (row_slice I d))
     \<union> (\<Union>c \<in> set cols. \<Union>i \<in> set [0..nrows - 1].
          set_option (find (\<lambda>k. J ! nat k = c) (row_slice I i)))"

text \<open>
  One element on two DOFs whose template couples slot 1 with slot 0 but not slot 0 with
  slot 1, with DOF 0 essential.
\<close>

definition ex_unsym :: BatchedLORAssembly where
  "ex_unsym = \<lparr>GetVSize = 2, GetDof = 2, GetNE = 1,
     GetElementRestriction =
       Some \<lparr>GatherMap = [0, 1], Indices = [0, 1], Offsets = [0, 1, 2]\<rparr>,
     sparse_mapping_Height = 2,
     sparse_mapping = [0, -1, 0, 1],
     sparse_ij = [1, 0, 5, 2],
     ess_dofs = [0]\<rparr>"

text \<open>
  The blocks of a distributed matrix on one domain: two local rows, two remote columns
  of which the first is essential on its owner; local DOF 0 is essential.
\<close>

definition ex_diag :: hypre_CSRMatrix where
  "ex_diag = \<lparr>NumRows = 2, NumCols = 2, csr_i = [0, 2, 4], csr_j = [0, 1, 0, 1],
     csr_data = [4, 1, 1, 4]\<rparr>"

definition ex_offd :: hypre_CSRMatrix where
  "ex_offd = \<lparr>NumRows = 2, NumCols = 2, csr_i = [0, 2, 4], csr_j = [0, 1, 0, 1],
     csr_data = [7, 9, 8, 6]\<rparr>"

text \<open>
  What the elimination is to achieve on a block with offsets \<open>I\<close>, columns \<open>J\<close> and
  final values \<open>D'\<close>: for every essential DOF \<open>d\<close> the off-diagonal entries of row
  \<open>d\<close> and of column \<open>d\<close> are zero, and the diagonal entries are as \<open>f\<close> says.
\<close>

definition rows_cols_zero :: "int \<Rightarrow> int list \<Rightarrow> int list \<Rightarrow> int list \<Rightarrow> real list \<Rightarrow> bool" where
  "rows_cols_zero n ess I J D' \<longleftrightarrow>
     (\<forall>d \<in> set ess.
        (\<forall>p \<in> set (row_slice I d). J ! nat p \<noteq> d \<longrightarrow> D' ! nat p = 0)
      \<and> (\<forall>r \<in> set [0..n - 1]. \<forall>q \<in> set (row_slice I r).
            r \<noteq> d \<and> J ! nat q = d \<longrightarrow> D' ! nat q = 0))"

definition diagonal_is :: "int list \<Rightarrow> int list \<Rightarrow> int list \<Rightarrow> (int \<Rightarrow> real) \<Rightarrow> real list \<Rightarrow> bool" where
  "diagonal_is ess I J f D' \<longleftrightarrow>
     (\<forall>d \<in> set ess. \<forall>p \<in> set (row_slice I d). J ! nat p = d \<longrightarrow> D' ! nat p = f p)"

text \<open>
  On the off-diagonal block: the rows of the essential DOFs are zero, and so is every
  entry whose column is marked in \<open>ec\<close>.
\<close>

definition offd_eliminated ::
  "int \<Rightarrow> int \<Rightarrow> int list \<Rightarrow> int list \<Rightarrow> int list \<Rightarrow> int list \<Rightarrow> real list \<Rightarrow> bool" where
  "offd_eliminated nrows ncols ess ec I J D' \<longleftrightarrow>
     (\<forall>d \<in> set ess. \<forall>p \<in> set (row_slice I d). D' ! nat p = 0)
     \<and> (\<forall>c \<in> set [0..ncols - 1]. ec ! nat c \<noteq> 0 \<longrightarrow>
          (\<forall>i \<in> set [0..nrows - 1]. \<forall>q \<in> set (row_slice I i). J ! nat q = c \<longrightarrow> D' ! nat q = 0))"

subsection \<open>The incidence data and the template, read without checks\<close>

text \<open>
  The number of E-vector indices, the signed and the decoded global DOF of an E-vector
  index, the length and the entries of the incidence list of a DOF, the template, and
  the element values. E-vector index \<open>x\<close> is slot \<open>x mod ndof\<close> of element
  \<open>x div ndof\<close>.
\<close>

definition n_edofs :: "BatchedLORAssembly \<Rightarrow> int" where
  "n_edofs b = GetDof b * GetNE b"

definition sdof :: "ElementRestriction \<Rightarrow> int \<Rightarrow> int" where
  "sdof r x = GatherMap r ! nat x"

definition gdof :: "ElementRestriction \<Rightarrow> int \<Rightarrow> int" where
  "gdof r x = decode (sdof r x)"

definition inc_len :: "ElementRestriction \<Rightarrow> int \<Rightarrow> int" where
  "inc_len r d = Offsets r ! nat (d + 1) - Offsets r ! nat d"

definition inc_list :: "ElementRestriction \<Rightarrow> int \<Rightarrow> int list" where
  "inc_list r d = map (\<lambda>t. Indices r ! nat (Offsets r ! nat d + t)) [0..inc_len r d - 1]"

definition tmpl :: "BatchedLORAssembly \<Rightarrow> int \<Rightarrow> int \<Rightarrow> int" where
  "tmpl b k a = sparse_mapping b ! nat (k + sparse_mapping_Height b * a)"

definition val_at :: "BatchedLORAssembly \<Rightarrow> int \<Rightarrow> int \<Rightarrow> int \<Rightarrow> real" where
  "val_at b k a e = sparse_ij b ! nat (k + sparse_mapping_Height b * (a + GetDof b * e))"

text \<open>The element and the slot of a signed E-vector index of the incidence table.\<close>

definition elt_of :: "BatchedLORAssembly \<Rightarrow> int \<Rightarrow> int" where
  "elt_of b s = decode s div GetDof b"

definition slot_of :: "BatchedLORAssembly \<Rightarrow> int \<Rightarrow> int" where
  "slot_of b s = decode s mod GetDof b"

text \<open>The slot as the fill pass keeps it in \<^verbatim>\<open>i_B\<close>: encoded with the sign of the entry.\<close>

definition B_of :: "BatchedLORAssembly \<Rightarrow> int \<Rightarrow> int" where
  "B_of b s = (if 0 \<le> s then slot_of b s else -1 - slot_of b s)"

definition elt_list :: "BatchedLORAssembly \<Rightarrow> ElementRestriction \<Rightarrow> int \<Rightarrow> int list" where
  "elt_list b r d = map (elt_of b) (inc_list r d)"

text \<open>
  The election as a function of the two lists of elements: the least element of the
  first \<open>n\<close> of \<open>xs\<close> that is among the first \<open>m\<close> of \<open>ys\<close>, and \<^verbatim>\<open>INT_MAX\<close> when
  there is none below it.
\<close>

definition common_min_step :: "int list \<Rightarrow> int \<Rightarrow> int \<Rightarrow> int \<Rightarrow> int" where
  "common_min_step ys m min_el e_i =
     (if e_i \<ge> min_el then min_el
      else if e_i \<in> set (take (nat m) ys) then e_i
      else min_el)"

definition common_min :: "int list \<Rightarrow> int \<Rightarrow> int list \<Rightarrow> int \<Rightarrow> int" where
  "common_min xs n ys m = foldl (common_min_step ys m) INT_MAX (take (nat n) xs)"

subsection \<open>What one iteration emits\<close>

text \<open>
  Iteration \<open>i\<close> with template entry \<open>j\<close>: the column slot, the E-vector index of that
  slot in the element of \<open>i\<close>, and whether the pair of passes counts and writes an entry
  there: the template entry is present, and one of the two incidence lists has length 1
  or the element of \<open>i\<close> is the one \<^verbatim>\<open>GetMinElt\<close> elects.
\<close>

definition col_slot :: "BatchedLORAssembly \<Rightarrow> int \<Rightarrow> int \<Rightarrow> int" where
  "col_slot b i j = tmpl b j (i mod GetDof b)"

definition col_edof :: "BatchedLORAssembly \<Rightarrow> int \<Rightarrow> int \<Rightarrow> int" where
  "col_edof b i j = col_slot b i j + GetDof b * (i div GetDof b)"

definition no_conflict :: "ElementRestriction \<Rightarrow> int \<Rightarrow> int \<Rightarrow> bool" where
  "no_conflict r ii jj \<longleftrightarrow> inc_len r ii = 1 \<or> inc_len r jj = 1"

definition emits :: "BatchedLORAssembly \<Rightarrow> ElementRestriction \<Rightarrow> int \<Rightarrow> int \<Rightarrow> bool" where
  "emits b r i j \<longleftrightarrow>
     0 \<le> col_slot b i j
     \<and> (let ii = gdof r i; jj = gdof r (col_edof b i j) in
        no_conflict r ii jj
        \<or> i div GetDof b = common_min (elt_list b r ii) (inc_len r ii) (elt_list b r jj) (inc_len r jj))"

text \<open>
  The value of the conflict case: the double loop over the two incidence lists, with
  the reverse lookup in the template.
\<close>

definition lookup :: "BatchedLORAssembly \<Rightarrow> int \<Rightarrow> int \<Rightarrow> int" where
  "lookup b a c =
     (case find (\<lambda>m. tmpl b m a = c) [0..sparse_mapping_Height b - 1] of
        Some m \<Rightarrow> m | None \<Rightarrow> -1)"

definition acc_term :: "BatchedLORAssembly \<Rightarrow> int \<Rightarrow> int \<Rightarrow> real" where
  "acc_term b sk sl =
     of_int (sgn_of sl sk)
       * val_at b (lookup b (slot_of b sk) (slot_of b sl)) (slot_of b sk) (elt_of b sk)"

definition acc_val :: "BatchedLORAssembly \<Rightarrow> ElementRestriction \<Rightarrow> int \<Rightarrow> int \<Rightarrow> real" where
  "acc_val b r ii jj =
     foldl (\<lambda>val sk.
        foldl (\<lambda>val sl. if elt_of b sk = elt_of b sl then val + acc_term b sk sl else val)
          val (inc_list r jj))
       0 (inc_list r ii)"

text \<open>The entry emitted: row, column and value.\<close>

definition entry :: "BatchedLORAssembly \<Rightarrow> ElementRestriction \<Rightarrow> int \<Rightarrow> int \<Rightarrow> int \<times> int \<times> real" where
  "entry b r i j =
     (let ii = gdof r i; y = col_edof b i j; jj = gdof r y in
      (ii, jj,
       if no_conflict r ii jj
       then of_int (sgn_of (sdof r y) (sdof r i)) * val_at b j (i mod GetDof b) (i div GetDof b)
       else acc_val b r ii jj))"

definition events :: "BatchedLORAssembly \<Rightarrow> ElementRestriction \<Rightarrow> int \<Rightarrow> (int \<times> int \<times> real) list" where
  "events b r i = map (entry b r i) (filter (emits b r i) [0..sparse_mapping_Height b - 1])"

text \<open>
  Serving one emitted entry in the fill pass: the atomic claim on the cursor of the
  row, then the two writes into the claimed position.
\<close>

definition put_event ::
  "int \<times> int \<times> real \<Rightarrow> int list \<times> int list \<times> real list
     \<Rightarrow> error + (int list \<times> int list \<times> real list)" where
  "put_event = (\<lambda>(ii, jj, v) (I, J, AV).
     ebind (GetAndIncrementNnzIndex ii I) (\<lambda>(nnz, I').
     ebind (wr J nnz jj) (\<lambda>J'.
     ebind (wr AV nnz v) (\<lambda>AV'.
     Inr (I', J', AV')))))"

definition bump :: "int list \<Rightarrow> int \<Rightarrow> int list" where
  "bump I ii = I[nat ii := I ! nat ii + 1]"

subsection \<open>Conditions on the input\<close>

text \<open>
  The arrays have the sizes the kernels index them with, the iteration count fits an
  \<^verbatim>\<open>int\<close>, every global DOF is below \<open>nvdof\<close>, every incidence entry is an E-vector
  index, the offsets ascend within the incidence table, and the template names slots.
\<close>

definition shapes_ok :: "BatchedLORAssembly \<Rightarrow> ElementRestriction \<Rightarrow> bool" where
  "shapes_ok b r \<longleftrightarrow>
     0 < GetDof b \<and> 0 \<le> GetNE b \<and> 0 \<le> sparse_mapping_Height b \<and> 0 \<le> GetVSize b
     \<and> n_edofs b \<le> INT_MAX
     \<and> int (length (GatherMap r)) = n_edofs b
     \<and> int (length (Indices r)) = n_edofs b
     \<and> int (length (Offsets r)) = GetVSize b + 1
     \<and> int (length (sparse_mapping b)) = sparse_mapping_Height b * GetDof b
     \<and> int (length (sparse_ij b)) = sparse_mapping_Height b * (GetDof b * GetNE b)
     \<and> (\<forall>s \<in> set (GatherMap r). decode s < GetVSize b)
     \<and> (\<forall>s \<in> set (Indices r). decode s < n_edofs b)
     \<and> sorted (Offsets r) \<and> 0 \<le> Offsets r ! 0 \<and> Offsets r ! nat (GetVSize b) \<le> n_edofs b
     \<and> (\<forall>c \<in> set (sparse_mapping b). c < GetDof b)"

text \<open>Every reverse lookup that a conflict case performs finds its template entry.\<close>

definition lookups_ok :: "BatchedLORAssembly \<Rightarrow> ElementRestriction \<Rightarrow> bool" where
  "lookups_ok b r \<longleftrightarrow>
     (\<forall>i \<in> set [0..n_edofs b - 1]. \<forall>j \<in> set [0..sparse_mapping_Height b - 1].
        emits b r i j \<and> \<not> no_conflict r (gdof r i) (gdof r (col_edof b i j)) \<longrightarrow>
        (\<forall>sk \<in> set (inc_list r (gdof r i)). \<forall>sl \<in> set (inc_list r (gdof r (col_edof b i j))).
           elt_of b sk = elt_of b sl \<longrightarrow> 0 \<le> lookup b (slot_of b sk) (slot_of b sl)))"

definition assembly_safe :: "BatchedLORAssembly \<Rightarrow> ElementRestriction \<Rightarrow> bool" where
  "assembly_safe b r \<longleftrightarrow>
     GetElementRestriction b = Some r \<and> shapes_ok b r \<and> degree_ok r \<and> lookups_ok b r"

text \<open>A schedule runs every iteration once.\<close>

definition schedule :: "BatchedLORAssembly \<Rightarrow> int list \<Rightarrow> bool" where
  "schedule b sched \<longleftrightarrow> distinct sched \<and> set sched = set [0..n_edofs b - 1]"

text \<open>
  The incidence table is the gather map turned round: the list of a DOF holds, once
  each, the E-vector indices that the gather map sends to it, with the sign the gather
  map has there.
\<close>

definition incidence_ok :: "BatchedLORAssembly \<Rightarrow> ElementRestriction \<Rightarrow> bool" where
  "incidence_ok b r \<longleftrightarrow>
     (\<forall>d \<in> set [0..GetVSize b - 1].
        distinct (map decode (inc_list r d))
        \<and> set (map decode (inc_list r d)) = set (filter (\<lambda>x. gdof r x = d) [0..n_edofs b - 1])
        \<and> (\<forall>s \<in> set (inc_list r d). (0 \<le> s) = (0 \<le> sdof r (decode s))))"

text \<open>No element holds a global DOF in two of its slots.\<close>

definition slots_distinct :: "BatchedLORAssembly \<Rightarrow> ElementRestriction \<Rightarrow> bool" where
  "slots_distinct b r \<longleftrightarrow>
     (\<forall>x \<in> set [0..n_edofs b - 1]. \<forall>y \<in> set [0..n_edofs b - 1].
        x div GetDof b = y div GetDof b \<and> gdof r x = gdof r y \<longrightarrow> x = y)"

text \<open>No row of the template names a slot twice.\<close>

definition tmpl_distinct :: "BatchedLORAssembly \<Rightarrow> bool" where
  "tmpl_distinct b \<longleftrightarrow>
     (\<forall>a \<in> set [0..GetDof b - 1].
        \<forall>k \<in> set [0..sparse_mapping_Height b - 1]. \<forall>k' \<in> set [0..sparse_mapping_Height b - 1].
          0 \<le> tmpl b k a \<and> tmpl b k a = tmpl b k' a \<longrightarrow> k = k')"

text \<open>
  The elements agree on the coupling: where two elements both hold a pair of global
  DOFs, the template couples the two slots in the one exactly when it couples them in
  the other.
\<close>

definition coupled :: "BatchedLORAssembly \<Rightarrow> int \<Rightarrow> int \<Rightarrow> bool" where
  "coupled b a c \<longleftrightarrow> c \<in> (\<lambda>k. tmpl b k a) ` set [0..sparse_mapping_Height b - 1]"

definition tmpl_agrees :: "BatchedLORAssembly \<Rightarrow> ElementRestriction \<Rightarrow> bool" where
  "tmpl_agrees b r \<longleftrightarrow>
     (\<forall>x \<in> set [0..n_edofs b - 1]. \<forall>x' \<in> set [0..n_edofs b - 1]. gdof r x = gdof r x' \<longrightarrow>
        (\<forall>c \<in> set [0..GetDof b - 1]. \<forall>c' \<in> set [0..GetDof b - 1].
           gdof r (c + GetDof b * (x div GetDof b)) = gdof r (c' + GetDof b * (x' div GetDof b))
           \<longrightarrow> coupled b (x mod GetDof b) c = coupled b (x' mod GetDof b) c'))"

subsection \<open>What the specification asks of the assembled matrix\<close>

text \<open>
  The pairs asserted: element-local row slot, present template entry. For a row, the
  columns asserted in it; for a pair, the contributions of the elements to it, each
  with its orientation sign.
\<close>

definition asserted_cols :: "BatchedLORAssembly \<Rightarrow> ElementRestriction \<Rightarrow> int \<Rightarrow> int list" where
  "asserted_cols b r d =
     concat (map (\<lambda>i. map (\<lambda>j. gdof r (col_edof b i j))
                        (filter (\<lambda>j. 0 \<le> col_slot b i j) [0..sparse_mapping_Height b - 1]))
              (filter (\<lambda>i. gdof r i = d) [0..n_edofs b - 1]))"

definition contributions :: "BatchedLORAssembly \<Rightarrow> ElementRestriction \<Rightarrow> int \<Rightarrow> int \<Rightarrow> real list" where
  "contributions b r d c =
     concat (map (\<lambda>i. map (\<lambda>j. of_int (sgn_of (sdof r (col_edof b i j)) (sdof r i))
                                 * val_at b j (i mod GetDof b) (i div GetDof b))
                        (filter (\<lambda>j. 0 \<le> col_slot b i j \<and> gdof r (col_edof b i j) = c)
                           [0..sparse_mapping_Height b - 1]))
              (filter (\<lambda>i. gdof r i = d) [0..n_edofs b - 1]))"

text \<open>The entries of row \<open>d\<close> of a matrix: column and value, in storage order.\<close>

definition row_entries :: "SparseMatrix \<Rightarrow> int \<Rightarrow> (int \<times> real) list" where
  "row_entries A d = map (\<lambda>p. (GetJ A ! nat p, GetData A ! nat p)) (row_slice (GetI A) d)"

text \<open>
  One element whose two slots are the same global DOF, as on a periodic mesh one
  element wide; the template couples every slot with every slot.
\<close>

definition ex_wrap_restr :: ElementRestriction where
  "ex_wrap_restr = \<lparr>GatherMap = [0, 0], Indices = [0, 1], Offsets = [0, 2]\<rparr>"

definition ex_wrap :: BatchedLORAssembly where
  "ex_wrap = \<lparr>GetVSize = 1, GetDof = 2, GetNE = 1,
     GetElementRestriction = Some ex_wrap_restr,
     sparse_mapping_Height = 2,
     sparse_mapping = [0, 1, 0, 1],
     sparse_ij = [1, 2, 3, 4],
     ess_dofs = []\<rparr>"

text \<open>Of a list of emitted entries: how many go to row \<open>d\<close>, and which, in order.\<close>

definition count_row :: "(int \<times> int \<times> real) list \<Rightarrow> int \<Rightarrow> int" where
  "count_row es d = int (length (filter (\<lambda>e. fst e = d) es))"

definition row_events :: "(int \<times> int \<times> real) list \<Rightarrow> int \<Rightarrow> (int \<times> real) list" where
  "row_events es d = map snd (filter (\<lambda>e. fst e = d) es)"

text \<open>The element that \<^verbatim>\<open>GetMinElt\<close> elects for a row DOF and a column DOF.\<close>

definition elected :: "BatchedLORAssembly \<Rightarrow> ElementRestriction \<Rightarrow> int \<Rightarrow> int \<Rightarrow> int" where
  "elected b r d c = common_min (elt_list b r d) (inc_len r d) (elt_list b r c) (inc_len r c)"

text \<open>
  The rule of the specification for the row-count pass: iteration \<open>i\<close> counts the
  template entry \<open>j\<close> when the entry is present and either one of the two incidence
  lists has length 1 or the element of \<open>i\<close> is the least element that the two lists
  have in common.
\<close>

definition counted :: "BatchedLORAssembly \<Rightarrow> ElementRestriction \<Rightarrow> int \<Rightarrow> int \<Rightarrow> bool" where
  "counted b r i j \<longleftrightarrow>
     0 \<le> col_slot b i j
     \<and> (let ii = gdof r i; jj = gdof r (col_edof b i j) in
        inc_len r ii = 1 \<or> inc_len r jj = 1
        \<or> i div GetDof b = Min (set (elt_list b r ii) \<inter> set (elt_list b r jj)))"

text \<open>
  The input the two passes are written for: the arrays well shaped, every incidence
  list within the bound, the incidence table the gather map turned round, no element
  with a global DOF in two slots, no template row with a slot twice, and the elements
  agreeing on the coupling.
\<close>

definition mesh_ok :: "BatchedLORAssembly \<Rightarrow> ElementRestriction \<Rightarrow> bool" where
  "mesh_ok b r \<longleftrightarrow>
     GetElementRestriction b = Some r \<and> shapes_ok b r \<and> degree_ok r
     \<and> incidence_ok b r \<and> slots_distinct b r \<and> tmpl_distinct b \<and> tmpl_agrees b r"

text \<open>
  Row \<open>d\<close> of the matrix is the assembled row: no column twice, the columns are those
  asserted, and each value is the sum of the contributions to its pair.
\<close>

definition row_assembled :: "BatchedLORAssembly \<Rightarrow> ElementRestriction \<Rightarrow> SparseMatrix \<Rightarrow> int \<Rightarrow> bool" where
  "row_assembled b r A d \<longleftrightarrow>
     distinct (map fst (row_entries A d))
     \<and> set (map fst (row_entries A d)) = set (asserted_cols b r d)
     \<and> (\<forall>e \<in> set (row_entries A d). snd e = sum_list (contributions b r d (fst e)))"


section \<open>Properties\<close>

subsection \<open>The error monad\<close>

lemma ebind_simps [simp]: "ebind (Inr x) f = f x" "ebind (Inl e) f = Inl e"
  by (simp_all add: ebind_def)

lemma ebind_eq_Inr: "ebind m f = Inr y \<longleftrightarrow> (\<exists>x. m = Inr x \<and> f x = Inr y)"
  by (cases m) simp_all

subsection \<open>Feasibility check\<close>

lemma distinct_subset_pair_length: "distinct xs \<Longrightarrow> set xs \<subseteq> {a, b} \<Longrightarrow> length xs \<le> 2"
proof -
  assume d: "distinct xs" and s: "set xs \<subseteq> {a, b}"
  have "card (set xs) \<le> card {a, b}" using s by (intro card_mono) auto
  also have "\<dots> \<le> 2" by (simp add: card_insert_if)
  finally show ?thesis using d by (simp add: distinct_card)
qed

lemma one_or_both_cases:
  "T1 \<noteq> T2 \<Longrightarrow> one_or_both (T1, T2) integs \<longleftrightarrow>
     integs = [T1] \<or> integs = [T2] \<or> integs = [T1, T2] \<or> integs = [T2, T1]"
proof (cases integs)
  case Nil then show ?thesis by (simp add: one_or_both_def)
next
  case (Cons x xs)
  assume ne: "T1 \<noteq> T2"
  show ?thesis
  proof (cases xs)
    case Nil with Cons ne show ?thesis by (auto simp: one_or_both_def)
  next
    case (Cons y ys)
    note c2 = this
    show ?thesis
    proof (cases ys)
      case Nil with c2 \<open>integs = x # xs\<close> ne show ?thesis by (auto simp: one_or_both_def)
    next
      case (Cons z zs)
      then have len: "length integs > 2" using c2 \<open>integs = x # xs\<close> by simp
      have "\<not> one_or_both (T1, T2) integs"
        using distinct_subset_pair_length[of integs T1 T2] len by (auto simp: one_or_both_def)
      then show ?thesis using Cons c2 \<open>integs = x # xs\<close> by simp
    qed
  qed
qed

lemma HasIntegrators_iff:
  assumes "T1 \<noteq> T2"
  shows "HasIntegrators T1 T2 a \<longleftrightarrow> (\<exists>integs. GetDBFI a = Some integs \<and> one_or_both (T1, T2) integs)"
proof (cases "GetDBFI a")
  case None then show ?thesis by (simp add: HasIntegrators_def)
next
  case (Some integs)
  have "HasIntegrators T1 T2 a \<longleftrightarrow>
        integs = [T1] \<or> integs = [T2] \<or> integs = [T1, T2] \<or> integs = [T2, T1]"
  proof (cases integs)
    case Nil then show ?thesis using Some by (simp add: HasIntegrators_def)
  next
    case (Cons x xs)
    note c1 = this
    show ?thesis
    proof (cases xs)
      case Nil with c1 Some show ?thesis by (auto simp: HasIntegrators_def)
    next
      case (Cons y ys)
      with c1 Some show ?thesis by (cases ys) (auto simp: HasIntegrators_def Let_def)
    qed
  qed
  then show ?thesis using Some one_or_both_cases[OF assms] by simp
qed

lemma HasIntegrators_pairing:
  "HasIntegrators DiffusionIntegrator MassIntegrator a \<longleftrightarrow> pairing_supported H1_FECollection (GetDBFI a)"
  "HasIntegrators CurlCurlIntegrator VectorFEMassIntegrator a \<longleftrightarrow> pairing_supported ND_FECollection (GetDBFI a)"
  "HasIntegrators DivDivIntegrator VectorFEMassIntegrator a \<longleftrightarrow> pairing_supported RT_FECollection (GetDBFI a)"
  by (cases "GetDBFI a"; simp add: HasIntegrators_iff pairing_supported_def)+

text \<open>
  Claim C8, as amended. \<^verbatim>\<open>FormIsSupported\<close> returns true exactly when the space uses a
  tensor basis and the domain integrators of the form are one or both of the pair supported
  for its collection kind (H1: Diffusion/Mass, ND: CurlCurl/VectorFEMass, RT:
  DivDiv/VectorFEMass). The static \<^verbatim>\<open>Assemble\<close> runs no assembler, and leaves the
  handle alone, exactly when the integrators are not such a pairing for the collection of
  the space it is given; it does not look at the tensor structure of the basis.
\<close>

theorem FormIsSupported_iff_and_dispatch:
  "(FormIsSupported a \<longleftrightarrow>
      UsesTensorBasis (FESpace_of a) \<and> pairing_supported (FEColl (FESpace_of a)) (GetDBFI a))
   \<and> (Assemble_static a fes_ho = None \<longleftrightarrow> \<not> pairing_supported (FEColl fes_ho) (GetDBFI a))"
proof -
  have other: "\<not> pairing_supported Other_FECollection d" for d
    by (simp add: pairing_supported_def)
  have 1: "FormIsSupported a \<longleftrightarrow>
      UsesTensorBasis (FESpace_of a) \<and> pairing_supported (FEColl (FESpace_of a)) (GetDBFI a)"
    by (cases "FEColl (FESpace_of a)")
       (simp_all add: FormIsSupported_def Let_def HasIntegrators_pairing other)
  have 2: "Assemble_static a fes_ho = None \<longleftrightarrow> \<not> pairing_supported (FEColl fes_ho) (GetDBFI a)"
    by (cases "FEColl fes_ho")
       (simp_all add: Assemble_static_def Let_def HasIntegrators_pairing other)
  from 1 2 show ?thesis by blast
qed

text \<open>
  Claim C8 as stated fails: for a diffusion form on an H1 space whose basis has no tensor
  structure the feasibility check returns false, and yet the static \<^verbatim>\<open>Assemble\<close>
  constructs and runs the H1 assembler. Keeping such forms away is left to the caller.
\<close>

theorem unsupported_form_is_assembled:
  "\<not> FormIsSupported form_nontensor
   \<and> Assemble_static form_nontensor (FESpace_of form_nontensor) = Some BatchedLOR_H1"
  by (simp add: form_nontensor_def FormIsSupported_def Assemble_static_def HasIntegrators_def)

text \<open>The amended C8 at a supported form and at a form with the mass integrator twice.\<close>

theorem FormIsSupported_witness:
  "FormIsSupported form_two \<and> Assemble_static form_two (FESpace_of form_two) \<noteq> None
   \<and> \<not> FormIsSupported (form_two\<lparr>GetDBFI := Some [MassIntegrator, MassIntegrator]\<rparr>)
   \<and> Assemble_static (form_two\<lparr>GetDBFI := Some [MassIntegrator, MassIntegrator]\<rparr>) (FESpace_of form_two) = None"
  using FormIsSupported_iff_and_dispatch [of form_two "FESpace_of form_two"]
        FormIsSupported_iff_and_dispatch [of "form_two\<lparr>GetDBFI := Some [MassIntegrator, MassIntegrator]\<rparr>" "FESpace_of form_two"]
  by (simp add: form_two_def pairing_supported_def one_or_both_def)

subsection \<open>Checked access and loops\<close>

lemma rd_eq_Inr: "rd xs i = Inr v \<longleftrightarrow> 0 \<le> i \<and> i < int (length xs) \<and> v = xs ! nat i"
  by (auto simp: rd_def)

lemma wr_eq_Inr: "wr xs i v = Inr ys \<longleftrightarrow> 0 \<le> i \<and> i < int (length xs) \<and> ys = xs[nat i := v]"
  by (auto simp: wr_def)

lemma rd_in_range: "0 \<le> i \<Longrightarrow> i < int (length xs) \<Longrightarrow> rd xs i = Inr (xs ! nat i)"
  by (simp add: rd_def)

lemma wr_in_range: "0 \<le> i \<Longrightarrow> i < int (length xs) \<Longrightarrow> wr xs i v = Inr (xs[nat i := v])"
  by (simp add: wr_def)

lemma AtomicAdd_eq_Inr:
  "AtomicAdd xs i v = Inr p \<longleftrightarrow>
     0 \<le> i \<and> i < int (length xs) \<and> p = (xs ! nat i, xs[nat i := xs ! nat i + v])"
  by (auto simp: AtomicAdd_def ebind_eq_Inr rd_eq_Inr wr_eq_Inr)

lemma efold_append: "efold f (xs @ ys) s = ebind (efold f xs s) (efold f ys)"
  by (induction xs arbitrary: s) (auto simp: ebind_def split: sum.splits)

lemma efold_succeeds:
  assumes "P s"
    and "\<And>x t. x \<in> set xs \<Longrightarrow> P t \<Longrightarrow> \<exists>t'. f x t = Inr t' \<and> P t'"
  shows "\<exists>s'. efold f xs s = Inr s' \<and> P s'"
  using assms
proof (induction xs arbitrary: s)
  case Nil then show ?case by simp
next
  case (Cons x xs)
  from Cons.prems obtain t where t: "f x s = Inr t" "P t" by force
  from Cons.IH[OF t(2)] Cons.prems(2) obtain s' where "efold f xs t = Inr s'" "P s'" by force
  with t show ?case by simp
qed

lemma efold_invariant:
  assumes "efold f xs s = Inr s'" and "P s"
    and "\<And>x t t'. x \<in> set xs \<Longrightarrow> P t \<Longrightarrow> f x t = Inr t' \<Longrightarrow> P t'"
  shows "P s'"
  using assms
proof (induction xs arbitrary: s)
  case Nil then show ?case by simp
next
  case (Cons x xs)
  from Cons.prems(1) obtain t where t: "f x s = Inr t" and r: "efold f xs t = Inr s'"
    by (auto simp: ebind_eq_Inr)
  have "P t" using Cons.prems(2,3) t by auto
  then show ?case using Cons.IH[OF r] Cons.prems(3) by auto
qed

lemma upto_as_map: "[0..n - 1] = map int [0..<nat n]"
proof (cases "0 \<le> n")
  case True
  then obtain k where n: "n = int k" using nonneg_int_cases by blast
  have "[0..int k - 1] = map int [0..<k]"
  proof (induction k)
    case 0 then show ?case by simp
  next
    case (Suc k)
    have "[0..int (Suc k) - 1] = [0..int k - 1] @ [int k]"
      using upto_rec2[of 0 "int k"] by simp
    then show ?case using Suc by simp
  qed
  then show ?thesis using n by simp
next
  case False then show ?thesis by simp
qed

subsection \<open>Signed indices\<close>

lemma nth_image_upto: "(\<lambda>i. ess ! nat i) ` set [0..int (length ess) - 1] = set ess"
proof -
  have "(\<lambda>i. ess ! nat i) ` set [0..int (length ess) - 1] = (\<lambda>i. ess ! i) ` {0..<length ess}"
    unfolding upto_as_map by (auto simp: image_image)
  then show ?thesis by (simp add: set_conv_nth[of ess] image_def Bex_def conj_commute)
qed

lemma decode_nonneg: "0 \<le> decode v"
  by (simp add: decode_def)

lemma decode_complement: "v < 0 \<Longrightarrow> decode v = NOT v"
  by (simp add: decode_def not_int_def)

lemma sgn_of_cases: "sgn_of s t = (if (0 \<le> s) = (0 \<le> t) then 1 else -1)"
  by (auto simp: sgn_of_def)

subsection \<open>Frame of the fill pass\<close>

lemma FillJAndData_frame:
  assumes "FillJAndData_sched b sched A = Inr A'"
  shows "GetI A' = GetI A \<and> Height A' = Height A \<and> Width A' = Width A"
  using assms
  by (auto simp: FillJAndData_sched_def Let_def ebind_eq_Inr split: option.splits prod.splits)

lemma SparseIJToCSR_sched_eq_Inr:
  assumes "SparseIJToCSR_sched b sched1 sched2 ui ud A0 = Inr A"
  shows "\<exists>A2 nnz. FillI_sched b sched1
                 (A0\<lparr>Height := GetVSize b, Width := GetVSize b,
                      GetI := New (GetVSize b + 1) ui\<rparr>) = Inr (A2, nnz)
      \<and> FillJAndData_sched b sched2 (A2\<lparr>GetJ := New nnz ui, GetData := New nnz ud\<rparr>) = Inr A"
  using assms by (auto simp: SparseIJToCSR_sched_def Let_def ebind_eq_Inr)


subsection \<open>The counters and the scan\<close>

lemma zero_loop:
  "efold (\<lambda>ii I. wr I ii (0::int)) (map int [0..<k]) I = Inr I'
     \<Longrightarrow> k \<le> length I \<and> I' = replicate k 0 @ drop k I"
proof (induction k arbitrary: I')
  case 0 then show ?case by simp
next
  case (Suc k)
  from Suc.prems obtain I1 where
    1: "efold (\<lambda>ii I. wr I ii (0::int)) (map int [0..<k]) I = Inr I1"
    and 2: "wr I1 (int k) 0 = Inr I'"
    by (auto simp: efold_append ebind_eq_Inr)
  from Suc.IH[OF 1] have k: "k \<le> length I" and I1: "I1 = replicate k 0 @ drop k I" by auto
  from 2 have lt: "k < length I1" and I': "I' = I1[k := 0]" by (auto simp: wr_eq_Inr)
  from lt I1 k have lt': "k < length I" by simp
  have "I' = replicate (Suc k) 0 @ drop (Suc k) I"
    unfolding I' I1 using lt'
    by (simp add: list_update_append replicate_append_same upd_conv_take_nth_drop
        flip: Cons_nth_drop_Suc)
  then show ?case using lt' by simp
qed

lemma scan_loop:
  "efold scan_step (map int [0..<k]) (h, 0) = Inr (h', s)
     \<Longrightarrow> k \<le> length h \<and> s = sum_list (take k h)
         \<and> h' = map (\<lambda>i. sum_list (take i h)) [0..<k] @ drop k h"
proof (induction k arbitrary: h' s)
  case 0 then show ?case by simp
next
  case (Suc k)
  from Suc.prems obtain h1 s1 where
    1: "efold scan_step (map int [0..<k]) (h, 0) = Inr (h1, s1)"
    and 2: "scan_step (int k) (h1, s1) = Inr (h', s)"
    by (auto simp: efold_append ebind_eq_Inr)
  from Suc.IH[OF 1] have k: "k \<le> length h" and s1: "s1 = sum_list (take k h)"
    and h1: "h1 = map (\<lambda>i. sum_list (take i h)) [0..<k] @ drop k h" by auto
  from 2 have lt: "k < length h1" and s: "s = s1 + h1 ! k" and h': "h' = h1[k := s1]"
    by (auto simp: scan_step_def ebind_eq_Inr rd_eq_Inr wr_eq_Inr)
  from lt h1 k have lt': "k < length h" by simp
  have nth: "h1 ! k = h ! k" unfolding h1 using lt' by (simp add: nth_append)
  have "s = sum_list (take (Suc k) h)"
    using s s1 nth lt' by (simp add: take_Suc_conv_app_nth)
  moreover have "h' = map (\<lambda>i. sum_list (take i h)) [0..<Suc k] @ drop (Suc k) h"
    unfolding h' h1 using lt' s1
    by (simp add: list_update_append upd_conv_take_nth_drop flip: Cons_nth_drop_Suc)
  ultimately show ?case using lt' by simp
qed

lemma FillI_j_cases:
  "FillI_j b r ii ii_el iel_ho i_ne i_elts j I = Inr I'
     \<Longrightarrow> I' = I \<or> (0 \<le> ii \<and> ii < int (length I) \<and> I' = I[nat ii := I ! nat ii + 1])"
  unfolding FillI_j_def Let_def
  by (auto simp: ebind_eq_Inr AtomicAdd_eq_Inr split: if_splits)

lemma FillI_j_counters_ok:
  "FillI_j b r ii ii_el iel_ho i_ne i_elts j I = Inr I' \<Longrightarrow> counters_ok n I \<Longrightarrow> counters_ok n I'"
proof -
  assume a: "FillI_j b r ii ii_el iel_ho i_ne i_elts j I = Inr I'" and ok: "counters_ok n I"
  from FillI_j_cases[OF a] show ?thesis
  proof
    assume "I' = I" with ok show ?thesis by simp
  next
    assume c: "0 \<le> ii \<and> ii < int (length I) \<and> I' = I[nat ii := I ! nat ii + 1]"
    then have "nat ii < length I" by linarith
    then have "0 \<le> I ! nat ii" using ok by (simp add: counters_ok_def)
    then have "\<forall>x \<in> set (I[nat ii := I ! nat ii + 1]). 0 \<le> x"
      using ok set_update_subset_insert[of I "nat ii" "I ! nat ii + 1"]
      by (auto simp: counters_ok_def)
    then show ?thesis using c ok by (simp add: counters_ok_def)
  qed
qed

lemma FillI_row_counters_ok:
  "FillI_row b r i I = Inr I' \<Longrightarrow> counters_ok n I \<Longrightarrow> counters_ok n I'"
  unfolding FillI_row_def Let_def
  by (auto simp: ebind_eq_Inr elim!: efold_invariant[where P = "counters_ok n"]
           intro: FillI_j_counters_ok)

lemma count_pass_counters_ok:
  assumes "count_pass b r sched I = Inr cnt" and "length I = nat (GetVSize b + 1)"
  shows "counters_ok (nat (GetVSize b + 1)) cnt"
proof -
  from assms(1) obtain I0 where
    z: "efold (\<lambda>ii I. wr I ii (0::int)) [0..GetVSize b] I = Inr I0"
    and c: "efold (FillI_row b r) sched I0 = Inr cnt"
    by (auto simp: count_pass_def ebind_eq_Inr)
  have "[0..GetVSize b] = map int [0..<nat (GetVSize b + 1)]"
    using upto_as_map[of "GetVSize b + 1"] by simp
  with z zero_loop[of "nat (GetVSize b + 1)" I I0] assms(2)
  have "I0 = replicate (nat (GetVSize b + 1)) 0" by simp
  then have "counters_ok (nat (GetVSize b + 1)) I0" by (simp add: counters_ok_def)
  with c show ?thesis
    by (rule efold_invariant) (auto intro: FillI_row_counters_ok)
qed


lemma FillJ_j_cases:
  assumes "FillJ_j b r sii ii ii_el iel_ho i_ne i_elts i_B j (I, J, AV) = Inr (I', J', AV')"
  shows "(I', J', AV') = (I, J, AV) \<or>
     (\<exists>jj v. 0 \<le> ii \<and> ii < int (length I) \<and> 0 \<le> I ! nat ii \<and> I ! nat ii < int (length J)
        \<and> I ! nat ii < int (length AV)
        \<and> I' = I[nat ii := I ! nat ii + 1] \<and> J' = J[nat (I ! nat ii) := jj]
        \<and> AV' = AV[nat (I ! nat ii) := v])"
  using assms unfolding FillJ_j_def Let_def GetAndIncrementNnzIndex_def
  by (auto simp: ebind_eq_Inr AtomicAdd_eq_Inr wr_eq_Inr split: if_splits prod.splits)

lemma FillJ_j_lengths:
  assumes "FillJ_j b r sii ii ii_el iel_ho i_ne i_elts i_B j s = Inr s'"
  shows "length (fst s') = length (fst s) \<and> length (fst (snd s')) = length (fst (snd s))
     \<and> length (snd (snd s')) = length (snd (snd s))"
proof -
  obtain I J AV where s: "s = (I, J, AV)" by (cases s) auto
  obtain I' J' AV' where s': "s' = (I', J', AV')" by (cases s') auto
  from FillJ_j_cases[OF assms[unfolded s s']] show ?thesis unfolding s s' by auto
qed

lemma FillJ_row_lengths:
  assumes "FillJ_row b r i s = Inr s'"
  shows "length (fst s') = length (fst s) \<and> length (fst (snd s')) = length (fst (snd s))
     \<and> length (snd (snd s')) = length (snd (snd s))"
proof -
  from assms obtain sii ii_el iel_ho i_ne i_elts i_B where
    e: "efold (FillJ_j b r sii (decode sii) ii_el iel_ho i_ne i_elts i_B)
          [0..sparse_mapping_Height b - 1] s = Inr s'"
    unfolding FillJ_row_def Let_def by (auto simp: ebind_eq_Inr split: prod.splits)
  show ?thesis
    by (rule efold_invariant[OF e, where P = "\<lambda>t. length (fst t) = length (fst s)
          \<and> length (fst (snd t)) = length (fst (snd s))
          \<and> length (snd (snd t)) = length (snd (snd s))"])
       (auto dest: FillJ_j_lengths)
qed

lemma FillJAndData_lengths:
  assumes "FillJAndData_sched b sched A = Inr A'"
  shows "length (GetJ A') = length (GetJ A) \<and> length (GetData A') = length (GetData A)"
proof -
  from assms obtain r I s' where
    e: "efold (FillJ_row b r) sched (I, GetJ A, GetData A) = Inr s'"
    and A': "A' = A\<lparr>GetJ := fst (snd s'), GetData := snd (snd s')\<rparr>"
    unfolding FillJAndData_sched_def Let_def
    by (auto simp: ebind_eq_Inr split: option.splits prod.splits)
  have "length (fst (snd s')) = length (GetJ A) \<and> length (snd (snd s')) = length (GetData A)"
    by (rule efold_invariant[OF e, where P = "\<lambda>t. length (fst (snd t)) = length (GetJ A)
          \<and> length (snd (snd t)) = length (GetData A)"])
       (auto dest: FillJ_row_lengths)
  then show ?thesis using A' by simp
qed

lemma sum_list_take_mono:
  assumes "\<forall>x \<in> set cnt. (0::int) \<le> x"
  shows "sum_list (take i cnt) \<le> sum_list (take (Suc i) cnt)"
proof (cases "i < length cnt")
  case True
  then have "0 \<le> cnt ! i" using assms by simp
  then show ?thesis using True by (simp add: take_Suc_conv_app_nth)
next
  case False then show ?thesis by simp
qed

lemma FillI_sched_result:
  assumes "FillI_sched b sched A = Inr (A', nnz)"
  shows "\<exists>r cnt. GetElementRestriction b = Some r \<and> count_pass b r sched (GetI A) = Inr cnt
     \<and> 0 \<le> GetVSize b \<and> nat (GetVSize b) < length cnt
     \<and> GetI A' = prefix_sums cnt (nat (GetVSize b)) @ drop (Suc (nat (GetVSize b))) cnt
     \<and> nnz = sum_list (take (nat (GetVSize b)) cnt)
     \<and> A' = A\<lparr>GetI := GetI A'\<rparr>"
proof -
  let ?n = "GetVSize b"
  from assms obtain r cnt h s h' where
    r: "GetElementRestriction b = Some r"
    and c: "count_pass b r sched (GetI A) = Inr cnt"
    and sc: "efold scan_step [0..?n - 1] (cnt, 0) = Inr (h, s)"
    and w: "wr h ?n s = Inr h'"
    and rdn: "rd h' ?n = Inr nnz"
    and A': "A' = A\<lparr>GetI := h'\<rparr>"
    unfolding FillI_sched_def Let_def
    by (auto simp: ebind_eq_Inr split: option.splits prod.splits)
  from sc have sc': "efold scan_step (map int [0..<nat ?n]) (cnt, 0) = Inr (h, s)"
    by (simp add: upto_as_map)
  from scan_loop[OF sc'] have k: "nat ?n \<le> length cnt" and s: "s = sum_list (take (nat ?n) cnt)"
    and h: "h = map (\<lambda>i. sum_list (take i cnt)) [0..<nat ?n] @ drop (nat ?n) cnt" by auto
  from w have n0: "0 \<le> ?n" and lt: "nat ?n < length h" and h': "h' = h[nat ?n := s]"
    by (auto simp: wr_eq_Inr)
  from lt h k have lt': "nat ?n < length cnt" by simp
  have "h' = prefix_sums cnt (nat ?n) @ drop (Suc (nat ?n)) cnt"
    unfolding h' h prefix_sums_def using lt' s
    by (simp add: list_update_append upd_conv_take_nth_drop flip: Cons_nth_drop_Suc)
  moreover have "nnz = s" using rdn h' lt by (auto simp: rd_eq_Inr)
  ultimately show ?thesis using r c n0 lt' s A' by simp
qed


text \<open>
  Claim C3. In every matrix that \<^verbatim>\<open>SparseIJToCSR\<close> delivers, in whatever order the
  iterations of the two passes ran, \<^verbatim>\<open>I\<close> is the exclusive prefix sum of the per-row
  counters: it starts at 0, never decreases, and its last entry \<^verbatim>\<open>I[nvdof]\<close> is the
  length of \<^verbatim>\<open>J\<close> and of \<^verbatim>\<open>Data\<close> and the value that \<^verbatim>\<open>FillI\<close> returned.
\<close>

theorem CSR_offsets_invariant:
  assumes "SparseIJToCSR_sched b sched1 sched2 ui ud A0 = Inr A"
  shows "\<exists>r cnt nnz A2.
      GetElementRestriction b = Some r
    \<and> count_pass b r sched1 (New (GetVSize b + 1) ui) = Inr cnt
    \<and> FillI_sched b sched1 (A0\<lparr>Height := GetVSize b, Width := GetVSize b,
          GetI := New (GetVSize b + 1) ui\<rparr>) = Inr (A2, nnz)
    \<and> GetI A = prefix_sums cnt (nat (GetVSize b))
    \<and> length (GetI A) = nat (GetVSize b) + 1
    \<and> GetI A ! 0 = 0
    \<and> (\<forall>i < nat (GetVSize b). GetI A ! i \<le> GetI A ! Suc i)
    \<and> GetI A ! nat (GetVSize b) = int (length (GetJ A))
    \<and> length (GetData A) = length (GetJ A)
    \<and> nnz = GetI A ! nat (GetVSize b)"
proof -
  let ?n = "nat (GetVSize b)"
  let ?A1 = "A0\<lparr>Height := GetVSize b, Width := GetVSize b, GetI := New (GetVSize b + 1) ui\<rparr>"
  from SparseIJToCSR_sched_eq_Inr[OF assms] obtain A2 nnz where
    f: "FillI_sched b sched1 ?A1 = Inr (A2, nnz)"
    and g: "FillJAndData_sched b sched2 (A2\<lparr>GetJ := New nnz ui, GetData := New nnz ud\<rparr>) = Inr A"
    by blast
  from FillI_sched_result[OF f] obtain r cnt where
    r: "GetElementRestriction b = Some r"
    and c: "count_pass b r sched1 (New (GetVSize b + 1) ui) = Inr cnt"
    and n0: "0 \<le> GetVSize b"
    and I2: "GetI A2 = prefix_sums cnt ?n @ drop (Suc ?n) cnt"
    and nnz: "nnz = sum_list (take ?n cnt)"
    by auto
  have "length (New (GetVSize b + 1) ui) = nat (GetVSize b + 1)" by (simp add: New_def)
  from count_pass_counters_ok[OF c this]
  have len: "length cnt = Suc ?n" and pos: "\<forall>x \<in> set cnt. 0 \<le> x"
    using n0 by (auto simp: counters_ok_def nat_add_distrib)
  have IA: "GetI A = prefix_sums cnt ?n"
    using FillJAndData_frame[OF g] I2 len by simp
  have nth: "GetI A ! i = sum_list (take i cnt)" if "i \<le> ?n" for i
    unfolding IA prefix_sums_def using that by (simp del: upt_Suc)
  have mono: "\<forall>i < ?n. GetI A ! i \<le> GetI A ! Suc i"
    using nth sum_list_take_mono[OF pos] by simp
  have "0 \<le> sum_list (take ?n cnt)"
    using pos by (intro sum_list_nonneg) (auto dest: in_set_takeD)
  then have nn: "0 \<le> nnz" using nnz by simp
  from FillJAndData_lengths[OF g]
  have lens: "length (GetJ A) = nat nnz" "length (GetData A) = nat nnz" by (simp_all add: New_def)
  show ?thesis
    using r c f IA nth[of 0] nth[of ?n] mono lens nn nnz
    by (auto simp: prefix_sums_def)
qed

theorem CSR_offsets_invariant_witness:
  "SparseIJToCSR ex_lor (\<lambda>_. 0) (\<lambda>_. 0) ex_empty
     = Inr \<lparr>Height = 3, Width = 3, GetI = [0, 2, 5, 7],
         GetJ = [0, 1, 0, 1, 2, 1, 2], GetData = [10, 20, 30, 5, - 60, - 70, 80]\<rparr>
   \<and> (\<exists>cnt nnz A2. count_pass ex_lor ex_restr [0..3] (New 4 (\<lambda>_. 0)) = Inr cnt
        \<and> FillI ex_lor (ex_empty\<lparr>Height := 3, Width := 3, GetI := New 4 (\<lambda>_. 0)\<rparr>) = Inr (A2, nnz)
        \<and> [0, 2, 5, 7] = prefix_sums cnt 3 \<and> nnz = 7)"
proof -
  have e: "SparseIJToCSR_sched ex_lor [0..GetDof ex_lor * GetNE ex_lor - 1]
       [0..GetDof ex_lor * GetNE ex_lor - 1] (\<lambda>_. 0) (\<lambda>_. 0) ex_empty
     = Inr \<lparr>Height = 3, Width = 3, GetI = [0, 2, 5, 7],
         GetJ = [0, 1, 0, 1, 2, 1, 2], GetData = [10, 20, 30, 5, - 60, - 70, 80]\<rparr>"
    by code_simp
  have v: "GetVSize ex_lor = 3" "GetDof ex_lor * GetNE ex_lor - 1 = 3"
    "GetElementRestriction ex_lor = Some ex_restr"
    by (simp_all add: ex_lor_def)
  from CSR_offsets_invariant[OF e] e show ?thesis
    unfolding SparseIJToCSR_def FillI_def v by auto
qed

subsection \<open>The fill pass leaves the offsets alone\<close>

text \<open>
  Claim C10. The fill pass does not modify the row offsets of the matrix: the cursor
  increments go to the private copy \<^verbatim>\<open>I_\<close>, so \<^verbatim>\<open>A.I\<close> (and the dimensions) are
  after \<^verbatim>\<open>FillJAndData\<close> what they were before, in whatever order the iterations run;
  and the matrix that \<^verbatim>\<open>SparseIJToCSR\<close> delivers has exactly the offsets that the
  row-count pass computed.
\<close>

theorem FillJAndData_keeps_I:
  "(FillJAndData_sched b sched A = Inr A'
      \<longrightarrow> GetI A' = GetI A \<and> Height A' = Height A \<and> Width A' = Width A)
   \<and> (SparseIJToCSR_sched b sched1 sched2 ui ud A0 = Inr A''
      \<longrightarrow> (\<exists>A2 nnz. FillI_sched b sched1
                 (A0\<lparr>Height := GetVSize b, Width := GetVSize b,
                      GetI := New (GetVSize b + 1) ui\<rparr>) = Inr (A2, nnz)
             \<and> GetI A'' = GetI A2))"
proof -
  have 1: "GetI A' = GetI A \<and> Height A' = Height A \<and> Width A' = Width A"
    if "FillJAndData_sched b sched A = Inr A'"
    using FillJAndData_frame[OF that] .
  have 2: "\<exists>A2 nnz. FillI_sched b sched1
                 (A0\<lparr>Height := GetVSize b, Width := GetVSize b,
                      GetI := New (GetVSize b + 1) ui\<rparr>) = Inr (A2, nnz)
             \<and> GetI A'' = GetI A2"
    if "SparseIJToCSR_sched b sched1 sched2 ui ud A0 = Inr A''"
  proof -
    from SparseIJToCSR_sched_eq_Inr[OF that] obtain A2 nnz where
      f: "FillI_sched b sched1 (A0\<lparr>Height := GetVSize b, Width := GetVSize b,
            GetI := New (GetVSize b + 1) ui\<rparr>) = Inr (A2, nnz)"
      and g: "FillJAndData_sched b sched2 (A2\<lparr>GetJ := New nnz ui, GetData := New nnz ud\<rparr>) = Inr A''"
      by blast
    from FillJAndData_frame[OF g] f show ?thesis by simp
  qed
  from 1 2 show ?thesis by blast
qed

theorem FillJAndData_keeps_I_witness:
  "FillJAndData ex_lor \<lparr>Height = 3, Width = 3, GetI = [0, 2, 5, 7],
       GetJ = [9, 9, 9, 9, 9, 9, 9], GetData = [0, 0, 0, 0, 0, 0, 0]\<rparr>
     = Inr \<lparr>Height = 3, Width = 3, GetI = [0, 2, 5, 7],
         GetJ = [0, 1, 0, 1, 2, 1, 2], GetData = [10, 20, 30, 5, - 60, - 70, 80]\<rparr>
   \<and> SparseIJToCSR ex_lor (\<lambda>_. 0) (\<lambda>_. 0) ex_empty
     = Inr \<lparr>Height = 3, Width = 3, GetI = [0, 2, 5, 7],
         GetJ = [0, 1, 0, 1, 2, 1, 2], GetData = [10, 20, 30, 5, - 60, - 70, 80]\<rparr>
   \<and> FillI ex_lor (ex_empty\<lparr>Height := 3, Width := 3, GetI := New 4 (\<lambda>_. 0)\<rparr>)
     = Inr (\<lparr>Height = 3, Width = 3, GetI = [0, 2, 5, 7], GetJ = [], GetData = []\<rparr>, 7)"
proof -
  have a: "FillJAndData ex_lor \<lparr>Height = 3, Width = 3, GetI = [0, 2, 5, 7],
       GetJ = [9, 9, 9, 9, 9, 9, 9], GetData = [0, 0, 0, 0, 0, 0, 0]\<rparr>
     = Inr \<lparr>Height = 3, Width = 3, GetI = [0, 2, 5, 7],
         GetJ = [0, 1, 0, 1, 2, 1, 2], GetData = [10, 20, 30, 5, - 60, - 70, 80]\<rparr>"
    by code_simp
  have b: "SparseIJToCSR ex_lor (\<lambda>_. 0) (\<lambda>_. 0) ex_empty
     = Inr \<lparr>Height = 3, Width = 3, GetI = [0, 2, 5, 7],
         GetJ = [0, 1, 0, 1, 2, 1, 2], GetData = [10, 20, 30, 5, - 60, - 70, 80]\<rparr>"
    by code_simp
  have c: "FillI ex_lor (ex_empty\<lparr>Height := 3, Width := 3, GetI := New 4 (\<lambda>_. 0)\<rparr>)
     = Inr (\<lparr>Height = 3, Width = 3, GetI = [0, 2, 5, 7], GetJ = [], GetData = []\<rparr>, 7)"
    by code_simp
  note t = FillJAndData_keeps_I [of ex_lor "[0..GetDof ex_lor * GetNE ex_lor - 1]"
     "\<lparr>Height = 3, Width = 3, GetI = [0, 2, 5, 7],
       GetJ = [9, 9, 9, 9, 9, 9, 9], GetData = [0, 0, 0, 0, 0, 0, 0]\<rparr>"
     "\<lparr>Height = 3, Width = 3, GetI = [0, 2, 5, 7],
         GetJ = [0, 1, 0, 1, 2, 1, 2], GetData = [10, 20, 30, 5, - 60, - 70, 80]\<rparr>"]
  from a b c t show ?thesis by simp
qed

subsection \<open>The stack buffers\<close>

lemma ebind_eq_Inl: "ebind m f = Inl e \<longleftrightarrow> m = Inl e \<or> (\<exists>x. m = Inr x \<and> f x = Inl e)"
  by (cases m) simp_all

lemma efold_Inl:
  "efold f xs s = Inl e \<Longrightarrow> \<exists>x \<in> set xs. \<exists>t. f x t = Inl e"
  by (induction xs arbitrary: s) (auto simp: ebind_eq_Inl)

lemma rd_not_overrun [simp]: "rd xs i \<noteq> Inl LocalBufferOverrun"
  by (simp add: rd_def)

lemma wr_not_overrun [simp]: "wr xs i v \<noteq> Inl LocalBufferOverrun"
  by (simp add: wr_def)

lemma rd2_not_overrun [simp]: "rd2 xs n1 n2 a c \<noteq> Inl LocalBufferOverrun"
  by (simp add: rd2_def)

lemma rd3_not_overrun [simp]: "rd3 xs n1 n2 n3 a c e \<noteq> Inl LocalBufferOverrun"
  by (simp add: rd3_def)

lemma AtomicAdd_not_overrun [simp]: "AtomicAdd xs i v \<noteq> Inl LocalBufferOverrun"
  by (simp add: AtomicAdd_def ebind_eq_Inl)

lemma find_nonzero_not_overrun [simp]:
  "find_nonzero b a c ms \<noteq> Inl LocalBufferOverrun"
  by (induction ms) (auto simp: ebind_eq_Inl map_at_def)

lemma rdb_in_bounds:
  "0 \<le> e \<Longrightarrow> e < int (length buf) \<Longrightarrow> rdb buf e = Inr (buf ! nat e)"
  by (simp add: rdb_def)

lemma rdb_eq_Inl:
  "rdb buf e = Inl x \<longleftrightarrow> x = LocalBufferOverrun \<and> \<not> (0 \<le> e \<and> e < int (length buf))"
  by (auto simp: rdb_def)

lemma GetMinElt_find_not_overrun:
  assumes "\<forall>j \<in> set js. 0 \<le> j \<and> j < int (length nbr)"
  shows "GetMinElt_find e nbr js \<noteq> Inl LocalBufferOverrun"
  using assms by (induction js) (simp_all add: ebind_eq_Inl rdb_in_bounds)

lemma GetMinElt_not_overrun:
  assumes "n \<le> int (length my)" and "m \<le> int (length nbr)"
  shows "GetMinElt my n nbr m \<noteq> Inl LocalBufferOverrun"
proof
  assume "GetMinElt my n nbr m = Inl LocalBufferOverrun"
  then obtain i t where i: "i \<in> set [0..n - 1]"
    and f: "GetMinElt_step my nbr m i t = Inl LocalBufferOverrun"
    unfolding GetMinElt_def using efold_Inl by fastforce
  from i assms(1) have r: "rdb my i = Inr (my ! nat i)" by (simp add: rdb_in_bounds)
  have "GetMinElt_find (my ! nat i) nbr [0..m - 1] \<noteq> Inl LocalBufferOverrun"
    by (rule GetMinElt_find_not_overrun) (use assms(2) in auto)
  with f r show False
    unfolding GetMinElt_step_def by (auto simp: ebind_eq_Inl split: if_splits)
qed

lemma accum_l_not_overrun:
  assumes "0 \<le> l" and "l < int (length j_elts)" and "l < int (length j_B)"
  shows "accum_l b e s a j_elts j_B l val \<noteq> Inl LocalBufferOverrun"
  unfolding accum_l_def Let_def using assms
  by (auto simp: ebind_eq_Inl rdb_in_bounds V_def split: if_splits)

lemma accum_not_overrun:
  assumes "i_ne \<le> int (length i_elts)" and "i_ne \<le> int (length i_B)"
    and "j_ne \<le> int (length j_elts)" and "j_ne \<le> int (length j_B)"
  shows "efold (accum_k b i_elts i_B j_ne j_elts j_B) [0..i_ne - 1] val \<noteq> Inl LocalBufferOverrun"
proof
  assume "efold (accum_k b i_elts i_B j_ne j_elts j_B) [0..i_ne - 1] val = Inl LocalBufferOverrun"
  then obtain k t where k: "k \<in> set [0..i_ne - 1]"
    and f: "accum_k b i_elts i_B j_ne j_elts j_B k t = Inl LocalBufferOverrun"
    using efold_Inl by fastforce
  from k assms(1,2) have r: "rdb i_elts k = Inr (i_elts ! nat k)" "rdb i_B k = Inr (i_B ! nat k)"
    by (simp_all add: rdb_in_bounds)
  from f obtain l u where l: "l \<in> set [0..j_ne - 1]"
    and "accum_l b (i_elts ! nat k) (i_B ! nat k) (decode (i_B ! nat k)) j_elts j_B l u
       = Inl LocalBufferOverrun"
    unfolding accum_k_def Let_def r using efold_Inl by fastforce
  moreover from l assms(3,4) have "0 \<le> l" "l < int (length j_elts)" "l < int (length j_B)"
    by simp_all
  ultimately show False using accum_l_not_overrun by blast
qed

lemma FillI_elts_overrun:
  assumes "FillI_elts b r offset n = Inl LocalBufferOverrun"
  shows "Max16 < n"
proof -
  from assms obtain e t where e: "e \<in> set [0..n - 1]"
    and "FillI_elts_step b r offset e t = Inl LocalBufferOverrun"
    unfolding FillI_elts_def using efold_Inl by fastforce
  then have "\<not> e < Max16"
    unfolding FillI_elts_step_def Let_def by (auto simp: ebind_eq_Inl split: if_splits)
  with e show ?thesis by simp
qed

lemma FillJ_elts_overrun:
  assumes "FillJ_elts b r offset n = Inl LocalBufferOverrun"
  shows "Max16 < n"
proof -
  from assms obtain e t where e: "e \<in> set [0..n - 1]"
    and "FillJ_elts_step b r offset e t = Inl LocalBufferOverrun"
    unfolding FillJ_elts_def using efold_Inl by fastforce
  then have "\<not> e < Max16"
    unfolding FillJ_elts_step_def Let_def
    by (auto simp: ebind_eq_Inl split: if_splits prod.splits)
  with e show ?thesis by simp
qed

lemma degree_okD:
  assumes "degree_ok r" and "rd (Offsets r) d = Inr lo" and "rd (Offsets r) (d + 1) = Inr hi"
  shows "hi - lo \<le> Max16"
proof -
  from assms(2,3) have "0 \<le> d" "d + 1 < int (length (Offsets r))"
    and eq: "lo = Offsets r ! nat d" "hi = Offsets r ! nat (d + 1)"
    by (auto simp: rd_eq_Inr)
  then have "d \<in> set [0..int (length (Offsets r)) - 2]" by simp
  from assms(1)[unfolded degree_ok_def, rule_format, OF this] eq show ?thesis by simp
qed

lemma degree_okE:
  assumes "degree_ok r" and "rd (Offsets r) d = Inr lo" and "rd (Offsets r) (d + 1) = Inr hi"
    and "Max16 < hi - lo"
  shows False
  using degree_okD[OF assms(1-3)] assms(4) by simp

lemma elts_loops_bound:
  "(FillI_elts b r offset n = Inr elts \<longrightarrow> n \<le> Max16)
   \<and> (FillJ_elts b r offset n = Inr eB \<longrightarrow> n \<le> Max16)"
proof -
  have split: "[0..n - 1] = [0..Max16 - 1] @ Max16 # [Max16 + 1..n - 1]" if "Max16 < n"
    using that upto_split3[of 0 Max16 "n - 1"] by (simp add: Max16_def)
  have 1: "n \<le> Max16" if "FillI_elts b r offset n = Inr elts"
  proof (rule ccontr)
    assume "\<not> n \<le> Max16"
    then have "Max16 < n" by simp
    from that[unfolded FillI_elts_def split[OF this] efold_append]
    obtain t t' where "FillI_elts_step b r offset Max16 t = Inr t'"
      by (auto simp: ebind_eq_Inr)
    then show False
      unfolding FillI_elts_step_def Let_def by (auto simp: ebind_eq_Inr)
  qed
  have 2: "n \<le> Max16" if "FillJ_elts b r offset n = Inr eB"
  proof (rule ccontr)
    assume "\<not> n \<le> Max16"
    then have "Max16 < n" by simp
    from that[unfolded FillJ_elts_def split[OF this] efold_append]
    obtain t t' where "FillJ_elts_step b r offset Max16 t = Inr t'"
      by (auto simp: ebind_eq_Inr)
    then show False
      unfolding FillJ_elts_step_def Let_def by (auto simp: ebind_eq_Inr split: prod.splits)
  qed
  from 1 2 show ?thesis by blast
qed

lemma length_FillI_elts:
  assumes "FillI_elts b r offset n = Inr elts"
  shows "length elts = nat Max16"
  by (rule efold_invariant[OF assms[unfolded FillI_elts_def],
        where P = "\<lambda>t. length t = nat Max16"])
     (auto simp: FillI_elts_step_def Let_def ebind_eq_Inr split: if_splits)

lemma length_FillJ_elts:
  assumes "FillJ_elts b r offset n = Inr (elts, B)"
  shows "length elts = nat Max16 \<and> length B = nat Max16"
proof -
  have "length (fst (elts, B)) = nat Max16 \<and> length (snd (elts, B)) = nat Max16"
    by (rule efold_invariant[OF assms[unfolded FillJ_elts_def],
          where P = "\<lambda>t. length (fst t) = nat Max16 \<and> length (snd t) = nat Max16"])
       (auto simp: FillJ_elts_step_def Let_def ebind_eq_Inr split: if_splits prod.splits)
  then show ?thesis by simp
qed

text \<open>A filling loop that returns has filled no more cells than its buffer has.\<close>

lemma FillI_elts_fits:
  assumes "FillI_elts b r offset n = Inr elts"
  shows "n \<le> int (length elts)"
  using elts_loops_bound[of b r offset n elts] length_FillI_elts[OF assms] assms
  by (simp add: Max16_def)

lemma FillJ_elts_fits:
  assumes "FillJ_elts b r offset n = Inr (elts, B)"
  shows "n \<le> int (length elts) \<and> n \<le> int (length B)"
  using elts_loops_bound[of b r offset n _ "(elts, B)"] length_FillJ_elts[OF assms] assms
  by (simp add: Max16_def)

lemma FillI_j_not_overrun:
  assumes dg: "degree_ok r" and fits: "i_ne \<le> int (length i_elts)"
  shows "FillI_j b r ii ii_el iel_ho i_ne i_elts j I \<noteq> Inl LocalBufferOverrun"
proof
  assume a: "FillI_j b r ii ii_el iel_ho i_ne i_elts j I = Inl LocalBufferOverrun"
  have gm: "GetMinElt i_elts i_ne j_elts j_ne \<noteq> Inl LocalBufferOverrun"
    if "FillI_elts b r off j_ne = Inr j_elts" for off j_ne j_elts
    by (rule GetMinElt_not_overrun[OF fits FillI_elts_fits[OF that]])
  from a show False
    unfolding FillI_j_def Let_def
    by (auto simp: ebind_eq_Inl map_at_def el_dof_lex_def split: if_splits
        dest!: FillI_elts_overrun dest: degree_okE[OF dg] gm)
qed

lemma FillI_row_not_overrun:
  assumes "degree_ok r"
  shows "FillI_row b r i I \<noteq> Inl LocalBufferOverrun"
proof
  assume a: "FillI_row b r i I = Inl LocalBufferOverrun"
  have j: "FillI_j b r ii ii_el iel_ho i_ne i_elts j I' \<noteq> Inl LocalBufferOverrun"
    if "FillI_elts b r off i_ne = Inr i_elts" for ii ii_el iel_ho off i_ne i_elts j I'
    by (rule FillI_j_not_overrun[OF assms FillI_elts_fits[OF that]])
  from a show False
    unfolding FillI_row_def Let_def
    by (auto simp: ebind_eq_Inl el_dof_lex_def dest!: FillI_elts_overrun efold_Inl
        dest: degree_okE[OF assms] j)
qed

lemma FillJ_j_not_overrun:
  assumes dg: "degree_ok r"
    and fits: "i_ne \<le> int (length i_elts)" "i_ne \<le> int (length i_B)"
  shows "FillJ_j b r sii ii ii_el iel_ho i_ne i_elts i_B j s \<noteq> Inl LocalBufferOverrun"
proof
  obtain I J AV where s: "s = (I, J, AV)" by (cases s) auto
  assume a: "FillJ_j b r sii ii ii_el iel_ho i_ne i_elts i_B j s = Inl LocalBufferOverrun"
  have gm: "GetMinElt i_elts i_ne j_elts j_ne \<noteq> Inl LocalBufferOverrun"
    if "FillJ_elts b r off j_ne = Inr (j_elts, j_B)" for off j_ne j_elts j_B
    by (rule GetMinElt_not_overrun[OF fits(1) FillJ_elts_fits[OF that, THEN conjunct1]])
  have ac: "efold (accum_k b i_elts i_B j_ne j_elts j_B) [0..i_ne - 1] v \<noteq> Inl LocalBufferOverrun"
    if "FillJ_elts b r off j_ne = Inr (j_elts, j_B)" for off j_ne j_elts j_B v
    using FillJ_elts_fits[OF that] by (intro accum_not_overrun fits) simp_all
  from a show False
    unfolding FillJ_j_def Let_def s GetAndIncrementNnzIndex_def
    by (auto simp: ebind_eq_Inl map_at_def el_dof_lex_def V_def
        split: if_splits prod.splits dest!: FillJ_elts_overrun dest: degree_okE[OF dg] gm ac)
qed

lemma FillJ_row_not_overrun:
  assumes "degree_ok r"
  shows "FillJ_row b r i s \<noteq> Inl LocalBufferOverrun"
proof
  assume a: "FillJ_row b r i s = Inl LocalBufferOverrun"
  have j: "FillJ_j b r sii ii ii_el iel_ho i_ne i_elts i_B j s' \<noteq> Inl LocalBufferOverrun"
    if "FillJ_elts b r off i_ne = Inr (i_elts, i_B)" for sii ii ii_el iel_ho off i_ne i_elts i_B j s'
    using FillJ_elts_fits[OF that] by (intro FillJ_j_not_overrun assms) simp_all
  from a show False
    unfolding FillJ_row_def Let_def
    by (auto simp: ebind_eq_Inl el_dof_lex_def split: prod.splits
        dest!: FillJ_elts_overrun efold_Inl dest: degree_okE[OF assms] j)
qed

lemma FillI_sched_not_overrun:
  assumes "GetElementRestriction b = Some r" and "degree_ok r"
  shows "FillI_sched b sched A \<noteq> Inl LocalBufferOverrun"
proof
  assume "FillI_sched b sched A = Inl LocalBufferOverrun"
  then show False
    unfolding FillI_sched_def Let_def count_pass_def using assms(1) FillI_row_not_overrun[OF assms(2)]
    by (auto simp: ebind_eq_Inl scan_step_def split: prod.splits dest!: efold_Inl)
qed

lemma FillJAndData_sched_not_overrun:
  assumes "GetElementRestriction b = Some r" and "degree_ok r"
  shows "FillJAndData_sched b sched A \<noteq> Inl LocalBufferOverrun"
proof
  assume "FillJAndData_sched b sched A = Inl LocalBufferOverrun"
  then show False
    unfolding FillJAndData_sched_def Let_def using assms(1) FillJ_row_not_overrun[OF assms(2)]
    by (auto simp: ebind_eq_Inl split: prod.splits dest!: efold_Inl)
qed

text \<open>
  With more than \<^verbatim>\<open>Max\<close> entries to store, all of them in the incidence table, the
  filling loops fill the sixteen cells and go on to cell 16.
\<close>

lemma FillI_elts_reaches_16:
  assumes "Max16 < n" and "0 \<le> offset" and "offset + Max16 < int (length (Indices r))"
  shows "FillI_elts b r offset n = Inl LocalBufferOverrun"
proof -
  have split: "[0..n - 1] = [0..Max16 - 1] @ Max16 # [Max16 + 1..n - 1]"
    using assms(1) upto_split3[of 0 Max16 "n - 1"] by (simp add: Max16_def)
  have "\<exists>t. efold (FillI_elts_step b r offset) [0..Max16 - 1] (replicate (nat Max16) 0) = Inr t
      \<and> True"
    by (rule efold_succeeds)
       (use assms(2,3) in \<open>auto simp: FillI_elts_step_def Let_def rd_def\<close>)
  then obtain t where
    t: "efold (FillI_elts_step b r offset) [0..Max16 - 1] (replicate (nat Max16) 0) = Inr t"
    by blast
  have "0 \<le> Max16" by (simp add: Max16_def)
  then have "FillI_elts_step b r offset Max16 t = Inl LocalBufferOverrun"
    using assms(2,3) by (simp add: FillI_elts_step_def Let_def rd_def)
  then show ?thesis unfolding FillI_elts_def split efold_append t by simp
qed

lemma FillJ_elts_reaches_16:
  assumes "Max16 < n" and "0 \<le> offset" and "offset + Max16 < int (length (Indices r))"
  shows "FillJ_elts b r offset n = Inl LocalBufferOverrun"
proof -
  have split: "[0..n - 1] = [0..Max16 - 1] @ Max16 # [Max16 + 1..n - 1]"
    using assms(1) upto_split3[of 0 Max16 "n - 1"] by (simp add: Max16_def)
  have "\<exists>t. efold (FillJ_elts_step b r offset) [0..Max16 - 1]
               (replicate (nat Max16) 0, replicate (nat Max16) 0) = Inr t \<and> True"
    by (rule efold_succeeds)
       (use assms(2,3) in \<open>auto simp: FillJ_elts_step_def Let_def rd_def split: prod.splits\<close>)
  then obtain t where
    t: "efold (FillJ_elts_step b r offset) [0..Max16 - 1]
          (replicate (nat Max16) 0, replicate (nat Max16) 0) = Inr t"
    by blast
  have "0 \<le> Max16" by (simp add: Max16_def)
  then have "FillJ_elts_step b r offset Max16 t = Inl LocalBufferOverrun"
    using assms(2,3) by (cases t) (simp add: FillJ_elts_step_def Let_def rd_def)
  then show ?thesis unfolding FillJ_elts_def split efold_append t by simp
qed

subsection \<open>Elimination: what is zeroed\<close>

lemma length_zero_at [simp]: "length (zero_at Z xs) = length xs"
  by (simp add: zero_at_def)

lemma nth_zero_at: "p < length xs \<Longrightarrow> zero_at Z xs ! p = (if int p \<in> Z then 0 else xs ! p)"
  by (simp add: zero_at_def)

lemma zero_at_empty [simp]: "zero_at {} xs = xs"
  by (simp add: zero_at_def map_nth)

lemma zero_at_zero_at: "zero_at Z1 (zero_at Z2 xs) = zero_at (Z2 \<union> Z1) xs"
  by (auto simp: zero_at_def)

lemma update_zero_at:
  "0 \<le> k \<Longrightarrow> k < int (length xs) \<Longrightarrow> xs[nat k := 0] = zero_at {k} xs"
  by (rule nth_equalityI) (auto simp: nth_zero_at nth_list_update)

lemma efold_zero_at:
  assumes "efold f xs s = Inr s'"
    and "\<And>x t t'. x \<in> set xs \<Longrightarrow> f x t = Inr t' \<Longrightarrow> t' = zero_at (Z x) t"
  shows "s' = zero_at (\<Union>x \<in> set xs. Z x) s"
  using assms
proof (induction xs arbitrary: s)
  case Nil then show ?case by simp
next
  case (Cons x xs)
  from Cons.prems(1) obtain t where t: "f x s = Inr t" and r: "efold f xs t = Inr s'"
    by (auto simp: ebind_eq_Inr)
  have "t = zero_at (Z x) s" using Cons.prems(2) t by simp
  moreover have "s' = zero_at (\<Union>x \<in> set xs. Z x) t" using Cons.IH[OF r] Cons.prems(2) by simp
  ultimately show ?case by (simp add: zero_at_zero_at)
qed

lemma elim_sym_result:
  "elim_sym J idof ks dA = Inr dA'
     \<Longrightarrow> dA' = zero_at (set_option (find (\<lambda>k. J ! nat k = idof) ks)) dA"
proof (induction ks)
  case Nil then show ?case by simp
next
  case (Cons k ks)
  then show ?case
    by (auto simp: ebind_eq_Inr rd_eq_Inr wr_eq_Inr update_zero_at split: if_splits)
qed

lemma elim_j_result:
  assumes "elim_j I J idof j dA = Inr dA'"
  shows "dA' = zero_at (elim_zeros_j I J idof j) dA"
proof (cases "J ! nat j = idof")
  case True
  with assms show ?thesis
    by (auto simp: elim_j_def elim_zeros_j_def ebind_eq_Inr rd_eq_Inr)
next
  case False
  with assms obtain dA1 where j: "0 \<le> j" "j < int (length dA)" and 1: "dA1 = dA[nat j := 0]"
    and 2: "elim_sym J idof (row_slice I (J ! nat j)) dA1 = Inr dA'"
    by (auto simp: elim_j_def ebind_eq_Inr rd_eq_Inr wr_eq_Inr row_slice_def)
  from elim_sym_result[OF 2] 1 j False show ?thesis
    by (simp add: update_zero_at zero_at_zero_at elim_zeros_j_def)
qed

lemma elim_i_result:
  assumes "elim_i ess I J i dA = Inr dA'"
  shows "0 \<le> i \<and> i < int (length ess) \<and>
     dA' = zero_at (\<Union>j \<in> set (row_slice I (ess ! nat i)). elim_zeros_j I J (ess ! nat i) j) dA"
proof -
  from assms have i: "0 \<le> i" "i < int (length ess)"
    and e: "efold (elim_j I J (ess ! nat i)) (row_slice I (ess ! nat i)) dA = Inr dA'"
    by (auto simp: elim_i_def ebind_eq_Inr rd_eq_Inr row_slice_def)
  from efold_zero_at[OF e, of "elim_zeros_j I J (ess ! nat i)"] elim_j_result i
  show ?thesis by blast
qed

lemma Eliminate_result:
  assumes "Eliminate ess A = Inr A'"
  shows "A' = A\<lparr>GetData := zero_at (elim_zeros (GetI A) (GetJ A) ess) (GetData A)\<rparr>"
proof -
  from assms obtain dA where
    e: "efold (elim_i ess (GetI A) (GetJ A)) [0..int (length ess) - 1] (GetData A) = Inr dA"
    and A': "A' = A\<lparr>GetData := dA\<rparr>"
    by (auto simp: Eliminate_def ebind_eq_Inr)
  have "dA = zero_at (\<Union>i \<in> set [0..int (length ess) - 1].
      \<Union>j \<in> set (row_slice (GetI A) (ess ! nat i)). elim_zeros_j (GetI A) (GetJ A) (ess ! nat i) j)
      (GetData A)"
    by (rule efold_zero_at[OF e]) (use elim_i_result in blast)
  moreover have "(\<Union>i \<in> set [0..int (length ess) - 1].
      \<Union>j \<in> set (row_slice (GetI A) (ess ! nat i)). elim_zeros_j (GetI A) (GetJ A) (ess ! nat i) j)
     = elim_zeros (GetI A) (GetJ A) ess"
  proof -
    have im: "(\<lambda>i. ess ! nat i) ` set [0..int (length ess) - 1] = set ess"
    proof -
      have "(\<lambda>i. ess ! nat i) ` set [0..int (length ess) - 1] = (\<lambda>i. ess ! i) ` {0..<length ess}"
        unfolding upto_as_map by (auto simp: image_image)
      then show ?thesis by (simp add: set_conv_nth[of ess] image_def Bex_def conj_commute)
    qed
    show ?thesis unfolding elim_zeros_def im[symmetric] by simp
  qed
  ultimately show ?thesis using A' by simp
qed

lemma in_elim_zeros_jD:
  assumes "p \<in> elim_zeros_j I J idof j"
  shows "J ! nat j \<noteq> idof \<and> (p = j \<or> (p \<in> set (row_slice I (J ! nat j)) \<and> J ! nat p = idof))"
  using assms
  by (auto simp: elim_zeros_j_def find_Some_iff in_set_conv_nth split: if_splits)

lemma Eliminate_frame:
  assumes "Eliminate ess A = Inr A'"
  shows "Height A' = Height A \<and> Width A' = Width A \<and> GetI A' = GetI A \<and> GetJ A' = GetJ A
     \<and> length (GetData A') = length (GetData A)
     \<and> (\<forall>p < length (GetData A).
          (\<forall>d \<in> set ess. int p \<notin> set (row_slice (GetI A) d)) \<and> GetJ A ! p \<notin> set ess
          \<longrightarrow> GetData A' ! p = GetData A ! p)"
proof -
  note A' = Eliminate_result[OF assms]
  have "GetData A' ! p = GetData A ! p"
    if p: "p < length (GetData A)"
      and rows: "\<forall>d \<in> set ess. int p \<notin> set (row_slice (GetI A) d)"
      and col: "GetJ A ! p \<notin> set ess" for p
  proof -
    have "int p \<notin> elim_zeros (GetI A) (GetJ A) ess"
    proof
      assume "int p \<in> elim_zeros (GetI A) (GetJ A) ess"
      then obtain d j where d: "d \<in> set ess" and j: "j \<in> set (row_slice (GetI A) d)"
        and z: "int p \<in> elim_zeros_j (GetI A) (GetJ A) d j"
        by (auto simp: elim_zeros_def)
      from in_elim_zeros_jD[OF z] d j rows col show False by auto
    qed
    then show ?thesis using A' p by (simp add: nth_zero_at)
  qed
  then show ?thesis using A' by simp
qed

text \<open>
  Claim C6. The elimination of the serial \<^verbatim>\<open>Assemble\<close> changes values only: the matrix
  it returns has the dimensions, the row offsets \<^verbatim>\<open>I\<close> and the column indices \<^verbatim>\<open>J\<close>
  of the assembled matrix, as many values, and every entry that lies in the row of no
  essential DOF and whose column is no essential DOF has the value it had before.
\<close>

theorem Assemble_elimination_frame:
  assumes "Assemble b ui ud A0 = Inr A'"
  shows "\<exists>A. SparseIJToCSR b ui ud A0 = Inr A \<and> Eliminate (ess_dofs b) A = Inr A'
     \<and> Height A' = Height A \<and> Width A' = Width A \<and> GetI A' = GetI A \<and> GetJ A' = GetJ A
     \<and> length (GetData A') = length (GetData A)
     \<and> (\<forall>p < length (GetData A).
          (\<forall>d \<in> set (ess_dofs b). int p \<notin> set (row_slice (GetI A) d))
          \<and> GetJ A ! p \<notin> set (ess_dofs b)
          \<longrightarrow> GetData A' ! p = GetData A ! p)"
proof -
  from assms obtain A where a: "SparseIJToCSR b ui ud A0 = Inr A"
    and e: "Eliminate (ess_dofs b) A = Inr A'"
    by (auto simp: Assemble_def ebind_eq_Inr)
  from Eliminate_frame[OF e] a e show ?thesis by blast
qed

text \<open>
  C6 on the dense block of four DOFs with DOF 0 essential: row 0 and column 0 lose their
  off-diagonal values, the rest is as assembled.
\<close>

theorem Assemble_elimination_frame_witness:
  "Assemble ex_dense (\<lambda>_. 0) (\<lambda>_. 0) ex_empty
     = Inr \<lparr>Height = 4, Width = 4, GetI = [0, 4, 8, 12, 16],
         GetJ = [0, 1, 2, 3, 0, 1, 2, 3, 0, 1, 2, 3, 0, 1, 2, 3],
         GetData = [1, 0, 0, 0, 0, 6, 7, 8, 0, 10, 11, 12, 0, 14, 15, 16]\<rparr>
   \<and> (\<exists>A. SparseIJToCSR ex_dense (\<lambda>_. 0) (\<lambda>_. 0) ex_empty = Inr A
        \<and> GetI A = [0, 4, 8, 12, 16] \<and> GetJ A = [0, 1, 2, 3, 0, 1, 2, 3, 0, 1, 2, 3, 0, 1, 2, 3]
        \<and> length (GetData A) = 16
        \<and> (\<forall>p < 16. (\<forall>d \<in> set (ess_dofs ex_dense). int p \<notin> set (row_slice (GetI A) d))
              \<and> GetJ A ! p \<notin> set (ess_dofs ex_dense)
              \<longrightarrow> [1, 0, 0, 0, 0, 6, 7, 8, 0, 10, 11, 12, 0, 14, 15, 16] ! p = GetData A ! p))"
proof -
  have e: "Assemble ex_dense (\<lambda>_. 0) (\<lambda>_. 0) ex_empty
     = Inr \<lparr>Height = 4, Width = 4, GetI = [0, 4, 8, 12, 16],
         GetJ = [0, 1, 2, 3, 0, 1, 2, 3, 0, 1, 2, 3, 0, 1, 2, 3],
         GetData = [1, 0, 0, 0, 0, 6, 7, 8, 0, 10, 11, 12, 0, 14, 15, 16]\<rparr>"
    by code_simp
  from Assemble_elimination_frame[OF e] e show ?thesis by auto
qed

subsection \<open>Elimination: rows and columns of essential DOFs\<close>

lemma csr_row_in_range:
  assumes "csr_shape n I J D" and "0 \<le> r" and "r < n" and "p \<in> set (row_slice I r)"
  shows "0 \<le> p \<and> p < int (length J) \<and> nat p < length D"
proof -
  from assms(1) have len: "length I = nat n + 1" and z: "I ! 0 = 0" and s: "sorted I"
    and l: "I ! nat n = int (length J)" and d: "length D = length J"
    by (auto simp: csr_shape_def)
  from assms(4) have p: "I ! nat r \<le> p" "p < I ! nat (r + 1)" by (auto simp: row_slice_def)
  have "I ! 0 \<le> I ! nat r" using s len assms(2,3) by (intro sorted_nth_mono) auto
  moreover have "I ! nat (r + 1) \<le> I ! nat n" using s len assms(2,3) by (intro sorted_nth_mono) auto
  ultimately show ?thesis using p z l d by auto
qed

lemma csr_rows_disjoint:
  assumes "csr_shape n I J D" and "0 \<le> r" and "r < n" and "0 \<le> r'" and "r' < n"
    and "p \<in> set (row_slice I r)" and "p \<in> set (row_slice I r')"
  shows "r = r'"
proof -
  from assms(1) have len: "length I = nat n + 1" and s: "sorted I" by (auto simp: csr_shape_def)
  have lt: False if "a < c" "0 \<le> a" "c < n" "p \<in> set (row_slice I a)" "p \<in> set (row_slice I c)"
    for a c
  proof -
    have "I ! nat (a + 1) \<le> I ! nat c" using s len that(1-3) by (intro sorted_nth_mono) auto
    with that(4,5) show False by (auto simp: row_slice_def)
  qed
  show ?thesis
  proof (rule ccontr)
    assume "r \<noteq> r'"
    then consider "r < r'" | "r' < r" by linarith
    then show False using lt assms(2-7) by cases blast+
  qed
qed

lemma csr_okD: "csr_ok n I J D \<Longrightarrow> csr_shape n I J D"
  by (simp add: csr_ok_def)

lemma csr_col_in_range:
  assumes "csr_ok n I J D" and "0 \<le> r" and "r < n" and "p \<in> set (row_slice I r)"
  shows "0 \<le> J ! nat p \<and> J ! nat p < n"
proof -
  from csr_row_in_range[OF csr_okD[OF assms(1)] assms(2-4)] have "nat p < length J" by auto
  then have "J ! nat p \<in> set J" by simp
  with assms(1) show ?thesis by (auto simp: csr_ok_def)
qed

lemma elim_zeros_row:
  assumes "d \<in> set ess" and "p \<in> set (row_slice I d)" and "J ! nat p \<noteq> d"
  shows "p \<in> elim_zeros I J ess"
  using assms by (auto simp: elim_zeros_def elim_zeros_j_def)

lemma elim_zeros_col:
  assumes ok: "csr_ok n I J D" and dist: "rows_distinct n I J" and sym: "pattern_symmetric n I J"
    and d: "d \<in> set ess" "0 \<le> d" "d < n"
    and r: "0 \<le> r" "r < n" "r \<noteq> d" and q: "q \<in> set (row_slice I r)" "J ! nat q = d"
  shows "q \<in> elim_zeros I J ess"
proof -
  from sym r q obtain p where p: "p \<in> set (row_slice I d)" and Jp: "J ! nat p = r"
    unfolding pattern_symmetric_def by force
  from q have "\<exists>k \<in> set (row_slice I r). J ! nat k = d" by blast
  then obtain k where f: "find (\<lambda>k. J ! nat k = d) (row_slice I r) = Some k"
    by (cases "find (\<lambda>k. J ! nat k = d) (row_slice I r)") (auto simp: find_None_iff)
  then have k: "k \<in> set (row_slice I r)" "J ! nat k = d"
    by (auto simp: find_Some_iff in_set_conv_nth)
  from dist r have "distinct (map (\<lambda>p. J ! nat p) (row_slice I r))"
    by (simp add: rows_distinct_def)
  then have "inj_on (\<lambda>p. J ! nat p) (set (row_slice I r))" by (simp add: distinct_map)
  with k q have "k = q" by (auto dest: inj_onD)
  with f Jp r have "q \<in> elim_zeros_j I J d p" by (simp add: elim_zeros_j_def)
  with d p show ?thesis by (auto simp: elim_zeros_def)
qed

lemma elim_zeros_off_diagonal:
  assumes ok: "csr_ok n I J D" and ess: "\<forall>d \<in> set ess. 0 \<le> d \<and> d < n"
    and r: "0 \<le> r" "r < n" and p: "p \<in> set (row_slice I r)" "J ! nat p = r"
  shows "p \<notin> elim_zeros I J ess"
proof
  assume "p \<in> elim_zeros I J ess"
  then obtain d j where d: "d \<in> set ess" and j: "j \<in> set (row_slice I d)"
    and z: "p \<in> elim_zeros_j I J d j"
    by (auto simp: elim_zeros_def)
  from d ess have dr: "0 \<le> d" "d < n" by auto
  from in_elim_zeros_jD[OF z] have ne: "J ! nat j \<noteq> d"
    and c: "p = j \<or> (p \<in> set (row_slice I (J ! nat j)) \<and> J ! nat p = d)" by auto
  from c show False
  proof
    assume "p = j"
    with j p(1) have "r = d" using csr_rows_disjoint[OF csr_okD[OF ok] r dr] by blast
    with \<open>p = j\<close> p(2) ne show False by simp
  next
    assume a: "p \<in> set (row_slice I (J ! nat j)) \<and> J ! nat p = d"
    with p(2) have "r = d" by simp
    from csr_col_in_range[OF ok dr j] have "0 \<le> J ! nat j" "J ! nat j < n" by auto
    from csr_rows_disjoint[OF csr_okD[OF ok] r this p(1)] a have "r = J ! nat j" by blast
    with \<open>r = d\<close> ne show False by simp
  qed
qed

lemma Eliminate_zeroes:
  assumes e: "Eliminate ess A = Inr A'"
    and ok: "csr_ok n (GetI A) (GetJ A) (GetData A)"
    and dist: "rows_distinct n (GetI A) (GetJ A)"
    and sym: "pattern_symmetric n (GetI A) (GetJ A)"
    and ess: "\<forall>d \<in> set ess. 0 \<le> d \<and> d < n"
  shows "\<forall>d \<in> set ess.
      (\<forall>p \<in> set (row_slice (GetI A) d). GetJ A ! nat p \<noteq> d \<longrightarrow> GetData A' ! nat p = 0)
    \<and> (\<forall>r \<in> set [0..n - 1]. \<forall>q \<in> set (row_slice (GetI A) r).
          r \<noteq> d \<and> GetJ A ! nat q = d \<longrightarrow> GetData A' ! nat q = 0)
    \<and> (\<forall>p \<in> set (row_slice (GetI A) d).
          GetJ A ! nat p = d \<longrightarrow> GetData A' ! nat p = GetData A ! nat p)"
proof (intro ballI conjI impI)
  note A' = Eliminate_result[OF e]
  fix d assume d: "d \<in> set ess"
  with ess have dr: "0 \<le> d" "d < n" by auto
  {
    fix p assume p: "p \<in> set (row_slice (GetI A) d)" and c: "GetJ A ! nat p \<noteq> d"
    from csr_row_in_range[OF csr_okD[OF ok] dr p] have "0 \<le> p" "nat p < length (GetData A)" by auto
    with elim_zeros_row[OF d p c] show "GetData A' ! nat p = 0"
      unfolding A' by (simp add: nth_zero_at)
  next
    fix r q assume r: "r \<in> set [0..n - 1]" and q: "q \<in> set (row_slice (GetI A) r)"
      and c: "r \<noteq> d \<and> GetJ A ! nat q = d"
    from r have rr: "0 \<le> r" "r < n" by auto
    from csr_row_in_range[OF csr_okD[OF ok] rr q] have "0 \<le> q" "nat q < length (GetData A)" by auto
    with elim_zeros_col[OF ok dist sym d dr rr _ q] c show "GetData A' ! nat q = 0"
      unfolding A' by (simp add: nth_zero_at)
  next
    fix p assume p: "p \<in> set (row_slice (GetI A) d)" and c: "GetJ A ! nat p = d"
    from csr_row_in_range[OF csr_okD[OF ok] dr p] have "0 \<le> p" "nat p < length (GetData A)" by auto
    with elim_zeros_off_diagonal[OF ok ess dr p c]
    show "GetData A' ! nat p = GetData A ! nat p"
      unfolding A' by (simp add: nth_zero_at)
  }
qed

subsection \<open>Elimination: the run completes on a matrix in good shape\<close>

lemma elim_sym_succeeds:
  assumes "\<forall>k \<in> set ks. 0 \<le> k \<and> k < int (length J) \<and> k < int (length dA)"
  shows "\<exists>dA'. elim_sym J idof ks dA = Inr dA' \<and> length dA' = length dA"
  using assms by (induction ks) (auto simp: rd_def wr_def)

lemma elim_j_succeeds:
  assumes ok: "csr_ok n I J D" and d: "0 \<le> idof" "idof < n" and j: "j \<in> set (row_slice I idof)"
    and len: "length dA = length D"
  shows "\<exists>dA'. elim_j I J idof j dA = Inr dA' \<and> length dA' = length D"
proof -
  from csr_row_in_range[OF csr_okD[OF ok] d j] have jr: "0 \<le> j" "j < int (length J)" "nat j < length D" by auto
  from csr_col_in_range[OF ok d j] have c: "0 \<le> J ! nat j" "J ! nat j < n" by auto
  from ok have lI: "length I = nat n + 1" and lD: "length D = length J"
    by (auto simp: csr_ok_def csr_shape_def)
  have rows: "\<forall>k \<in> set (row_slice I (J ! nat j)).
      0 \<le> k \<and> k < int (length J) \<and> k < int (length (dA[nat j := 0]))"
    using csr_row_in_range[OF csr_okD[OF ok] c] len lD by auto
  from elim_sym_succeeds[OF rows, of idof] obtain dA' where
    "elim_sym J idof (row_slice I (J ! nat j)) (dA[nat j := 0]) = Inr dA'"
    "length dA' = length D" using len by auto
  then show ?thesis
    using jr c lI lD len
    by (auto simp: elim_j_def rd_in_range wr_in_range row_slice_def)
qed

lemma Eliminate_succeeds:
  assumes ok: "csr_ok n (GetI A) (GetJ A) (GetData A)" and ess: "\<forall>d \<in> set ess. 0 \<le> d \<and> d < n"
  shows "\<exists>A'. Eliminate ess A = Inr A'"
proof -
  from ok have lI: "length (GetI A) = nat n + 1" by (auto simp: csr_ok_def csr_shape_def)
  have step: "\<exists>t'. elim_i ess (GetI A) (GetJ A) i t = Inr t' \<and> length t' = length (GetData A)"
    if i: "i \<in> set [0..int (length ess) - 1]" and t: "length t = length (GetData A)" for i t
  proof -
    from i have ir: "0 \<le> i" "i < int (length ess)" by auto
    then have "ess ! nat i \<in> set ess" by simp
    with ess have d: "0 \<le> ess ! nat i" "ess ! nat i < n" by auto
    have "\<exists>t'. efold (elim_j (GetI A) (GetJ A) (ess ! nat i)) (row_slice (GetI A) (ess ! nat i)) t
        = Inr t' \<and> length t' = length (GetData A)"
      by (rule efold_succeeds[where P = "\<lambda>u. length u = length (GetData A)"])
         (use t elim_j_succeeds[OF ok d] in auto)
    then show ?thesis using ir d lI
      by (auto simp: elim_i_def rd_in_range row_slice_def)
  qed
  have "\<exists>dA. efold (elim_i ess (GetI A) (GetJ A)) [0..int (length ess) - 1] (GetData A) = Inr dA
      \<and> length dA = length (GetData A)"
    by (rule efold_succeeds[where P = "\<lambda>u. length u = length (GetData A)"]) (use step in auto)
  then show ?thesis by (auto simp: Eliminate_def)
qed

subsection \<open>The distributed elimination\<close>

lemma writes01_refl: "writes01 {} {} t t"
  by (simp add: writes01_def)

lemma writes01_trans:
  assumes "writes01 Z1 N1 s t" and "writes01 Z2 N2 t u"
  shows "writes01 (Z1 \<union> Z2) (N1 \<union> N2) s u"
  using assms unfolding writes01_def by (auto; metis)

lemma writes01_zero_at: "writes01 Z {} t (zero_at Z t)"
  by (simp add: writes01_def nth_zero_at)

lemma efold_writes01:
  assumes "efold f xs s = Inr s'"
    and "\<And>x t t'. x \<in> set xs \<Longrightarrow> f x t = Inr t' \<Longrightarrow> writes01 (Z x) (N x) t t'"
  shows "writes01 (\<Union>x \<in> set xs. Z x) (\<Union>x \<in> set xs. N x) s s'"
  using assms
proof (induction xs arbitrary: s)
  case Nil then show ?case by (simp add: writes01_refl)
next
  case (Cons x xs)
  from Cons.prems(1) obtain t where t: "f x s = Inr t" and r: "efold f xs t = Inr s'"
    by (auto simp: ebind_eq_Inr)
  have 1: "writes01 (Z x) (N x) s t" using Cons.prems(2) t by simp
  have 2: "writes01 (\<Union>x \<in> set xs. Z x) (\<Union>x \<in> set xs. N x) t s'"
    using Cons.IH[OF r] Cons.prems(2) by simp
  from writes01_trans[OF 1 2] show ?case by simp
qed

lemma par_diag_j_result:
  assumes "par_diag_j I J idof j data = Inr data'"
  shows "writes01 (elim_zeros_j I J idof j) (if J ! nat j = idof then {j} else {}) data data'"
proof (cases "J ! nat j = idof")
  case True
  with assms show ?thesis
    by (auto simp: par_diag_j_def ebind_eq_Inr rd_eq_Inr wr_eq_Inr writes01_def
        elim_zeros_j_def nth_list_update)
next
  case False
  with assms obtain d1 where j: "0 \<le> j" "j < int (length data)" and 1: "d1 = data[nat j := 0]"
    and 2: "elim_sym J idof (row_slice I (J ! nat j)) d1 = Inr data'"
    by (auto simp: par_diag_j_def ebind_eq_Inr rd_eq_Inr wr_eq_Inr row_slice_def)
  from elim_sym_result[OF 2] 1 j False
  have "data' = zero_at (elim_zeros_j I J idof j) data"
    by (simp add: update_zero_at zero_at_zero_at elim_zeros_j_def)
  with False show ?thesis by (simp add: writes01_zero_at)
qed

lemma par_diag_i_result:
  assumes "par_diag_i ess I J i data = Inr data'"
  shows "writes01 (\<Union>j \<in> set (row_slice I (ess ! nat i)). elim_zeros_j I J (ess ! nat i) j)
           {p \<in> set (row_slice I (ess ! nat i)). J ! nat p = ess ! nat i} data data'"
proof -
  from assms have
    e: "efold (par_diag_j I J (ess ! nat i)) (row_slice I (ess ! nat i)) data = Inr data'"
    by (auto simp: par_diag_i_def ebind_eq_Inr rd_eq_Inr row_slice_def)
  have "{p \<in> set (row_slice I (ess ! nat i)). J ! nat p = ess ! nat i}
      = (\<Union>j \<in> set (row_slice I (ess ! nat i)). if J ! nat j = ess ! nat i then {j} else {})"
    by auto
  with efold_writes01[OF e, of "elim_zeros_j I J (ess ! nat i)"
      "\<lambda>j. if J ! nat j = ess ! nat i then {j} else {}"] par_diag_j_result
  show ?thesis by simp
qed

lemma par_diag_result:
  assumes "efold (par_diag_i ess I J) [0..int (length ess) - 1] data = Inr data'"
  shows "writes01 (elim_zeros I J ess) (diag_ones I J ess) data data'"
proof -
  let ?Z = "\<lambda>d. \<Union>j \<in> set (row_slice I d). elim_zeros_j I J d j"
  let ?N = "\<lambda>d. {p \<in> set (row_slice I d). J ! nat p = d}"
  have "writes01 (\<Union>i \<in> set [0..int (length ess) - 1]. ?Z (ess ! nat i))
          (\<Union>i \<in> set [0..int (length ess) - 1]. ?N (ess ! nat i)) data data'"
    by (rule efold_writes01[OF assms]) (use par_diag_i_result in blast)
  moreover have "(\<Union>i \<in> set [0..int (length ess) - 1]. ?Z (ess ! nat i)) = elim_zeros I J ess"
    unfolding elim_zeros_def nth_image_upto[of ess, symmetric] by simp
  moreover have "(\<Union>i \<in> set [0..int (length ess) - 1]. ?N (ess ! nat i)) = diag_ones I J ess"
  proof -
    have "diag_ones I J ess = (\<Union>d \<in> set ess. ?N d)" by (auto simp: diag_ones_def)
    then show ?thesis unfolding nth_image_upto[of ess, symmetric] by simp
  qed
  ultimately show ?thesis by simp
qed

lemma zero_writes_result:
  assumes "efold (\<lambda>j d. wr d j 0) ks data = Inr data'"
  shows "data' = zero_at (set ks) data"
proof -
  have "data' = zero_at (\<Union>k \<in> set ks. {k}) data"
    by (rule efold_zero_at[OF assms]) (auto simp: wr_eq_Inr update_zero_at)
  then show ?thesis by simp
qed

lemma par_offd_rows_result:
  assumes "efold (par_offd_row_i ess I) [0..int (length ess) - 1] data = Inr data'"
  shows "data' = zero_at (\<Union>d \<in> set ess. set (row_slice I d)) data"
proof -
  have "data' = zero_at (\<Union>i \<in> set [0..int (length ess) - 1]. set (row_slice I (ess ! nat i))) data"
    by (rule efold_zero_at[OF assms])
       (auto simp: par_offd_row_i_def ebind_eq_Inr rd_eq_Inr row_slice_def
             dest!: zero_writes_result)
  then show ?thesis unfolding nth_image_upto[of ess, symmetric] by simp
qed

lemma cols_step_result:
  "efold (cols_step ec) xs acc = Inr cols \<Longrightarrow> cols = acc @ filter (\<lambda>i. ec ! nat i \<noteq> 0) xs"
proof (induction xs arbitrary: acc)
  case Nil then show ?case by simp
next
  case (Cons a xs)
  from Cons.prems obtain acc' where s: "cols_step ec a acc = Inr acc'"
    and r: "efold (cols_step ec) xs acc' = Inr cols"
    by (auto simp: ebind_eq_Inr)
  from s have "acc' = (if ec ! nat a \<noteq> 0 then acc @ [a] else acc)"
    by (auto simp: cols_step_def ebind_eq_Inr rd_eq_Inr split: if_splits)
  with Cons.IH[OF r] show ?case by simp
qed

lemma par_offd_cols_result:
  assumes "efold (par_offd_col nrows I J) cols data = Inr data'"
  shows "data' = zero_at (\<Union>c \<in> set cols. \<Union>i \<in> set [0..nrows - 1].
                     set_option (find (\<lambda>k. J ! nat k = c) (row_slice I i))) data"
proof (rule efold_zero_at[OF assms])
  fix c t t' assume "par_offd_col nrows I J c t = Inr t'"
  then have e: "efold (par_offd_col_row I J c) [0..nrows - 1] t = Inr t'"
    by (simp add: par_offd_col_def)
  show "t' = zero_at (\<Union>i \<in> set [0..nrows - 1].
                     set_option (find (\<lambda>k. J ! nat k = c) (row_slice I i))) t"
    by (rule efold_zero_at[OF e])
       (auto simp: par_offd_col_row_def ebind_eq_Inr rd_eq_Inr row_slice_def
             dest!: elim_sym_result)
qed

lemma ParEliminate_result:
  assumes "ParEliminate ess ec (diag, offd) = Inr (diag', offd')"
  shows "\<exists>ddata. diag' = diag\<lparr>csr_data := ddata\<rparr>
      \<and> writes01 (elim_zeros (csr_i diag) (csr_j diag) ess)
          (diag_ones (csr_i diag) (csr_j diag) ess) (csr_data diag) ddata
      \<and> offd' = offd\<lparr>csr_data := zero_at (offd_zeros (csr_i offd) (csr_j offd) ess
            (filter (\<lambda>i. ec ! nat i \<noteq> 0) [0..NumCols offd - 1]) (NumRows offd))
            (csr_data offd)\<rparr>"
proof -
  from assms obtain ddata odata1 cols odata2 where
    d: "efold (par_diag_i ess (csr_i diag) (csr_j diag)) [0..int (length ess) - 1] (csr_data diag)
          = Inr ddata"
    and o1: "efold (par_offd_row_i ess (csr_i offd)) [0..int (length ess) - 1] (csr_data offd)
          = Inr odata1"
    and c: "efold (cols_step ec) [0..NumCols offd - 1] [] = Inr cols"
    and o2: "efold (par_offd_col (NumRows offd) (csr_i offd) (csr_j offd)) cols odata1 = Inr odata2"
    and r: "diag' = diag\<lparr>csr_data := ddata\<rparr>" "offd' = offd\<lparr>csr_data := odata2\<rparr>"
    unfolding ParEliminate_def Let_def by (auto simp: ebind_eq_Inr)
  from cols_step_result[OF c] have cols: "cols = filter (\<lambda>i. ec ! nat i \<noteq> 0) [0..NumCols offd - 1]"
    by simp
  from par_offd_rows_result[OF o1] par_offd_cols_result[OF o2]
  have "odata2 = zero_at (offd_zeros (csr_i offd) (csr_j offd) ess cols (NumRows offd)) (csr_data offd)"
    by (simp add: zero_at_zero_at offd_zeros_def)
  with par_diag_result[OF d] r cols show ?thesis by blast
qed

lemma find_in_distinct_row:
  assumes "rows_distinct n I J" and "0 \<le> r" and "r < n" and "q \<in> set (row_slice I r)"
  shows "find (\<lambda>k. J ! nat k = J ! nat q) (row_slice I r) = Some q"
proof -
  from assms(4) have "\<exists>k \<in> set (row_slice I r). J ! nat k = J ! nat q" by blast
  then obtain k where f: "find (\<lambda>k. J ! nat k = J ! nat q) (row_slice I r) = Some k"
    by (cases "find (\<lambda>k. J ! nat k = J ! nat q) (row_slice I r)") (auto simp: find_None_iff)
  then have k: "k \<in> set (row_slice I r)" "J ! nat k = J ! nat q"
    by (auto simp: find_Some_iff in_set_conv_nth)
  from assms(1-3) have "distinct (map (\<lambda>p. J ! nat p) (row_slice I r))"
    by (simp add: rows_distinct_def)
  then have "inj_on (\<lambda>p. J ! nat p) (set (row_slice I r))" by (simp add: distinct_map)
  with k assms(4) have "k = q" by (auto dest: inj_onD)
  with f show ?thesis by simp
qed

lemma diag_ones_off_row:
  assumes ok: "csr_ok n I J D" and ess: "\<forall>d \<in> set ess. 0 \<le> d \<and> d < n"
    and r: "0 \<le> r" "r < n" and p: "p \<in> set (row_slice I r)" "J ! nat p \<noteq> r"
  shows "p \<notin> diag_ones I J ess"
proof
  assume "p \<in> diag_ones I J ess"
  then obtain d where d: "d \<in> set ess" "p \<in> set (row_slice I d)" "J ! nat p = d"
    by (auto simp: diag_ones_def)
  with ess have "0 \<le> d" "d < n" by auto
  from csr_rows_disjoint[OF csr_okD[OF ok] r this p(1) d(2)] d(3) p(2) show False by simp
qed

lemma ParEliminate_zeroes:
  assumes e: "ParEliminate ess ec (diag, offd) = Inr (diag', offd')"
    and ok: "csr_ok (NumRows diag) (csr_i diag) (csr_j diag) (csr_data diag)"
    and dist: "rows_distinct (NumRows diag) (csr_i diag) (csr_j diag)"
    and sym: "pattern_symmetric (NumRows diag) (csr_i diag) (csr_j diag)"
    and oshape: "csr_shape (NumRows offd) (csr_i offd) (csr_j offd) (csr_data offd)"
    and odist: "rows_distinct (NumRows offd) (csr_i offd) (csr_j offd)"
    and rows: "NumRows offd = NumRows diag"
    and ess: "\<forall>d \<in> set ess. 0 \<le> d \<and> d < NumRows diag"
  shows "csr_i diag' = csr_i diag \<and> csr_j diag' = csr_j diag
     \<and> csr_i offd' = csr_i offd \<and> csr_j offd' = csr_j offd
     \<and> (\<forall>d \<in> set ess.
          (\<forall>p \<in> set (row_slice (csr_i diag) d).
              csr_j diag ! nat p = d \<longrightarrow> csr_data diag' ! nat p = 1)
        \<and> (\<forall>p \<in> set (row_slice (csr_i diag) d).
              csr_j diag ! nat p \<noteq> d \<longrightarrow> csr_data diag' ! nat p = 0)
        \<and> (\<forall>r \<in> set [0..NumRows diag - 1]. \<forall>q \<in> set (row_slice (csr_i diag) r).
              r \<noteq> d \<and> csr_j diag ! nat q = d \<longrightarrow> csr_data diag' ! nat q = 0)
        \<and> (\<forall>p \<in> set (row_slice (csr_i offd) d). csr_data offd' ! nat p = 0))
     \<and> (\<forall>c \<in> set [0..NumCols offd - 1]. ec ! nat c \<noteq> 0 \<longrightarrow>
          (\<forall>i \<in> set [0..NumRows offd - 1]. \<forall>q \<in> set (row_slice (csr_i offd) i).
              csr_j offd ! nat q = c \<longrightarrow> csr_data offd' ! nat q = 0))"
proof -
  let ?n = "NumRows diag"
  let ?I = "csr_i diag" and ?J = "csr_j diag" and ?D = "csr_data diag"
  let ?oI = "csr_i offd" and ?oJ = "csr_j offd" and ?oD = "csr_data offd"
  let ?cols = "filter (\<lambda>i. ec ! nat i \<noteq> 0) [0..NumCols offd - 1]"
  from ParEliminate_result[OF e] obtain ddata where
    d': "diag' = diag\<lparr>csr_data := ddata\<rparr>"
    and w: "writes01 (elim_zeros ?I ?J ess) (diag_ones ?I ?J ess) ?D ddata"
    and o': "offd' = offd\<lparr>csr_data := zero_at (offd_zeros ?oI ?oJ ess ?cols (NumRows offd)) ?oD\<rparr>"
    by blast
  have one: "ddata ! nat p = 1"
    if "d \<in> set ess" "p \<in> set (row_slice ?I d)" "?J ! nat p = d" for d p
  proof -
    from that(1) ess have dr: "0 \<le> d" "d < ?n" by auto
    from csr_row_in_range[OF csr_okD[OF ok] dr that(2)] have r: "0 \<le> p" "nat p < length ?D" by auto
    have "p \<in> diag_ones ?I ?J ess" using that by (auto simp: diag_ones_def)
    moreover have "p \<notin> elim_zeros ?I ?J ess"
      by (rule elim_zeros_off_diagonal[OF ok ess dr that(2,3)])
    ultimately show ?thesis using w r by (auto simp: writes01_def)
  qed
  have zrow: "ddata ! nat p = 0"
    if "d \<in> set ess" "p \<in> set (row_slice ?I d)" "?J ! nat p \<noteq> d" for d p
  proof -
    from that(1) ess have dr: "0 \<le> d" "d < ?n" by auto
    from csr_row_in_range[OF csr_okD[OF ok] dr that(2)] have r: "0 \<le> p" "nat p < length ?D" by auto
    have "p \<in> elim_zeros ?I ?J ess" by (rule elim_zeros_row[OF that])
    moreover have "p \<notin> diag_ones ?I ?J ess"
      by (rule diag_ones_off_row[OF ok ess dr that(2,3)])
    ultimately show ?thesis using w r by (auto simp: writes01_def)
  qed
  have zcol: "ddata ! nat q = 0"
    if "d \<in> set ess" "r \<in> set [0..?n - 1]" "q \<in> set (row_slice ?I r)" "r \<noteq> d" "?J ! nat q = d"
    for d r q
  proof -
    from that(1) ess have dr: "0 \<le> d" "d < ?n" by auto
    from that(2) have rr: "0 \<le> r" "r < ?n" by auto
    from csr_row_in_range[OF csr_okD[OF ok] rr that(3)] have r: "0 \<le> q" "nat q < length ?D" by auto
    have "q \<in> elim_zeros ?I ?J ess"
      by (rule elim_zeros_col[OF ok dist sym that(1) dr rr that(4,3,5)])
    moreover have "q \<notin> diag_ones ?I ?J ess"
      using diag_ones_off_row[OF ok ess rr that(3)] that(4,5) by simp
    ultimately show ?thesis using w r by (auto simp: writes01_def)
  qed
  have orow: "csr_data offd' ! nat p = 0" if "d \<in> set ess" "p \<in> set (row_slice ?oI d)" for d p
  proof -
    from that(1) ess rows have dr: "0 \<le> d" "d < NumRows offd" by auto
    from csr_row_in_range[OF oshape dr that(2)] have r: "0 \<le> p" "nat p < length ?oD" by auto
    have "p \<in> offd_zeros ?oI ?oJ ess ?cols (NumRows offd)"
      using that by (auto simp: offd_zeros_def)
    then show ?thesis using o' r by (simp add: nth_zero_at)
  qed
  have ocol: "csr_data offd' ! nat q = 0"
    if "c \<in> set [0..NumCols offd - 1]" "ec ! nat c \<noteq> 0" "i \<in> set [0..NumRows offd - 1]"
      "q \<in> set (row_slice ?oI i)" "?oJ ! nat q = c" for c i q
  proof -
    from that(3) have ir: "0 \<le> i" "i < NumRows offd" by auto
    from csr_row_in_range[OF oshape ir that(4)] have r: "0 \<le> q" "nat q < length ?oD" by auto
    from find_in_distinct_row[OF odist ir that(4)] that(5)
    have "find (\<lambda>k. ?oJ ! nat k = c) (row_slice ?oI i) = Some q" by simp
    moreover have "c \<in> set ?cols" using that(1,2) by simp
    ultimately have "q \<in> offd_zeros ?oI ?oJ ess ?cols (NumRows offd)"
      using that(3) unfolding offd_zeros_def by force
    then show ?thesis using o' r by (simp add: nth_zero_at)
  qed
  show ?thesis
    using d' o' one zrow zcol orow ocol by simp
qed

text \<open>
  Claim C5, as amended. Let the assembled matrix be a CSR matrix in good shape in which
  no row holds a column twice and whose pattern is symmetric, and let the essential DOFs
  be row numbers. Then the serial \<^verbatim>\<open>Assemble\<close> returns, and for every essential DOF
  \<open>d\<close> every off-diagonal entry of row \<open>d\<close> and of column \<open>d\<close> is zero, while the
  entry \<open>(d, d)\<close> has the assembled value. Under the same conditions on the diagonal
  block, and for an off-diagonal block in good shape with no column twice in a row, the
  distributed elimination leaves \<open>(d, d)\<close> of the diagonal block at 1, zeroes the
  off-diagonal entries of row and column \<open>d\<close> there, zeroes row \<open>d\<close> of the
  off-diagonal block, and zeroes every entry of the off-diagonal block whose column is
  marked in \<^verbatim>\<open>eliminate_col\<close>.
\<close>

theorem elimination_rows_and_columns:
  "(SparseIJToCSR b ui ud A0 = Inr A
      \<and> csr_ok n (GetI A) (GetJ A) (GetData A)
      \<and> rows_distinct n (GetI A) (GetJ A)
      \<and> pattern_symmetric n (GetI A) (GetJ A)
      \<and> (\<forall>d \<in> set (ess_dofs b). 0 \<le> d \<and> d < n)
    \<longrightarrow> (\<exists>A'. Assemble b ui ud A0 = Inr A'
          \<and> rows_cols_zero n (ess_dofs b) (GetI A) (GetJ A) (GetData A')
          \<and> diagonal_is (ess_dofs b) (GetI A) (GetJ A) (\<lambda>p. GetData A ! nat p) (GetData A')))
   \<and> (ParEliminate ess ec (diag, offd) = Inr (diag', offd')
      \<and> csr_ok (NumRows diag) (csr_i diag) (csr_j diag) (csr_data diag)
      \<and> rows_distinct (NumRows diag) (csr_i diag) (csr_j diag)
      \<and> pattern_symmetric (NumRows diag) (csr_i diag) (csr_j diag)
      \<and> csr_shape (NumRows offd) (csr_i offd) (csr_j offd) (csr_data offd)
      \<and> rows_distinct (NumRows offd) (csr_i offd) (csr_j offd)
      \<and> NumRows offd = NumRows diag
      \<and> (\<forall>d \<in> set ess. 0 \<le> d \<and> d < NumRows diag)
    \<longrightarrow> csr_i diag' = csr_i diag \<and> csr_j diag' = csr_j diag
      \<and> csr_i offd' = csr_i offd \<and> csr_j offd' = csr_j offd
      \<and> rows_cols_zero (NumRows diag) ess (csr_i diag) (csr_j diag) (csr_data diag')
      \<and> diagonal_is ess (csr_i diag) (csr_j diag) (\<lambda>p. 1) (csr_data diag')
      \<and> offd_eliminated (NumRows offd) (NumCols offd) ess ec (csr_i offd) (csr_j offd)
           (csr_data offd'))"
proof (intro conjI impI)
  assume h: "SparseIJToCSR b ui ud A0 = Inr A
      \<and> csr_ok n (GetI A) (GetJ A) (GetData A)
      \<and> rows_distinct n (GetI A) (GetJ A)
      \<and> pattern_symmetric n (GetI A) (GetJ A)
      \<and> (\<forall>d \<in> set (ess_dofs b). 0 \<le> d \<and> d < n)"
  then obtain A' where e: "Eliminate (ess_dofs b) A = Inr A'"
    using Eliminate_succeeds[of n A "ess_dofs b"] by blast
  with h have "Assemble b ui ud A0 = Inr A'" by (simp add: Assemble_def)
  moreover from Eliminate_zeroes[OF e, of n] h
  have "rows_cols_zero n (ess_dofs b) (GetI A) (GetJ A) (GetData A')
      \<and> diagonal_is (ess_dofs b) (GetI A) (GetJ A) (\<lambda>p. GetData A ! nat p) (GetData A')"
    unfolding rows_cols_zero_def diagonal_is_def by blast
  ultimately show "\<exists>A'. Assemble b ui ud A0 = Inr A'
          \<and> rows_cols_zero n (ess_dofs b) (GetI A) (GetJ A) (GetData A')
          \<and> diagonal_is (ess_dofs b) (GetI A) (GetJ A) (\<lambda>p. GetData A ! nat p) (GetData A')"
    by blast
next
  assume h: "ParEliminate ess ec (diag, offd) = Inr (diag', offd')
      \<and> csr_ok (NumRows diag) (csr_i diag) (csr_j diag) (csr_data diag)
      \<and> rows_distinct (NumRows diag) (csr_i diag) (csr_j diag)
      \<and> pattern_symmetric (NumRows diag) (csr_i diag) (csr_j diag)
      \<and> csr_shape (NumRows offd) (csr_i offd) (csr_j offd) (csr_data offd)
      \<and> rows_distinct (NumRows offd) (csr_i offd) (csr_j offd)
      \<and> NumRows offd = NumRows diag
      \<and> (\<forall>d \<in> set ess. 0 \<le> d \<and> d < NumRows diag)"
  then have z: "csr_i diag' = csr_i diag \<and> csr_j diag' = csr_j diag
      \<and> csr_i offd' = csr_i offd \<and> csr_j offd' = csr_j offd
      \<and> (\<forall>d \<in> set ess.
           (\<forall>p \<in> set (row_slice (csr_i diag) d).
               csr_j diag ! nat p = d \<longrightarrow> csr_data diag' ! nat p = 1)
         \<and> (\<forall>p \<in> set (row_slice (csr_i diag) d).
               csr_j diag ! nat p \<noteq> d \<longrightarrow> csr_data diag' ! nat p = 0)
         \<and> (\<forall>r \<in> set [0..NumRows diag - 1]. \<forall>q \<in> set (row_slice (csr_i diag) r).
               r \<noteq> d \<and> csr_j diag ! nat q = d \<longrightarrow> csr_data diag' ! nat q = 0)
         \<and> (\<forall>p \<in> set (row_slice (csr_i offd) d). csr_data offd' ! nat p = 0))
      \<and> (\<forall>c \<in> set [0..NumCols offd - 1]. ec ! nat c \<noteq> 0 \<longrightarrow>
           (\<forall>i \<in> set [0..NumRows offd - 1]. \<forall>q \<in> set (row_slice (csr_i offd) i).
               csr_j offd ! nat q = c \<longrightarrow> csr_data offd' ! nat q = 0))"
    by (intro ParEliminate_zeroes) blast+
  from z show "csr_i diag' = csr_i diag" "csr_j diag' = csr_j diag"
     "csr_i offd' = csr_i offd" "csr_j offd' = csr_j offd"
    by blast+
  from z show "rows_cols_zero (NumRows diag) ess (csr_i diag) (csr_j diag) (csr_data diag')"
    unfolding rows_cols_zero_def by blast
  from z show "diagonal_is ess (csr_i diag) (csr_j diag) (\<lambda>p. 1) (csr_data diag')"
    unfolding diagonal_is_def by blast
  from z show "offd_eliminated (NumRows offd) (NumCols offd) ess ec (csr_i offd) (csr_j offd)
           (csr_data offd')"
    unfolding offd_eliminated_def by blast
qed

text \<open>
  Claim C5 as stated fails where the pattern is not symmetric: with a template that
  couples slot 1 with slot 0 only, DOF 0 essential, the entry \<open>(1, 0)\<close> of column 0
  keeps its value 5, since row 0 holds no entry \<open>(0, 1)\<close> to lead the loop to it.
\<close>

theorem unsymmetric_column_survives:
  "Assemble ex_unsym (\<lambda>_. 0) (\<lambda>_. 0) ex_empty
     = Inr \<lparr>Height = 2, Width = 2, GetI = [0, 1, 3], GetJ = [0, 0, 1], GetData = [1, 5, 2]\<rparr>
   \<and> ess_dofs ex_unsym = [0]
   \<and> \<not> rows_cols_zero 2 [0] [0, 1, 3] [0, 0, 1] [1, 5, 2]"
  by code_simp

text \<open>
  The amended C5 on the dense block of four DOFs with DOF 0 essential, and on a
  distributed matrix of two local rows with local DOF 0 essential and the first remote
  column marked.
\<close>

theorem elimination_rows_and_columns_witness:
  "Assemble ex_dense (\<lambda>_. 0) (\<lambda>_. 0) ex_empty
     = Inr \<lparr>Height = 4, Width = 4, GetI = [0, 4, 8, 12, 16],
         GetJ = [0, 1, 2, 3, 0, 1, 2, 3, 0, 1, 2, 3, 0, 1, 2, 3],
         GetData = [1, 0, 0, 0, 0, 6, 7, 8, 0, 10, 11, 12, 0, 14, 15, 16]\<rparr>
   \<and> rows_cols_zero 4 [0] [0, 4, 8, 12, 16] [0, 1, 2, 3, 0, 1, 2, 3, 0, 1, 2, 3, 0, 1, 2, 3]
        [1, 0, 0, 0, 0, 6, 7, 8, 0, 10, 11, 12, 0, 14, 15, 16]
   \<and> ParEliminate [0] [1, 0] (ex_diag, ex_offd)
     = Inr (ex_diag\<lparr>csr_data := [1, 0, 0, 4]\<rparr>, ex_offd\<lparr>csr_data := [0, 0, 0, 6]\<rparr>)
   \<and> rows_cols_zero 2 [0] (csr_i ex_diag) (csr_j ex_diag) [1, 0, 0, 4]
   \<and> diagonal_is [0] (csr_i ex_diag) (csr_j ex_diag) (\<lambda>p. 1) [1, 0, 0, 4]
   \<and> offd_eliminated 2 2 [0] [1, 0] (csr_i ex_offd) (csr_j ex_offd) [0, 0, 0, 6]"
proof -
  let ?A = "\<lparr>Height = 4, Width = 4, GetI = [0, 4, 8, 12, 16],
         GetJ = [0, 1, 2, 3, 0, 1, 2, 3, 0, 1, 2, 3, 0, 1, 2, 3],
         GetData = [1, 2, 3, 4, 5, 6, 7, 8, 9, 10, 11, 12, 13, 14, 15, 16]\<rparr>"
  have a: "SparseIJToCSR ex_dense (\<lambda>_. 0) (\<lambda>_. 0) ex_empty = Inr ?A"
    by code_simp
  have h: "csr_ok 4 (GetI ?A) (GetJ ?A) (GetData ?A) \<and> rows_distinct 4 (GetI ?A) (GetJ ?A)
      \<and> pattern_symmetric 4 (GetI ?A) (GetJ ?A)
      \<and> (\<forall>d \<in> set (ess_dofs ex_dense). 0 \<le> d \<and> d < 4)"
    by code_simp
  have e: "Assemble ex_dense (\<lambda>_. 0) (\<lambda>_. 0) ex_empty
     = Inr \<lparr>Height = 4, Width = 4, GetI = [0, 4, 8, 12, 16],
         GetJ = [0, 1, 2, 3, 0, 1, 2, 3, 0, 1, 2, 3, 0, 1, 2, 3],
         GetData = [1, 0, 0, 0, 0, 6, 7, 8, 0, 10, 11, 12, 0, 14, 15, 16]\<rparr>"
    by code_simp
  have p: "ParEliminate [0] [1, 0] (ex_diag, ex_offd)
     = Inr (ex_diag\<lparr>csr_data := [1, 0, 0, 4]\<rparr>, ex_offd\<lparr>csr_data := [0, 0, 0, 6]\<rparr>)"
    by code_simp
  have hp: "csr_ok (NumRows ex_diag) (csr_i ex_diag) (csr_j ex_diag) (csr_data ex_diag)
      \<and> rows_distinct (NumRows ex_diag) (csr_i ex_diag) (csr_j ex_diag)
      \<and> pattern_symmetric (NumRows ex_diag) (csr_i ex_diag) (csr_j ex_diag)
      \<and> csr_shape (NumRows ex_offd) (csr_i ex_offd) (csr_j ex_offd) (csr_data ex_offd)
      \<and> rows_distinct (NumRows ex_offd) (csr_i ex_offd) (csr_j ex_offd)
      \<and> NumRows ex_offd = NumRows ex_diag
      \<and> (\<forall>d \<in> set [0]. 0 \<le> d \<and> d < NumRows ex_diag)"
    by code_simp
  have n: "NumRows ex_diag = 2" "NumRows ex_offd = 2" "NumCols ex_offd = 2"
    "ess_dofs ex_dense = [0]"
    by (simp_all add: ex_diag_def ex_offd_def ex_dense_def)
  note t = elimination_rows_and_columns[of ex_dense "\<lambda>_. 0" "\<lambda>_. 0" ex_empty ?A 4
      "[0]" "[1, 0]" ex_diag ex_offd "ex_diag\<lparr>csr_data := [1, 0, 0, 4]\<rparr>"
      "ex_offd\<lparr>csr_data := [0, 0, 0, 6]\<rparr>"]
  from t a h e have 1: "rows_cols_zero 4 [0] [0, 4, 8, 12, 16]
        [0, 1, 2, 3, 0, 1, 2, 3, 0, 1, 2, 3, 0, 1, 2, 3]
        [1, 0, 0, 0, 0, 6, 7, 8, 0, 10, 11, 12, 0, 14, 15, 16]"
    unfolding n by auto
  from t p hp have 2: "rows_cols_zero 2 [0] (csr_i ex_diag) (csr_j ex_diag) [1, 0, 0, 4]
      \<and> diagonal_is [0] (csr_i ex_diag) (csr_j ex_diag) (\<lambda>p. 1) [1, 0, 0, 4]
      \<and> offd_eliminated 2 2 [0] [1, 0] (csr_i ex_offd) (csr_j ex_offd) [0, 0, 0, 6]"
    unfolding n by simp
  from e p 1 2 show ?thesis by simp
qed

subsection \<open>Index arithmetic\<close>

lemma sdiv_smod_nonneg:
  "0 \<le> a \<Longrightarrow> 0 < n \<Longrightarrow> a sdiv n = a div n \<and> a smod n = a mod (n :: int)"
  by (cases "a = 0")
     (auto simp: signed_divide_int_eq_divide_int signed_modulo_int_eq_modulo_int sgn_if)

lemma div_less_of_less_mult:
  assumes "0 < n" "0 \<le> x" "x < n * m"
  shows "x div n < (m :: int)"
proof (rule ccontr)
  assume "\<not> x div n < m"
  then have "n * m \<le> n * (x div n)" using assms(1) by (intro mult_left_mono) auto
  moreover have "n * (x div n) + x mod n = x" by simp
  moreover have "0 \<le> x mod n" using assms(1) by simp
  ultimately show False using assms(3) by linarith
qed

lemma flat2_bounds:
  assumes "0 \<le> a" "a < n1" "0 \<le> c" "c < n2"
  shows "0 \<le> a + n1 * c \<and> a + n1 * c < n1 * (n2 :: int)"
proof -
  have "n1 * c \<le> n1 * (n2 - 1)" using assms by (intro mult_left_mono) auto
  then have "a + n1 * c < n1 + n1 * (n2 - 1)" using assms by linarith
  moreover have "n1 + n1 * (n2 - 1) = n1 * n2" by (simp add: algebra_simps)
  moreover have "0 \<le> n1 * c" using assms by simp
  ultimately show ?thesis using assms by simp
qed

lemma rd2_in_range:
  assumes "0 \<le> a" "a < n1" "0 \<le> c" "c < n2" "int (length xs) = n1 * n2"
  shows "rd2 xs n1 n2 a c = Inr (xs ! nat (a + n1 * c))"
  using assms flat2_bounds[OF assms(1-4)] by (simp add: rd2_def rd_def)

lemma rd3_in_range:
  assumes "0 \<le> a" "a < n1" "0 \<le> c" "c < n2" "0 \<le> e" "e < n3"
    and "int (length xs) = n1 * (n2 * n3)"
  shows "rd3 xs n1 n2 n3 a c e = Inr (xs ! nat (a + n1 * (c + n2 * e)))"
proof -
  from flat2_bounds[OF assms(3-6)] have "0 \<le> c + n2 * e" "c + n2 * e < n2 * n3" by auto
  from flat2_bounds[OF assms(1,2) this] assms show ?thesis by (simp add: rd3_def rd_def)
qed

lemma edof_split:
  assumes "0 < n" "0 \<le> x" "x < n * m"
  shows "0 \<le> x mod n \<and> x mod n < n \<and> 0 \<le> x div n \<and> x div n < (m :: int)
     \<and> x mod n + n * (x div n) = x"
  using assms div_less_of_less_mult[OF assms] by (simp add: pos_imp_zdiv_nonneg_iff)

lemma edof_join:
  assumes "0 \<le> c" "c < n"
  shows "(c + n * e) mod n = c \<and> (c + n * e) div (n :: int) = e"
  using assms by simp

subsection \<open>Loops that always succeed\<close>

lemma efold_pure:
  assumes "Q s"
    and "\<And>x t. x \<in> set xs \<Longrightarrow> Q t \<Longrightarrow> f x t = Inr (g x t) \<and> Q (g x t)"
  shows "efold f xs s = Inr (foldl (\<lambda>t x. g x t) s xs) \<and> Q (foldl (\<lambda>t x. g x t) s xs)"
  using assms
proof (induction xs arbitrary: s)
  case Nil then show ?case by simp
next
  case (Cons x xs)
  from Cons.prems have 1: "f x s = Inr (g x s)" "Q (g x s)" by auto
  from Cons.IH[OF 1(2)] Cons.prems(2) 1 show ?case by simp
qed

lemma efold_cong:
  assumes "\<And>x t. x \<in> set xs \<Longrightarrow> f x t = g x t"
  shows "efold f xs s = efold g xs s"
  using assms by (induction xs arbitrary: s) (auto simp: ebind_def split: sum.splits)

lemma efold_filter_map:
  "efold (\<lambda>x t. if P x then g (h x) t else Inr t) xs s = efold g (map h (filter P xs)) s"
  by (induction xs arbitrary: s) (auto simp: ebind_def split: sum.splits)

lemma efold_concat:
  "efold f (concat xss) s = efold (\<lambda>xs. efold f xs) xss s"
  by (induction xss arbitrary: s) (auto simp: efold_append ebind_def split: sum.splits)

lemma efold_index:
  assumes "\<And>l t. l < length xs \<Longrightarrow> f (int l) t = Inr (g (xs ! l) t)"
  shows "efold f (map int [0..<length xs]) s = Inr (foldl (\<lambda>t x. g x t) s xs)"
  using assms
proof (induction xs rule: rev_induct)
  case Nil then show ?case by simp
next
  case (snoc x xs)
  have "efold f (map int [0..<length xs]) s = Inr (foldl (\<lambda>t x. g x t) s xs)"
  proof (rule snoc.IH)
    fix l t assume "l < length xs"
    then show "f (int l) t = Inr (g (xs ! l) t)"
      using snoc.prems[of l t] by (simp add: nth_append)
  qed
  moreover have "f (int (length xs)) t = Inr (g x t)" for t
    using snoc.prems[of "length xs" t] by simp
  ultimately show ?case by (simp add: efold_append)
qed

subsection \<open>Reads that are in range on a well-shaped input\<close>

lemma shapes_edof:
  assumes "shapes_ok b r" and "i \<in> set [0..n_edofs b - 1]"
  shows "0 \<le> i mod GetDof b \<and> i mod GetDof b < GetDof b
     \<and> 0 \<le> i div GetDof b \<and> i div GetDof b < GetNE b
     \<and> i mod GetDof b + GetDof b * (i div GetDof b) = i
     \<and> i smod GetDof b = i mod GetDof b \<and> i sdiv GetDof b = i div GetDof b"
proof -
  from assms have n: "0 < GetDof b" and i: "0 \<le> i" "i < GetDof b * GetNE b"
    by (auto simp: shapes_ok_def n_edofs_def)
  from edof_split[OF n i] sdiv_smod_nonneg[OF i(1) n] show ?thesis by simp
qed

lemma shapes_slot_edof:
  assumes "shapes_ok b r" and "0 \<le> c" "c < GetDof b" and "0 \<le> e" "e < GetNE b"
  shows "c + GetDof b * e \<in> set [0..n_edofs b - 1]"
  using flat2_bounds[OF assms(2-5)] by (simp add: n_edofs_def)

lemma shapes_gdof:
  assumes "shapes_ok b r" and "x \<in> set [0..n_edofs b - 1]"
  shows "0 \<le> gdof r x \<and> gdof r x < GetVSize b"
proof -
  from assms have "nat x < length (GatherMap r)" by (auto simp: shapes_ok_def)
  then have "GatherMap r ! nat x \<in> set (GatherMap r)" by simp
  with assms(1) show ?thesis by (auto simp: shapes_ok_def gdof_def sdof_def decode_nonneg)
qed

lemma shapes_el_dof_lex:
  assumes "shapes_ok b r" and "0 \<le> c" "c < GetDof b" and "0 \<le> e" "e < GetNE b"
  shows "el_dof_lex b r c e = Inr (sdof r (c + GetDof b * e))"
  using assms rd2_in_range[OF assms(2-5), of "GatherMap r"]
  by (simp add: el_dof_lex_def sdof_def shapes_ok_def n_edofs_def)

lemma shapes_map_at:
  assumes "shapes_ok b r" and "j \<in> set [0..sparse_mapping_Height b - 1]"
    and "0 \<le> a" "a < GetDof b"
  shows "map_at b j a = Inr (tmpl b j a) \<and> tmpl b j a < GetDof b"
proof -
  from assms(2) have j: "0 \<le> j" "j < sparse_mapping_Height b" by auto
  from assms(1) have len: "int (length (sparse_mapping b)) = sparse_mapping_Height b * GetDof b"
    by (simp add: shapes_ok_def)
  from flat2_bounds[OF j assms(3,4)] len
  have "nat (j + sparse_mapping_Height b * a) < length (sparse_mapping b)" by linarith
  then have "tmpl b j a \<in> set (sparse_mapping b)" by (simp add: tmpl_def)
  with assms(1) have "tmpl b j a < GetDof b" by (simp add: shapes_ok_def)
  with rd2_in_range[OF j assms(3,4) len] show ?thesis by (simp add: map_at_def tmpl_def)
qed

lemma shapes_V:
  assumes "shapes_ok b r" and "0 \<le> k" "k < sparse_mapping_Height b"
    and "0 \<le> a" "a < GetDof b" and "0 \<le> e" "e < GetNE b"
  shows "V b k a e = Inr (val_at b k a e)"
  using assms(1) rd3_in_range[OF assms(2-7), of "sparse_ij b"]
  by (simp add: V_def val_at_def shapes_ok_def)

lemma shapes_offsets:
  assumes "shapes_ok b r" and "0 \<le> d" "d < GetVSize b"
  shows "rd (Offsets r) d = Inr (Offsets r ! nat d)
     \<and> rd (Offsets r) (d + 1) = Inr (Offsets r ! nat (d + 1))
     \<and> 0 \<le> Offsets r ! nat d \<and> 0 \<le> inc_len r d
     \<and> Offsets r ! nat d + inc_len r d \<le> int (length (Indices r))"
proof -
  from assms(1) have len: "int (length (Offsets r)) = GetVSize b + 1" and s: "sorted (Offsets r)"
    and z: "0 \<le> Offsets r ! 0" and l: "Offsets r ! nat (GetVSize b) \<le> n_edofs b"
    and li: "int (length (Indices r)) = n_edofs b"
    by (auto simp: shapes_ok_def)
  have 1: "Offsets r ! 0 \<le> Offsets r ! nat d"
    using s len assms(2,3) by (intro sorted_nth_mono) auto
  have 2: "Offsets r ! nat d \<le> Offsets r ! nat (d + 1)"
    using s len assms(2,3) by (intro sorted_nth_mono) auto
  have 3: "Offsets r ! nat (d + 1) \<le> Offsets r ! nat (GetVSize b)"
    using s len assms(2,3) by (intro sorted_nth_mono) auto
  show ?thesis using 1 2 3 z l li len assms(2,3) by (simp add: rd_def inc_len_def)
qed

lemma shapes_inc_list:
  assumes "shapes_ok b r" and "0 \<le> d" "d < GetVSize b" and "s \<in> set (inc_list r d)"
  shows "0 \<le> elt_of b s \<and> elt_of b s < GetNE b \<and> 0 \<le> slot_of b s \<and> slot_of b s < GetDof b
     \<and> decode s \<in> set [0..n_edofs b - 1]
     \<and> slot_of b s + GetDof b * elt_of b s = decode s"
proof -
  from shapes_offsets[OF assms(1-3)] have o: "0 \<le> Offsets r ! nat d"
    "Offsets r ! nat d + inc_len r d \<le> int (length (Indices r))" by auto
  from assms(4) obtain t where t: "0 \<le> t" "t < inc_len r d"
    and s: "s = Indices r ! nat (Offsets r ! nat d + t)"
    by (auto simp: inc_list_def)
  from o t have "nat (Offsets r ! nat d + t) < length (Indices r)" by linarith
  with s have "s \<in> set (Indices r)" by simp
  with assms(1) have lt: "decode s < GetDof b * GetNE b" and n: "0 < GetDof b"
    by (auto simp: shapes_ok_def n_edofs_def)
  from edof_split[OF n decode_nonneg lt] lt show ?thesis
    by (simp add: elt_of_def slot_of_def n_edofs_def decode_nonneg)
qed

lemma length_inc_list: "length (inc_list r d) = nat (inc_len r d)"
  by (simp add: inc_list_def)

subsection \<open>The loops that fill the stack buffers\<close>

lemma FillI_elts_loop:
  assumes "0 < GetDof b" and "0 \<le> off" and "k \<le> nat Max16"
    and "off + int k \<le> int (length (Indices r))"
  shows "efold (FillI_elts_step b r off) (map int [0..<k]) (replicate (nat Max16) 0)
     = Inr (map (\<lambda>t. decode (Indices r ! nat (off + int t)) div GetDof b) [0..<k]
            @ replicate (nat Max16 - k) 0)"
  using assms(3,4)
proof (induction k)
  case 0 then show ?case by simp
next
  case (Suc k)
  let ?f = "\<lambda>t. decode (Indices r ! nat (off + int t)) div GetDof b"
  from Suc.prems have k: "k \<le> nat Max16" "off + int k \<le> int (length (Indices r))"
    and lt: "int k < Max16" "off + int k < int (length (Indices r))" by auto
  have rd: "rd (Indices r) (off + int k) = Inr (Indices r ! nat (off + int k))"
    using assms(2) lt by (simp add: rd_def)
  have upd: "(map ?f [0..<k] @ replicate (nat Max16 - k) 0)[k := ?f k]
      = map ?f [0..<Suc k] @ replicate (nat Max16 - Suc k) 0"
  proof -
    from lt have "nat Max16 - k = Suc (nat Max16 - Suc k)" by linarith
    then show ?thesis by (simp add: list_update_append)
  qed
  have step: "FillI_elts_step b r off (int k) (map ?f [0..<k] @ replicate (nat Max16 - k) 0)
      = Inr (map ?f [0..<Suc k] @ replicate (nat Max16 - Suc k) 0)"
    unfolding FillI_elts_step_def Let_def
    using rd lt upd sdiv_smod_nonneg[OF decode_nonneg assms(1)] by simp
  show ?case
    using Suc.IH[OF k] step by (simp add: efold_append)
qed

lemma FillI_elts_shapes:
  assumes "shapes_ok b r" and "0 \<le> d" "d < GetVSize b" and "inc_len r d \<le> Max16"
  shows "FillI_elts b r (Offsets r ! nat d) (inc_len r d)
     = Inr (elt_list b r d @ replicate (nat Max16 - nat (inc_len r d)) 0)"
proof -
  from shapes_offsets[OF assms(1-3)] have o: "0 \<le> Offsets r ! nat d" "0 \<le> inc_len r d"
    "Offsets r ! nat d + inc_len r d \<le> int (length (Indices r))" by auto
  from assms(1) have n: "0 < GetDof b" by (simp add: shapes_ok_def)
  have "elt_list b r d
      = map (\<lambda>t. decode (Indices r ! nat (Offsets r ! nat d + int t)) div GetDof b)
          [0..<nat (inc_len r d)]"
    by (simp add: elt_list_def inc_list_def elt_of_def upto_as_map comp_def)
  with FillI_elts_loop[OF n o(1), of "nat (inc_len r d)" r] o assms(4)
  show ?thesis by (simp add: FillI_elts_def upto_as_map)
qed

lemma rdb_append:
  assumes "l < length xs"
  shows "rdb (xs @ t) (int l) = Inr (xs ! l)"
  using assms by (simp add: rdb_def nth_append)

lemma GetMinElt_find_refine:
  assumes "\<forall>j \<in> set js. 0 \<le> j \<and> nat j < length ys"
  shows "GetMinElt_find e (ys @ t) js = Inr (e \<in> (\<lambda>j. ys ! nat j) ` set js)"
  using assms
proof (induction js)
  case Nil
  show ?case by simp
next
  case (Cons j js)
  from Cons.prems have j: "0 \<le> j" "nat j < length ys" by simp_all
  from rdb_append[OF j(2), of t] j(1) have r: "rdb (ys @ t) j = Inr (ys ! nat j)" by simp
  from Cons.prems have "GetMinElt_find e (ys @ t) js = Inr (e \<in> (\<lambda>j. ys ! nat j) ` set js)"
    by (intro Cons.IH) simp
  with r show ?case by auto
qed

text \<open>
  On buffers that hold the two lists in their first cells, \<^verbatim>\<open>GetMinElt\<close> reads inside
  the buffers and returns the least common element of the lists.
\<close>

lemma GetMinElt_refine:
  assumes "length xs = nat n" and "length ys = nat m"
  shows "GetMinElt (xs @ t1) n (ys @ t2) m = Inr (common_min xs n ys m)"
proof -
  have js: "\<forall>j \<in> set [0..m - 1]. 0 \<le> j \<and> nat j < length ys" using assms(2) by auto
  have im: "(\<lambda>j. ys ! nat j) ` set [0..m - 1] = set (take (nat m) ys)"
  proof (cases "0 \<le> m")
    case True
    with assms(2) have "m = int (length ys)" by simp
    then show ?thesis using nth_image_upto[of ys] by simp
  next
    case False
    then show ?thesis by simp
  qed
  have step: "GetMinElt_step (xs @ t1) (ys @ t2) m (int l) t
      = Inr (common_min_step ys m t (xs ! l))" if "l < length xs" for l t
    unfolding GetMinElt_step_def common_min_step_def
    using rdb_append[OF that, of t1] GetMinElt_find_refine[OF js, of _ t2] im
    by simp
  have "efold (GetMinElt_step (xs @ t1) (ys @ t2) m) (map int [0..<length xs]) INT_MAX
      = Inr (foldl (\<lambda>t x. common_min_step ys m t x) INT_MAX xs)"
    by (rule efold_index) (rule step)
  then show ?thesis using assms(1) by (simp add: GetMinElt_def common_min_def upto_as_map)
qed

subsection \<open>The row-count pass, iteration by iteration\<close>

lemma degree_inc_len:
  assumes "shapes_ok b r" and "degree_ok r" and "0 \<le> d" "d < GetVSize b"
  shows "inc_len r d \<le> Max16"
proof -
  from assms(1) have "int (length (Offsets r)) = GetVSize b + 1" by (simp add: shapes_ok_def)
  with assms(3,4) have "d \<in> set [0..int (length (Offsets r)) - 2]" by simp
  with assms(2) show ?thesis by (simp add: degree_ok_def inc_len_def)
qed

lemma length_elt_list: "length (elt_list b r d) = nat (inc_len r d)"
  by (simp add: elt_list_def length_inc_list)

lemma AtomicAdd_bump:
  assumes "0 \<le> ii" "ii < int (length I)"
  shows "AtomicAdd I ii 1 = Inr (I ! nat ii, bump I ii)"
  using assms by (simp add: AtomicAdd_eq_Inr bump_def)

lemma col_edof_in_range:
  assumes "shapes_ok b r" and "i \<in> set [0..n_edofs b - 1]"
    and "j \<in> set [0..sparse_mapping_Height b - 1]" and "0 \<le> col_slot b i j"
  shows "col_edof b i j \<in> set [0..n_edofs b - 1] \<and> col_slot b i j < GetDof b
     \<and> el_dof_lex b r (col_slot b i j) (i div GetDof b) = Inr (sdof r (col_edof b i j))"
proof -
  note e = shapes_edof[OF assms(1,2)]
  from shapes_map_at[OF assms(1,3), of "i mod GetDof b"] e
  have c: "col_slot b i j < GetDof b" by (simp add: col_slot_def)
  from shapes_slot_edof[OF assms(1,4) c, of "i div GetDof b"] e
    shapes_el_dof_lex[OF assms(1,4) c, of "i div GetDof b"] c
  show ?thesis by (simp add: col_edof_def)
qed

lemma FillI_j_refine:
  assumes sh: "shapes_ok b r" and dg: "degree_ok r"
    and i: "i \<in> set [0..n_edofs b - 1]" and j: "j \<in> set [0..sparse_mapping_Height b - 1]"
    and len: "int (length I) = GetVSize b + 1"
  shows "FillI_j b r (gdof r i) (i mod GetDof b) (i div GetDof b) (inc_len r (gdof r i))
           (elt_list b r (gdof r i) @ replicate (nat Max16 - nat (inc_len r (gdof r i))) 0) j I
     = Inr (if emits b r i j then bump I (gdof r i) else I)"
proof -
  note e = shapes_edof[OF sh i]
  note gi = shapes_gdof[OF sh i]
  from shapes_map_at[OF sh j, of "i mod GetDof b"] e
  have m: "map_at b j (i mod GetDof b) = Inr (col_slot b i j)" by (simp add: col_slot_def)
  show ?thesis
  proof (cases "0 \<le> col_slot b i j")
    case False
    then show ?thesis unfolding FillI_j_def using m by (simp add: emits_def)
  next
    case True
    note c = col_edof_in_range[OF sh i j True]
    let ?y = "col_edof b i j"
    have gy: "0 \<le> gdof r ?y" "gdof r ?y < GetVSize b" using shapes_gdof[OF sh] c by auto
    note oy = shapes_offsets[OF sh gy]
    have aa: "AtomicAdd I (gdof r i) 1 = Inr (I ! nat (gdof r i), bump I (gdof r i))"
      using gi len by (intro AtomicAdd_bump) auto
    have dj: "decode (sdof r ?y) = gdof r ?y" by (simp add: gdof_def)
    have jn: "Offsets r ! nat (gdof r ?y + 1) - Offsets r ! nat (gdof r ?y) = inc_len r (gdof r ?y)"
      by (simp add: inc_len_def)
    show ?thesis
    proof (cases "no_conflict r (gdof r i) (gdof r ?y)")
      case nc: True
      then have "emits b r i j" using True by (simp add: emits_def Let_def)
      moreover from nc have "inc_len r (gdof r i) = 1 \<or> inc_len r (gdof r ?y) = 1"
        by (simp add: no_conflict_def)
      ultimately show ?thesis
        unfolding FillI_j_def Let_def using m True c oy aa dj jn by simp
    next
      case cf: False
      then have ne: "\<not> (inc_len r (gdof r i) = 1 \<or> inc_len r (gdof r ?y) = 1)"
        by (simp add: no_conflict_def)
      have fe: "FillI_elts b r (Offsets r ! nat (gdof r ?y)) (inc_len r (gdof r ?y))
          = Inr (elt_list b r (gdof r ?y) @ replicate (nat Max16 - nat (inc_len r (gdof r ?y))) 0)"
        by (rule FillI_elts_shapes[OF sh gy degree_inc_len[OF sh dg gy]])
      have gm: "GetMinElt
            (elt_list b r (gdof r i) @ replicate (nat Max16 - nat (inc_len r (gdof r i))) 0)
            (inc_len r (gdof r i))
            (elt_list b r (gdof r ?y) @ replicate (nat Max16 - nat (inc_len r (gdof r ?y))) 0)
            (inc_len r (gdof r ?y))
          = Inr (common_min (elt_list b r (gdof r i)) (inc_len r (gdof r i))
                   (elt_list b r (gdof r ?y)) (inc_len r (gdof r ?y)))"
        by (rule GetMinElt_refine) (simp_all add: length_elt_list)
      have em: "emits b r i j \<longleftrightarrow> i div GetDof b
          = common_min (elt_list b r (gdof r i)) (inc_len r (gdof r i))
              (elt_list b r (gdof r ?y)) (inc_len r (gdof r ?y))"
        using True cf by (simp add: emits_def Let_def)
      show ?thesis
        unfolding FillI_j_def Let_def using m True c oy aa dj jn ne fe gm em by simp
    qed
  qed
qed

lemma length_bump [simp]: "length (bump I d) = length I"
  by (simp add: bump_def)

lemma FillI_row_refine:
  assumes sh: "shapes_ok b r" and dg: "degree_ok r"
    and i: "i \<in> set [0..n_edofs b - 1]" and len: "int (length I) = GetVSize b + 1"
  shows "FillI_row b r i I = Inr (foldl bump I (map fst (events b r i)))"
proof -
  note e = shapes_edof[OF sh i]
  note gi = shapes_gdof[OF sh i]
  note oi = shapes_offsets[OF sh gi[THEN conjunct1] gi[THEN conjunct2]]
  have el: "el_dof_lex b r (i mod GetDof b) (i div GetDof b) = Inr (sdof r i)"
    using shapes_el_dof_lex[OF sh, of "i mod GetDof b" "i div GetDof b"] e by simp
  have fe: "FillI_elts b r (Offsets r ! nat (gdof r i)) (inc_len r (gdof r i))
      = Inr (elt_list b r (gdof r i) @ replicate (nat Max16 - nat (inc_len r (gdof r i))) 0)"
    using FillI_elts_shapes[OF sh _ _ degree_inc_len[OF sh dg]] gi by simp
  let ?buf = "elt_list b r (gdof r i) @ replicate (nat Max16 - nat (inc_len r (gdof r i))) 0"
  let ?js = "[0..sparse_mapping_Height b - 1]"
  have loop: "efold (FillI_j b r (gdof r i) (i mod GetDof b) (i div GetDof b)
        (inc_len r (gdof r i)) ?buf) ?js I
      = Inr (foldl (\<lambda>t j. if emits b r i j then bump t (gdof r i) else t) I ?js)"
    using efold_pure[where Q = "\<lambda>t. int (length t) = GetVSize b + 1"
        and f = "FillI_j b r (gdof r i) (i mod GetDof b) (i div GetDof b) (inc_len r (gdof r i)) ?buf"
        and g = "\<lambda>j t. if emits b r i j then bump t (gdof r i) else t" and xs = ?js and s = I]
      FillI_j_refine[OF sh dg i] len
    by simp
  have fst_entry: "fst (entry b r i j) = gdof r i" for j by (simp add: entry_def Let_def)
  have "foldl (\<lambda>t j. if emits b r i j then bump t (gdof r i) else t) I js
      = foldl bump I (map fst (map (entry b r i) (filter (emits b r i) js)))" for js
    by (induction js arbitrary: I) (simp_all add: fst_entry)
  with loop have loop': "efold (FillI_j b r (gdof r i) (i mod GetDof b) (i div GetDof b)
        (inc_len r (gdof r i)) ?buf) ?js I = Inr (foldl bump I (map fst (events b r i)))"
    by (simp add: events_def)
  have dj: "decode (sdof r i) = gdof r i" by (simp add: gdof_def)
  have jn: "Offsets r ! nat (gdof r i + 1) - Offsets r ! nat (gdof r i) = inc_len r (gdof r i)"
    by (simp add: inc_len_def)
  show ?thesis
    unfolding FillI_row_def Let_def using e el oi fe loop' dj jn by simp
qed

lemma foldl_bump_length [simp]: "length (foldl bump I ds) = length I"
  by (induction ds arbitrary: I) simp_all

lemma count_loop_refine:
  assumes sh: "shapes_ok b r" and dg: "degree_ok r"
    and s: "set sched \<subseteq> set [0..n_edofs b - 1]" and len: "int (length I) = GetVSize b + 1"
  shows "efold (FillI_row b r) sched I
     = Inr (foldl bump I (map fst (concat (map (events b r) sched))))"
  using s len
proof (induction sched arbitrary: I)
  case Nil then show ?case by simp
next
  case (Cons i sched)
  from Cons.prems have i: "i \<in> set [0..n_edofs b - 1]" by auto
  have l: "int (length (foldl bump I (map fst (events b r i)))) = GetVSize b + 1"
    using Cons.prems(2) by simp
  from FillI_row_refine[OF sh dg i Cons.prems(2)] Cons.IH[OF _ l] Cons.prems(1)
  show ?case by simp
qed

subsection \<open>The fill pass, iteration by iteration\<close>

lemma B_of_decode:
  assumes "0 < GetDof b"
  shows "decode (B_of b s) = slot_of b s \<and> (0 \<le> B_of b s) = (0 \<le> s)"
proof -
  have "0 \<le> slot_of b s" using assms by (simp add: slot_of_def)
  then show ?thesis by (auto simp: B_of_def decode_def)
qed

lemma sgn_of_B_of: "0 < GetDof b \<Longrightarrow> sgn_of (B_of b sl) (B_of b sk) = sgn_of sl sk"
  using B_of_decode[of b sl] B_of_decode[of b sk] by (auto simp: sgn_of_def)

lemma FillJ_elts_loop:
  assumes "0 < GetDof b" and "0 \<le> off" and "k \<le> nat Max16"
    and "off + int k \<le> int (length (Indices r))"
  shows "efold (FillJ_elts_step b r off) (map int [0..<k])
           (replicate (nat Max16) 0, replicate (nat Max16) 0)
     = Inr (map (\<lambda>t. elt_of b (Indices r ! nat (off + int t))) [0..<k]
              @ replicate (nat Max16 - k) 0,
            map (\<lambda>t. B_of b (Indices r ! nat (off + int t))) [0..<k]
              @ replicate (nat Max16 - k) 0)"
  using assms(3,4)
proof (induction k)
  case 0 then show ?case by simp
next
  case (Suc k)
  let ?f = "\<lambda>t. elt_of b (Indices r ! nat (off + int t))"
  let ?g = "\<lambda>t. B_of b (Indices r ! nat (off + int t))"
  from Suc.prems have k: "k \<le> nat Max16" "off + int k \<le> int (length (Indices r))"
    and lt: "int k < Max16" "off + int k < int (length (Indices r))" by auto
  have rd: "rd (Indices r) (off + int k) = Inr (Indices r ! nat (off + int k))"
    using assms(2) lt by (simp add: rd_def)
  from lt have pad: "nat Max16 - k = Suc (nat Max16 - Suc k)" by linarith
  have upd: "(map h [0..<k] @ replicate (nat Max16 - k) 0)[k := h k]
      = map h [0..<Suc k] @ replicate (nat Max16 - Suc k) 0" for h :: "nat \<Rightarrow> int"
    using pad by (simp add: list_update_append)
  let ?s = "Indices r ! nat (off + int k)"
  have d: "(if 0 \<le> ?s then ?s else -1 - ?s) = decode ?s" by (simp add: decode_def)
  have E: "(if 0 \<le> ?s then ?s else -1 - ?s) sdiv GetDof b = ?f k"
    unfolding d using sdiv_smod_nonneg[OF decode_nonneg assms(1), of ?s] by (simp add: elt_of_def)
  have B: "(if 0 \<le> ?s then (if 0 \<le> ?s then ?s else -1 - ?s) smod GetDof b
            else -1 - (if 0 \<le> ?s then ?s else -1 - ?s) smod GetDof b) = ?g k"
    unfolding d using sdiv_smod_nonneg[OF decode_nonneg assms(1), of ?s]
    by (simp add: B_of_def slot_of_def)
  have step: "FillJ_elts_step b r off (int k)
        (map ?f [0..<k] @ replicate (nat Max16 - k) 0, map ?g [0..<k] @ replicate (nat Max16 - k) 0)
      = Inr (map ?f [0..<Suc k] @ replicate (nat Max16 - Suc k) 0,
             map ?g [0..<Suc k] @ replicate (nat Max16 - Suc k) 0)"
    unfolding FillJ_elts_step_def Let_def
    using rd lt E B upd[of ?f] upd[of ?g] by simp
  show ?case
    using Suc.IH[OF k] step by (simp add: efold_append)
qed

lemma FillJ_elts_shapes:
  assumes "shapes_ok b r" and "0 \<le> d" "d < GetVSize b" and "inc_len r d \<le> Max16"
  shows "FillJ_elts b r (Offsets r ! nat d) (inc_len r d)
     = Inr (elt_list b r d @ replicate (nat Max16 - nat (inc_len r d)) 0,
            map (B_of b) (inc_list r d) @ replicate (nat Max16 - nat (inc_len r d)) 0)"
proof -
  from shapes_offsets[OF assms(1-3)] have o: "0 \<le> Offsets r ! nat d" "0 \<le> inc_len r d"
    "Offsets r ! nat d + inc_len r d \<le> int (length (Indices r))" by auto
  from assms(1) have n: "0 < GetDof b" by (simp add: shapes_ok_def)
  have 1: "elt_list b r d
      = map (\<lambda>t. elt_of b (Indices r ! nat (Offsets r ! nat d + int t))) [0..<nat (inc_len r d)]"
    by (simp add: elt_list_def inc_list_def upto_as_map comp_def)
  have 2: "map (B_of b) (inc_list r d)
      = map (\<lambda>t. B_of b (Indices r ! nat (Offsets r ! nat d + int t))) [0..<nat (inc_len r d)]"
    by (simp add: inc_list_def upto_as_map comp_def)
  from FillJ_elts_loop[OF n o(1), of "nat (inc_len r d)" r] o assms(4)
  show ?thesis unfolding 1 2 by (simp add: FillJ_elts_def upto_as_map)
qed

lemma find_nonzero_lookup:
  assumes "shapes_ok b r" and "0 \<le> a" "a < GetDof b"
    and "set ms \<subseteq> set [0..sparse_mapping_Height b - 1]"
  shows "find_nonzero b a c ms
     = Inr (case find (\<lambda>m. tmpl b m a = c) ms of Some m \<Rightarrow> m | None \<Rightarrow> -1)"
  using assms(4)
proof (induction ms)
  case Nil then show ?case by simp
next
  case (Cons m ms)
  then have "m \<in> set [0..sparse_mapping_Height b - 1]" by auto
  from shapes_map_at[OF assms(1) this assms(2,3)] Cons show ?case by simp
qed

lemma lookup_bounds:
  assumes "0 \<le> lookup b a c"
  shows "lookup b a c < sparse_mapping_Height b \<and> tmpl b (lookup b a c) a = c"
proof (cases "find (\<lambda>m. tmpl b m a = c) [0..sparse_mapping_Height b - 1]")
  case None with assms show ?thesis by (simp add: lookup_def)
next
  case (Some m)
  then have "m \<in> set [0..sparse_mapping_Height b - 1]" "tmpl b m a = c"
    by (auto simp: find_Some_iff in_set_conv_nth) 
  with Some show ?thesis by (simp add: lookup_def)
qed

lemma accum_l_refine:
  assumes sh: "shapes_ok b r"
    and sk: "0 \<le> slot_of b sk" "slot_of b sk < GetDof b" "0 \<le> elt_of b sk" "elt_of b sk < GetNE b"
    and l: "l < length ls"
    and ok: "elt_of b sk = elt_of b (ls ! l) \<longrightarrow> 0 \<le> lookup b (slot_of b sk) (slot_of b (ls ! l))"
  shows "accum_l b (elt_of b sk) (B_of b sk) (slot_of b sk)
           (map (elt_of b) ls @ pad1) (map (B_of b) ls @ pad2) (int l) val
     = Inr (if elt_of b sk = elt_of b (ls ! l) then val + acc_term b sk (ls ! l) else val)"
proof -
  from sh have n: "0 < GetDof b" by (simp add: shapes_ok_def)
  have nth: "rdb (map (elt_of b) ls @ pad1) (int l) = Inr (elt_of b (ls ! l))"
    "rdb (map (B_of b) ls @ pad2) (int l) = Inr (B_of b (ls ! l))"
    using l rdb_append[of l "map (elt_of b) ls" pad1] rdb_append[of l "map (B_of b) ls" pad2]
    by simp_all
  show ?thesis
  proof (cases "elt_of b sk = elt_of b (ls ! l)")
    case False
    then show ?thesis unfolding accum_l_def Let_def using nth by simp
  next
    case True
    with ok have lk: "0 \<le> lookup b (slot_of b sk) (slot_of b (ls ! l))" by simp
    from lookup_bounds[OF lk] have lb: "lookup b (slot_of b sk) (slot_of b (ls ! l))
        < sparse_mapping_Height b" by simp
    have f: "find_nonzero b (slot_of b sk) (slot_of b (ls ! l)) [0..sparse_mapping_Height b - 1]
        = Inr (lookup b (slot_of b sk) (slot_of b (ls ! l)))"
      using find_nonzero_lookup[OF sh sk(1,2), of "[0..sparse_mapping_Height b - 1]"]
      by (simp add: lookup_def)
    have v: "V b (lookup b (slot_of b sk) (slot_of b (ls ! l))) (slot_of b sk) (elt_of b sk)
        = Inr (val_at b (lookup b (slot_of b sk) (slot_of b (ls ! l))) (slot_of b sk) (elt_of b sk))"
      by (rule shapes_V[OF sh lk lb sk])
    show ?thesis
      unfolding accum_l_def Let_def
      using True nth f v B_of_decode[OF n] sgn_of_B_of[OF n]
      by (simp add: acc_term_def)
  qed
qed

lemma accum_refine:
  assumes sh: "shapes_ok b r"
    and ks: "\<forall>s \<in> set ks. 0 \<le> slot_of b s \<and> slot_of b s < GetDof b
              \<and> 0 \<le> elt_of b s \<and> elt_of b s < GetNE b"
    and ok: "\<forall>sk \<in> set ks. \<forall>sl \<in> set ls.
        elt_of b sk = elt_of b sl \<longrightarrow> 0 \<le> lookup b (slot_of b sk) (slot_of b sl)"
    and nk: "i_ne = int (length ks)" and nl: "j_ne = int (length ls)"
  shows "efold (accum_k b (map (elt_of b) ks @ pad1) (map (B_of b) ks @ pad2) j_ne
                  (map (elt_of b) ls @ pad3) (map (B_of b) ls @ pad4)) [0..i_ne - 1] 0
     = Inr (foldl (\<lambda>val sk.
              foldl (\<lambda>val sl. if elt_of b sk = elt_of b sl then val + acc_term b sk sl else val)
                val ls) 0 ks)"
proof -
  from sh have n: "0 < GetDof b" by (simp add: shapes_ok_def)
  let ?inner = "\<lambda>sk val. foldl (\<lambda>val sl. if elt_of b sk = elt_of b sl
      then val + acc_term b sk sl else val) val ls"
  have k_step: "accum_k b (map (elt_of b) ks @ pad1) (map (B_of b) ks @ pad2) j_ne
        (map (elt_of b) ls @ pad3) (map (B_of b) ls @ pad4) (int k) val
      = Inr (?inner (ks ! k) val)" if k: "k < length ks" for k val
  proof -
    have nth: "rdb (map (elt_of b) ks @ pad1) (int k) = Inr (elt_of b (ks ! k))"
      "rdb (map (B_of b) ks @ pad2) (int k) = Inr (B_of b (ks ! k))"
      using k rdb_append[of k "map (elt_of b) ks" pad1] rdb_append[of k "map (B_of b) ks" pad2]
      by simp_all
    from k have mem: "ks ! k \<in> set ks" by simp
    have "efold (accum_l b (elt_of b (ks ! k)) (B_of b (ks ! k)) (slot_of b (ks ! k))
            (map (elt_of b) ls @ pad3) (map (B_of b) ls @ pad4)) (map int [0..<length ls]) val
        = Inr (?inner (ks ! k) val)"
    proof (rule efold_index)
      fix l t assume l: "l < length ls"
      then have "ls ! l \<in> set ls" by simp
      with ok mem have "elt_of b (ks ! k) = elt_of b (ls ! l)
          \<longrightarrow> 0 \<le> lookup b (slot_of b (ks ! k)) (slot_of b (ls ! l))" by blast
      with accum_l_refine[OF sh _ _ _ _ l, of "ks ! k" pad3 pad4 t] ks mem
      show "accum_l b (elt_of b (ks ! k)) (B_of b (ks ! k)) (slot_of b (ks ! k))
            (map (elt_of b) ls @ pad3) (map (B_of b) ls @ pad4) (int l) t
          = Inr (if elt_of b (ks ! k) = elt_of b (ls ! l) then t + acc_term b (ks ! k) (ls ! l)
                 else t)"
        by blast
    qed
    then show ?thesis
      unfolding accum_k_def Let_def using nth nl B_of_decode[OF n]
      by (simp add: upto_as_map)
  qed
  have "efold (accum_k b (map (elt_of b) ks @ pad1) (map (B_of b) ks @ pad2) j_ne
                  (map (elt_of b) ls @ pad3) (map (B_of b) ls @ pad4)) (map int [0..<length ks]) 0
     = Inr (foldl (\<lambda>val sk. ?inner sk val) 0 ks)"
    by (rule efold_index) (use k_step in blast)
  then show ?thesis using nk by (simp add: upto_as_map)
qed

lemma put_event_unfold:
  "put_event (ii, jj, v) (I, J, AV) =
     ebind (GetAndIncrementNnzIndex ii I) (\<lambda>(nnz, I').
     ebind (wr J nnz jj) (\<lambda>J'.
     ebind (wr AV nnz v) (\<lambda>AV'.
     Inr (I', J', AV'))))"
  by (simp add: put_event_def)

lemma FillJ_j_refine:
  assumes sh: "shapes_ok b r" and dg: "degree_ok r" and lk: "lookups_ok b r"
    and i: "i \<in> set [0..n_edofs b - 1]" and j: "j \<in> set [0..sparse_mapping_Height b - 1]"
  shows "FillJ_j b r (sdof r i) (gdof r i) (i mod GetDof b) (i div GetDof b) (inc_len r (gdof r i))
           (elt_list b r (gdof r i) @ replicate (nat Max16 - nat (inc_len r (gdof r i))) 0)
           (map (B_of b) (inc_list r (gdof r i))
              @ replicate (nat Max16 - nat (inc_len r (gdof r i))) 0) j s
     = (if emits b r i j then put_event (entry b r i j) s else Inr s)"
proof -
  obtain I J AV where s: "s = (I, J, AV)" by (cases s) auto
  note e = shapes_edof[OF sh i]
  note gi = shapes_gdof[OF sh i]
  from shapes_map_at[OF sh j, of "i mod GetDof b"] e
  have m: "map_at b j (i mod GetDof b) = Inr (col_slot b i j)" by (simp add: col_slot_def)
  show ?thesis
  proof (cases "0 \<le> col_slot b i j")
    case False
    then show ?thesis unfolding FillJ_j_def s using m by (simp add: emits_def)
  next
    case True
    note c = col_edof_in_range[OF sh i j True]
    let ?y = "col_edof b i j"
    have gy: "0 \<le> gdof r ?y" "gdof r ?y < GetVSize b" using shapes_gdof[OF sh] c by auto
    note oy = shapes_offsets[OF sh gy]
    have dj: "decode (sdof r ?y) = gdof r ?y" by (simp add: gdof_def)
    have jn: "Offsets r ! nat (gdof r ?y + 1) - Offsets r ! nat (gdof r ?y) = inc_len r (gdof r ?y)"
      by (simp add: inc_len_def)
    from j have jr: "0 \<le> j" "j < sparse_mapping_Height b" by auto
    show ?thesis
    proof (cases "no_conflict r (gdof r i) (gdof r ?y)")
      case nc: True
      then have em: "emits b r i j" using True by (simp add: emits_def Let_def)
      from nc have n1: "inc_len r (gdof r i) = 1 \<or> inc_len r (gdof r ?y) = 1"
        by (simp add: no_conflict_def)
      have v: "V b j (i mod GetDof b) (i div GetDof b)
          = Inr (val_at b j (i mod GetDof b) (i div GetDof b))"
        using shapes_V[OF sh jr, of "i mod GetDof b" "i div GetDof b"] e by simp
      have en: "entry b r i j = (gdof r i, gdof r ?y,
          of_int (sgn_of (sdof r ?y) (sdof r i)) * val_at b j (i mod GetDof b) (i div GetDof b))"
        using nc by (simp add: entry_def Let_def)
      show ?thesis
        unfolding FillJ_j_def Let_def s en put_event_unfold
        using m True c oy dj jn n1 v em by simp
    next
      case cf: False
      then have ne: "\<not> (inc_len r (gdof r i) = 1 \<or> inc_len r (gdof r ?y) = 1)"
        by (simp add: no_conflict_def)
      have fe: "FillJ_elts b r (Offsets r ! nat (gdof r ?y)) (inc_len r (gdof r ?y))
          = Inr (elt_list b r (gdof r ?y) @ replicate (nat Max16 - nat (inc_len r (gdof r ?y))) 0,
                 map (B_of b) (inc_list r (gdof r ?y))
                   @ replicate (nat Max16 - nat (inc_len r (gdof r ?y))) 0)"
        by (rule FillJ_elts_shapes[OF sh gy degree_inc_len[OF sh dg gy]])
      have gm: "GetMinElt
            (elt_list b r (gdof r i) @ replicate (nat Max16 - nat (inc_len r (gdof r i))) 0)
            (inc_len r (gdof r i))
            (elt_list b r (gdof r ?y) @ replicate (nat Max16 - nat (inc_len r (gdof r ?y))) 0)
            (inc_len r (gdof r ?y))
          = Inr (common_min (elt_list b r (gdof r i)) (inc_len r (gdof r i))
                   (elt_list b r (gdof r ?y)) (inc_len r (gdof r ?y)))"
        by (rule GetMinElt_refine) (simp_all add: length_elt_list)
      have em: "emits b r i j \<longleftrightarrow> i div GetDof b
          = common_min (elt_list b r (gdof r i)) (inc_len r (gdof r i))
              (elt_list b r (gdof r ?y)) (inc_len r (gdof r ?y))"
        using True cf by (simp add: emits_def Let_def)
      show ?thesis
      proof (cases "emits b r i j")
        case False
        then show ?thesis
          unfolding FillJ_j_def Let_def s using m True c oy dj jn ne fe gm em by simp
      next
        case emt: True
        have ks: "\<forall>s \<in> set (inc_list r (gdof r i)). 0 \<le> slot_of b s \<and> slot_of b s < GetDof b
              \<and> 0 \<le> elt_of b s \<and> elt_of b s < GetNE b"
          using shapes_inc_list[OF sh gi[THEN conjunct1] gi[THEN conjunct2]] by blast
        have ok: "\<forall>sk \<in> set (inc_list r (gdof r i)). \<forall>sl \<in> set (inc_list r (gdof r ?y)).
            elt_of b sk = elt_of b sl \<longrightarrow> 0 \<le> lookup b (slot_of b sk) (slot_of b sl)"
          using lk[unfolded lookups_ok_def, rule_format, OF i j] emt cf by blast
        have li: "inc_len r (gdof r i) = int (length (inc_list r (gdof r i)))"
          using shapes_offsets[OF sh gi[THEN conjunct1] gi[THEN conjunct2]]
          by (simp add: length_inc_list)
        have lj: "inc_len r (gdof r ?y) = int (length (inc_list r (gdof r ?y)))"
          using oy by (simp add: length_inc_list)
        have acc: "efold (accum_k b
              (elt_list b r (gdof r i) @ replicate (nat Max16 - nat (inc_len r (gdof r i))) 0)
              (map (B_of b) (inc_list r (gdof r i))
                 @ replicate (nat Max16 - nat (inc_len r (gdof r i))) 0)
              (inc_len r (gdof r ?y))
              (elt_list b r (gdof r ?y) @ replicate (nat Max16 - nat (inc_len r (gdof r ?y))) 0)
              (map (B_of b) (inc_list r (gdof r ?y))
                 @ replicate (nat Max16 - nat (inc_len r (gdof r ?y))) 0))
            [0..inc_len r (gdof r i) - 1] 0
          = Inr (acc_val b r (gdof r i) (gdof r ?y))"
          unfolding elt_list_def acc_val_def
          by (rule accum_refine[OF sh ks ok li lj])
        have en: "entry b r i j = (gdof r i, gdof r ?y, acc_val b r (gdof r i) (gdof r ?y))"
          using cf by (simp add: entry_def Let_def)
        show ?thesis
          unfolding FillJ_j_def Let_def s en put_event_unfold
          using m True c oy dj jn ne fe gm em emt acc by simp
      qed
    qed
  qed
qed

lemma FillJ_row_refine:
  assumes sh: "shapes_ok b r" and dg: "degree_ok r" and lk: "lookups_ok b r"
    and i: "i \<in> set [0..n_edofs b - 1]"
  shows "FillJ_row b r i s = efold put_event (events b r i) s"
proof -
  note e = shapes_edof[OF sh i]
  note gi = shapes_gdof[OF sh i]
  note oi = shapes_offsets[OF sh gi[THEN conjunct1] gi[THEN conjunct2]]
  have el: "el_dof_lex b r (i mod GetDof b) (i div GetDof b) = Inr (sdof r i)"
    using shapes_el_dof_lex[OF sh, of "i mod GetDof b" "i div GetDof b"] e by simp
  have fe: "FillJ_elts b r (Offsets r ! nat (gdof r i)) (inc_len r (gdof r i))
      = Inr (elt_list b r (gdof r i) @ replicate (nat Max16 - nat (inc_len r (gdof r i))) 0,
             map (B_of b) (inc_list r (gdof r i))
               @ replicate (nat Max16 - nat (inc_len r (gdof r i))) 0)"
    using FillJ_elts_shapes[OF sh _ _ degree_inc_len[OF sh dg]] gi by simp
  let ?f = "FillJ_j b r (sdof r i) (gdof r i) (i mod GetDof b) (i div GetDof b)
      (inc_len r (gdof r i))
      (elt_list b r (gdof r i) @ replicate (nat Max16 - nat (inc_len r (gdof r i))) 0)
      (map (B_of b) (inc_list r (gdof r i))
         @ replicate (nat Max16 - nat (inc_len r (gdof r i))) 0)"
  let ?js = "[0..sparse_mapping_Height b - 1]"
  have "efold ?f ?js s
      = efold (\<lambda>j t. if emits b r i j then put_event (entry b r i j) t else Inr t) ?js s"
    by (rule efold_cong) (rule FillJ_j_refine[OF sh dg lk i])
  also have "\<dots> = efold put_event (events b r i) s"
    unfolding events_def by (rule efold_filter_map)
  finally have loop: "efold ?f ?js s = efold put_event (events b r i) s" .
  have dj: "decode (sdof r i) = gdof r i" by (simp add: gdof_def)
  have jn: "Offsets r ! nat (gdof r i + 1) - Offsets r ! nat (gdof r i) = inc_len r (gdof r i)"
    by (simp add: inc_len_def)
  show ?thesis
    unfolding FillJ_row_def Let_def using e el oi fe loop dj jn by simp
qed

lemma fill_loop_refine:
  assumes sh: "shapes_ok b r" and dg: "degree_ok r" and lk: "lookups_ok b r"
    and s: "set sched \<subseteq> set [0..n_edofs b - 1]"
  shows "efold (FillJ_row b r) sched st = efold put_event (concat (map (events b r) sched)) st"
proof -
  have "efold (FillJ_row b r) sched st = efold (\<lambda>i. efold put_event (events b r i)) sched st"
    by (rule efold_cong) (use FillJ_row_refine[OF sh dg lk] s in blast)
  also have "\<dots> = efold (\<lambda>es. efold put_event es) (map (events b r) sched) st"
    by (induction sched arbitrary: st) (simp_all add: ebind_def split: sum.splits)
  also have "\<dots> = efold put_event (concat (map (events b r) sched)) st"
    by (simp add: efold_concat)
  finally show ?thesis .
qed

subsection \<open>Serving a list of entries from row cursors\<close>

lemma count_row_Cons:
  "count_row (e # es) d = (if fst e = d then 1 else 0) + count_row es d"
  by (simp add: count_row_def)

lemma count_row_nonneg: "0 \<le> count_row es d"
  by (simp add: count_row_def)

lemma row_events_Cons:
  "row_events (e # es) d = (if fst e = d then snd e # row_events es d else row_events es d)"
  by (simp add: row_events_def)

lemma length_row_events: "int (length (row_events es d)) = count_row es d"
  by (simp add: row_events_def count_row_def)

lemma put_event_succeeds:
  assumes "0 \<le> d" "d < int (length C)" "0 \<le> C ! nat d" "C ! nat d < int (length J)"
    "length AV = length J"
  shows "put_event (d, c, v) (C, J, AV)
     = Inr (C[nat d := C ! nat d + 1], J[nat (C ! nat d) := c], AV[nat (C ! nat d) := v])"
  using assms
  by (simp add: put_event_def GetAndIncrementNnzIndex_def AtomicAdd_eq_Inr wr_in_range
      AtomicAdd_def rd_in_range)

lemma put_events_fill:
  assumes rows: "\<forall>e \<in> set es. 0 \<le> fst e \<and> fst e < n"
    and lenC: "n \<le> int (length C)"
    and room: "\<forall>d. 0 \<le> d \<and> d < n \<longrightarrow> C ! nat d + count_row es d \<le> E d"
    and order: "\<forall>d d'. 0 \<le> d \<and> d < d' \<and> d' < n \<longrightarrow> E d \<le> C ! nat d'"
    and lo: "\<forall>d. 0 \<le> d \<and> d < n \<longrightarrow> 0 \<le> C ! nat d"
    and hi: "\<forall>d. 0 \<le> d \<and> d < n \<longrightarrow> E d \<le> int (length J)"
    and lenAV: "length AV = length J"
  shows "\<exists>C' J' AV'. efold put_event es (C, J, AV) = Inr (C', J', AV')
     \<and> length C' = length C \<and> length J' = length J \<and> length AV' = length AV
     \<and> (\<forall>d. 0 \<le> d \<and> d < n \<longrightarrow> C' ! nat d = C ! nat d + count_row es d)
     \<and> (\<forall>d t. 0 \<le> d \<and> d < n \<and> t < length (row_events es d) \<longrightarrow>
           (J' ! nat (C ! nat d + int t), AV' ! nat (C ! nat d + int t)) = row_events es d ! t)
     \<and> (\<forall>p. 0 \<le> p \<and> (\<forall>d. 0 \<le> d \<and> d < n \<longrightarrow>
                 \<not> (C ! nat d \<le> p \<and> p < C ! nat d + count_row es d))
           \<longrightarrow> J' ! nat p = J ! nat p \<and> AV' ! nat p = AV ! nat p)"
  using assms
proof (induction es arbitrary: C J AV)
  case Nil
  then show ?case by (simp add: row_events_def count_row_def)
next
  case (Cons e es)
  obtain d0 c0 v0 where e: "e = (d0, c0, v0)" by (cases e) auto
  from Cons.prems(1) e have d0: "0 \<le> d0" "d0 < n" by auto
  let ?p0 = "C ! nat d0"
  from Cons.prems(3) d0 e have room0: "?p0 + 1 + count_row es d0 \<le> E d0"
    by (auto simp: count_row_Cons)
  from Cons.prems(5) d0 have p0lo: "0 \<le> ?p0" by auto
  from Cons.prems(6) d0 have "E d0 \<le> int (length J)" by simp
  with room0 count_row_nonneg[of es d0] have p0hi: "?p0 < int (length J)" by linarith
  let ?C1 = "C[nat d0 := ?p0 + 1]" and ?J1 = "J[nat ?p0 := c0]" and ?AV1 = "AV[nat ?p0 := v0]"
  have step: "put_event e (C, J, AV) = Inr (?C1, ?J1, ?AV1)"
    unfolding e using d0 Cons.prems(2) p0lo p0hi Cons.prems(7)
    by (intro put_event_succeeds) auto
  have C1: "?C1 ! nat d = (if d = d0 then ?p0 + 1 else C ! nat d)" if "0 \<le> d" "d < n" for d
    using that d0 Cons.prems(2) by (auto simp: nth_list_update)
  have cnt: "count_row (e # es) d = (if d = d0 then 1 else 0) + count_row es d" for d
    by (auto simp: count_row_Cons e)
  have rows': "\<forall>e \<in> set es. 0 \<le> fst e \<and> fst e < n" using Cons.prems(1) by simp
  have lenC': "n \<le> int (length ?C1)" using Cons.prems(2) by simp
  have room': "\<forall>d. 0 \<le> d \<and> d < n \<longrightarrow> ?C1 ! nat d + count_row es d \<le> E d"
  proof (intro allI impI)
    fix d assume d: "0 \<le> d \<and> d < n"
    with Cons.prems(3) have "C ! nat d + count_row (e # es) d \<le> E d" by blast
    then show "?C1 ! nat d + count_row es d \<le> E d"
      using C1[of d] cnt[of d] d by (cases "d = d0") simp_all
  qed
  have order': "\<forall>d d'. 0 \<le> d \<and> d < d' \<and> d' < n \<longrightarrow> E d \<le> ?C1 ! nat d'"
  proof (intro allI impI)
    fix d d' assume d: "0 \<le> d \<and> d < d' \<and> d' < n"
    with Cons.prems(4) have "E d \<le> C ! nat d'" by blast
    then show "E d \<le> ?C1 ! nat d'"
      using C1[of d'] d by (cases "d' = d0") simp_all
  qed
  have lo': "\<forall>d. 0 \<le> d \<and> d < n \<longrightarrow> 0 \<le> ?C1 ! nat d"
  proof (intro allI impI)
    fix d assume d: "0 \<le> d \<and> d < n"
    with Cons.prems(5) have "0 \<le> C ! nat d" by blast
    then show "0 \<le> ?C1 ! nat d"
      using C1[of d] d p0lo by (cases "d = d0") simp_all
  qed
  have hi': "\<forall>d. 0 \<le> d \<and> d < n \<longrightarrow> E d \<le> int (length ?J1)"
    using Cons.prems(6) by simp
  have lenAV': "length ?AV1 = length ?J1" using Cons.prems(7) by simp
  from Cons.IH[OF rows' lenC' room' order' lo' hi' lenAV']
  obtain C' J' AV' where run: "efold put_event es (?C1, ?J1, ?AV1) = Inr (C', J', AV')"
    and lens: "length C' = length C" "length J' = length J" "length AV' = length AV"
    and cur: "\<forall>d. 0 \<le> d \<and> d < n \<longrightarrow> C' ! nat d = ?C1 ! nat d + count_row es d"
    and ent: "\<forall>d t. 0 \<le> d \<and> d < n \<and> t < length (row_events es d) \<longrightarrow>
           (J' ! nat (?C1 ! nat d + int t), AV' ! nat (?C1 ! nat d + int t)) = row_events es d ! t"
    and out: "\<forall>p. 0 \<le> p \<and> (\<forall>d. 0 \<le> d \<and> d < n \<longrightarrow>
                 \<not> (?C1 ! nat d \<le> p \<and> p < ?C1 ! nat d + count_row es d))
           \<longrightarrow> J' ! nat p = ?J1 ! nat p \<and> AV' ! nat p = ?AV1 ! nat p"
    by auto
  have res: "efold put_event (e # es) (C, J, AV) = Inr (C', J', AV')"
    using step run by simp
  have cur': "\<forall>d. 0 \<le> d \<and> d < n \<longrightarrow> C' ! nat d = C ! nat d + count_row (e # es) d"
  proof (intro allI impI)
    fix d assume d: "0 \<le> d \<and> d < n"
    with cur have "C' ! nat d = ?C1 ! nat d + count_row es d" by blast
    then show "C' ! nat d = C ! nat d + count_row (e # es) d"
      using C1[of d] cnt[of d] d by (cases "d = d0") simp_all
  qed
  have p0_out: "\<forall>d. 0 \<le> d \<and> d < n \<longrightarrow> \<not> (?C1 ! nat d \<le> ?p0 \<and> ?p0 < ?C1 ! nat d + count_row es d)"
  proof (intro allI impI)
    fix d assume d: "0 \<le> d \<and> d < n"
    consider "d = d0" | "d < d0" | "d0 < d" by linarith
    then show "\<not> (?C1 ! nat d \<le> ?p0 \<and> ?p0 < ?C1 ! nat d + count_row es d)"
    proof cases
      case 1 then show ?thesis using C1 d by simp
    next
      case 2
      with Cons.prems(4) d d0 have "E d \<le> ?p0" by auto
      moreover from room' d have "?C1 ! nat d + count_row es d \<le> E d" by auto
      ultimately show ?thesis by linarith
    next
      case 3
      with Cons.prems(4) d d0 have "E d0 \<le> C ! nat d" by auto
      with room0 count_row_nonneg[of es d0] C1[of d] d 3 show ?thesis by auto
    qed
  qed
  have at_p0: "J' ! nat ?p0 = c0 \<and> AV' ! nat ?p0 = v0"
    using out[rule_format, of ?p0] p0_out p0lo p0hi Cons.prems(7) by simp
  have ent': "\<forall>d t. 0 \<le> d \<and> d < n \<and> t < length (row_events (e # es) d) \<longrightarrow>
           (J' ! nat (C ! nat d + int t), AV' ! nat (C ! nat d + int t)) = row_events (e # es) d ! t"
  proof (intro allI impI)
    fix d t assume a: "0 \<le> d \<and> d < n \<and> t < length (row_events (e # es) d)"
    show "(J' ! nat (C ! nat d + int t), AV' ! nat (C ! nat d + int t)) = row_events (e # es) d ! t"
    proof (cases "d = d0")
      case True
      then have re: "row_events (e # es) d = (c0, v0) # row_events es d0"
        by (simp add: row_events_Cons e)
      show ?thesis
      proof (cases t)
        case 0
        then show ?thesis using re at_p0 True by simp
      next
        case (Suc t')
        with a re have "t' < length (row_events es d0)" by simp
        with ent d0 have "(J' ! nat (?C1 ! nat d0 + int t'), AV' ! nat (?C1 ! nat d0 + int t'))
            = row_events es d0 ! t'" by blast
        moreover have "?C1 ! nat d0 + int t' = C ! nat d0 + int t"
          using C1[OF d0] Suc by simp
        ultimately show ?thesis using re Suc True by simp
      qed
    next
      case False
      then have re: "row_events (e # es) d = row_events es d" by (simp add: row_events_Cons e)
      with ent a have "(J' ! nat (?C1 ! nat d + int t), AV' ! nat (?C1 ! nat d + int t))
          = row_events es d ! t" by simp
      then show ?thesis using re C1[of d] a False by simp
    qed
  qed
  have out': "\<forall>p. 0 \<le> p \<and> (\<forall>d. 0 \<le> d \<and> d < n \<longrightarrow>
                 \<not> (C ! nat d \<le> p \<and> p < C ! nat d + count_row (e # es) d))
           \<longrightarrow> J' ! nat p = J ! nat p \<and> AV' ! nat p = AV ! nat p"
  proof (intro allI impI)
    fix p assume a: "0 \<le> p \<and> (\<forall>d. 0 \<le> d \<and> d < n \<longrightarrow>
                 \<not> (C ! nat d \<le> p \<and> p < C ! nat d + count_row (e # es) d))"
    have ne: "p \<noteq> ?p0"
    proof
      assume "p = ?p0"
      moreover from a d0 have "\<not> (?p0 \<le> p \<and> p < ?p0 + count_row (e # es) d0)" by blast
      ultimately show False using cnt[of d0] count_row_nonneg[of es d0] by simp
    qed
    have "\<forall>d. 0 \<le> d \<and> d < n \<longrightarrow> \<not> (?C1 ! nat d \<le> p \<and> p < ?C1 ! nat d + count_row es d)"
    proof (intro allI impI)
      fix d assume d: "0 \<le> d \<and> d < n"
      with a have "\<not> (C ! nat d \<le> p \<and> p < C ! nat d + count_row (e # es) d)" by blast
      then show "\<not> (?C1 ! nat d \<le> p \<and> p < ?C1 ! nat d + count_row es d)"
        using C1[of d] cnt[of d] d by (cases "d = d0") auto
    qed
    with out a have "J' ! nat p = ?J1 ! nat p \<and> AV' ! nat p = ?AV1 ! nat p" by blast
    moreover have "nat p \<noteq> nat ?p0" using ne a p0lo by (simp add: eq_nat_nat_iff)
    ultimately show "J' ! nat p = J ! nat p \<and> AV' ! nat p = AV ! nat p" by simp
  qed
  show ?case using res lens cur' ent' out' by blast
qed


subsection \<open>Counters, offsets and cursors\<close>

lemma foldl_bump_count:
  assumes "\<forall>x \<in> set ds. 0 \<le> x \<and> x < int (length I)" and "0 \<le> d" "d < int (length I)"
  shows "foldl bump I ds ! nat d = I ! nat d + int (length (filter (\<lambda>x. x = d) ds))"
  using assms
proof (induction ds arbitrary: I)
  case Nil then show ?case by simp
next
  case (Cons x ds)
  have "foldl bump (bump I x) ds ! nat d
      = bump I x ! nat d + int (length (filter (\<lambda>x. x = d) ds))"
    using Cons.prems by (intro Cons.IH) simp_all
  moreover have "bump I x ! nat d = I ! nat d + (if x = d then 1 else 0)"
    using Cons.prems by (auto simp: bump_def nth_list_update eq_nat_nat_iff)
  ultimately show ?case by simp
qed

lemma count_row_map_fst: "int (length (filter (\<lambda>x. x = d) (map fst es))) = count_row es d"
  by (simp add: count_row_def filter_map comp_def)

lemma events_rows:
  assumes "shapes_ok b r" and "set sched \<subseteq> set [0..n_edofs b - 1]"
  shows "\<forall>e \<in> set (concat (map (events b r) sched)). 0 \<le> fst e \<and> fst e < GetVSize b"
proof
  fix e assume "e \<in> set (concat (map (events b r) sched))"
  then obtain i j where i: "i \<in> set sched" and e: "e = entry b r i j"
    by (auto simp: events_def)
  from i assms(2) have "i \<in> set [0..n_edofs b - 1]" by blast
  from shapes_gdof[OF assms(1) this] e show "0 \<le> fst e \<and> fst e < GetVSize b"
    by (simp add: entry_def Let_def)
qed

lemma count_pass_refine:
  assumes sh: "shapes_ok b r" and dg: "degree_ok r"
    and s: "set sched \<subseteq> set [0..n_edofs b - 1]" and len: "int (length I) = GetVSize b + 1"
  shows "\<exists>cnt. count_pass b r sched I = Inr cnt \<and> int (length cnt) = GetVSize b + 1
     \<and> (\<forall>d. 0 \<le> d \<and> d \<le> GetVSize b
          \<longrightarrow> cnt ! nat d = count_row (concat (map (events b r) sched)) d)"
proof -
  let ?n = "GetVSize b"
  let ?es = "concat (map (events b r) sched)"
  from sh have n0: "0 \<le> ?n" by (simp add: shapes_ok_def)
  have z: "efold (\<lambda>ii I. wr I ii (0::int)) [0..?n] I = Inr (replicate (nat (?n + 1)) 0)"
  proof -
    have u: "[0..?n] = map int [0..<nat (?n + 1)]" using upto_as_map[of "?n + 1"] by simp
    have l: "length I = nat (?n + 1)" using len by linarith
    have "\<exists>I'. efold (\<lambda>ii I. wr I ii (0::int)) (map int [0..<nat (?n + 1)]) I = Inr I'
        \<and> length I' = length I"
      by (rule efold_succeeds[where P = "\<lambda>t. length t = length I"])
         (use l in \<open>auto simp: wr_def\<close>)
    then obtain I' where I': "efold (\<lambda>ii I. wr I ii (0::int)) (map int [0..<nat (?n + 1)]) I = Inr I'"
      by blast
    from zero_loop[OF I'] l have "I' = replicate (nat (?n + 1)) 0" by simp
    with I' u show ?thesis by simp
  qed
  let ?z = "replicate (nat (?n + 1)) (0::int)"
  have lz: "int (length ?z) = ?n + 1" using n0 by simp
  from count_loop_refine[OF sh dg s lz]
  have c: "count_pass b r sched I = Inr (foldl bump ?z (map fst ?es))"
    using z by (simp add: count_pass_def)
  have nth: "foldl bump ?z (map fst ?es) ! nat d = count_row ?es d" if "0 \<le> d" "d \<le> ?n" for d
  proof -
    have "\<forall>x \<in> set (map fst ?es). 0 \<le> x \<and> x < int (length ?z)"
    proof
      fix x assume "x \<in> set (map fst ?es)"
      then obtain e where "e \<in> set ?es" "x = fst e" by auto
      with events_rows[OF sh s] have "0 \<le> x \<and> x < ?n" by blast
      then show "0 \<le> x \<and> x < int (length ?z)" by simp
    qed
    from foldl_bump_count[OF this that(1)] that n0
    have "foldl bump ?z (map fst ?es) ! nat d = int (length (filter (\<lambda>x. x = d) (map fst ?es)))"
      by simp
    then show ?thesis by (simp only: count_row_map_fst)
  qed
  show ?thesis using c nth lz by simp
qed

lemma sum_list_take_le:
  assumes "\<forall>x \<in> set cnt. (0::int) \<le> x" and "i \<le> j"
  shows "sum_list (take i cnt) \<le> sum_list (take j cnt)"
proof -
  from assms(2) obtain k where j: "j = i + k" using le_Suc_ex by blast
  have "0 \<le> sum_list (take k (drop i cnt))"
    using assms(1) by (intro sum_list_nonneg) (auto dest!: in_set_takeD in_set_dropD)
  then show ?thesis unfolding j by (simp add: take_add)
qed

lemma prefix_sums_nth:
  "i \<le> n \<Longrightarrow> prefix_sums cnt n ! i = sum_list (take i cnt)"
  unfolding prefix_sums_def by (simp del: upt_Suc)

lemma copy_loop:
  assumes "k \<le> length xs" and "length xs = m"
  shows "efold (\<lambda>i I. ebind (rd xs i) (\<lambda>v. wr I i v)) (map int [0..<k]) (replicate m (0::int))
     = Inr (take k xs @ replicate (m - k) 0)"
  using assms(1)
proof (induction k)
  case 0 then show ?case by simp
next
  case (Suc k)
  then have k: "k < length xs" by simp
  have "(take k xs @ replicate (m - k) 0)[k := xs ! k] = take (Suc k) xs @ replicate (m - Suc k) 0"
  proof -
    from k assms(2) have "m - k = Suc (m - Suc k)" by linarith
    then show ?thesis using k by (simp add: list_update_append take_Suc_conv_app_nth)
  qed
  with Suc k assms(2) show ?case
    by (simp add: efold_append rd_def wr_def)
qed


lemma scan_succeeds:
  assumes "k \<le> length h"
  shows "\<exists>h' s. efold scan_step (map int [0..<k]) (h, 0) = Inr (h', s)"
proof -
  have "\<exists>st. efold scan_step (map int [0..<k]) (h, 0) = Inr st \<and> length (fst st) = length h"
    by (rule efold_succeeds[where P = "\<lambda>st. length (fst st) = length h"])
       (use assms in \<open>auto simp: scan_step_def rd_def wr_def\<close>)
  then show ?thesis by (metis prod.collapse)
qed

lemma FillI_sched_run:
  assumes safe: "assembly_safe b r" and s: "set sched \<subseteq> set [0..n_edofs b - 1]"
    and len: "int (length (GetI A)) = GetVSize b + 1"
  shows "\<exists>cnt. count_pass b r sched (GetI A) = Inr cnt
     \<and> int (length cnt) = GetVSize b + 1
     \<and> (\<forall>d. 0 \<le> d \<and> d \<le> GetVSize b
          \<longrightarrow> cnt ! nat d = count_row (concat (map (events b r) sched)) d)
     \<and> FillI_sched b sched A
       = Inr (A\<lparr>GetI := prefix_sums cnt (nat (GetVSize b))\<rparr>, sum_list (take (nat (GetVSize b)) cnt))"
proof -
  let ?n = "GetVSize b"
  from safe have r: "GetElementRestriction b = Some r" and sh: "shapes_ok b r"
    and dg: "degree_ok r" by (auto simp: assembly_safe_def)
  from sh have n0: "0 \<le> ?n" by (simp add: shapes_ok_def)
  from count_pass_refine[OF sh dg s len] obtain cnt where
    c: "count_pass b r sched (GetI A) = Inr cnt" and lc: "int (length cnt) = ?n + 1"
    and nth: "\<forall>d. 0 \<le> d \<and> d \<le> ?n \<longrightarrow> cnt ! nat d = count_row (concat (map (events b r) sched)) d"
    by blast
  from lc n0 have lc': "length cnt = Suc (nat ?n)" by linarith
  from scan_succeeds[of "nat ?n" cnt] lc' obtain h s' where
    sc: "efold scan_step (map int [0..<nat ?n]) (cnt, 0) = Inr (h, s')" by auto
  from scan_loop[OF sc] have s': "s' = sum_list (take (nat ?n) cnt)"
    and h: "h = map (\<lambda>i. sum_list (take i cnt)) [0..<nat ?n] @ drop (nat ?n) cnt" by auto
  have lh: "length h = Suc (nat ?n)" using h lc' by simp
  have w: "wr h ?n s' = Inr (h[nat ?n := s'])" using lh n0 by (simp add: wr_def)
  have hp: "h[nat ?n := s'] = prefix_sums cnt (nat ?n)"
    unfolding h prefix_sums_def using lc' s'
    by (simp add: list_update_append upd_conv_take_nth_drop flip: Cons_nth_drop_Suc)
  have rdn: "rd (prefix_sums cnt (nat ?n)) ?n = Inr s'"
    using n0 s' by (simp add: rd_def prefix_sums_def del: upt_Suc)
  have "FillI_sched b sched A = Inr (A\<lparr>GetI := prefix_sums cnt (nat ?n)\<rparr>, s')"
    unfolding FillI_sched_def Let_def using r c sc w hp rdn by (simp add: upto_as_map)
  with c lc nth s' show ?thesis by blast
qed

lemma row_slice_entries:
  assumes lenI: "hi = lo + int (length xs)" and lo: "0 \<le> lo"
    and nth: "\<forall>t < length xs. f (lo + int t) = xs ! t"
  shows "map f [lo..hi - 1] = xs"
proof (rule nth_equalityI)
  show "length (map f [lo..hi - 1]) = length xs" using lenI by simp
next
  fix t assume "t < length (map f [lo..hi - 1])"
  then have t: "t < length xs" using lenI by simp
  then have "[lo..hi - 1] ! t = lo + int t" using lenI by (simp add: nth_upto)
  with nth t lenI show "map f [lo..hi - 1] ! t = xs ! t" by simp
qed

lemma put_events_rows:
  assumes rows: "\<forall>e \<in> set es. 0 \<le> fst e \<and> fst e < n" and n0: "0 \<le> n"
    and lenI: "int (length cnt) = n + 1"
    and cnt: "\<forall>d. 0 \<le> d \<and> d \<le> n \<longrightarrow> cnt ! nat d = count_row es d"
    and lenJ: "int (length J) = sum_list (take (nat n) cnt)"
    and lenD: "length D = length J"
  shows "\<exists>C' J' D'. efold put_event es (prefix_sums cnt (nat n), J, D) = Inr (C', J', D')
     \<and> length J' = length J \<and> length D' = length D
     \<and> (\<forall>d. 0 \<le> d \<and> d < n \<longrightarrow>
          map (\<lambda>p. (J' ! nat p, D' ! nat p)) (row_slice (prefix_sums cnt (nat n)) d)
            = row_events es d)"
proof -
  let ?I = "prefix_sums cnt (nat n)"
  from lenI n0 have lc: "length cnt = Suc (nat n)" by linarith
  have lI: "length ?I = Suc (nat n)" by (simp add: prefix_sums_def)
  have Inth: "?I ! nat d = sum_list (take (nat d) cnt)" if "0 \<le> d" "d \<le> n" for d
    using that by (intro prefix_sums_nth) simp
  have pos: "\<forall>x \<in> set cnt. 0 \<le> x"
  proof
    fix x assume "x \<in> set cnt"
    then obtain k where k: "k < length cnt" "x = cnt ! k" by (auto simp: in_set_conv_nth)
    with lc n0 have "int k \<le> n" by linarith
    with cnt[rule_format, of "int k"] k show "0 \<le> x" by (simp add: count_row_nonneg)
  qed
  have next_I: "?I ! nat (d + 1) = ?I ! nat d + count_row es d" if "0 \<le> d" "d < n" for d
  proof -
    have "nat (d + 1) = Suc (nat d)" using that by simp
    moreover have "nat d < length cnt" using that lc by simp
    ultimately show ?thesis
      using Inth[of d] Inth[of "d + 1"] cnt[rule_format, of d] that
      by (simp add: take_Suc_conv_app_nth)
  qed
  have mono: "?I ! nat d \<le> ?I ! nat d'" if "0 \<le> d" "d \<le> d'" "d' \<le> n" for d d'
    using Inth[of d] Inth[of d'] that sum_list_take_le[OF pos, of "nat d" "nat d'"] by simp
  have fill: "\<exists>C' J' AV'. efold put_event es (?I, J, D) = Inr (C', J', AV')
     \<and> length C' = length ?I \<and> length J' = length J \<and> length AV' = length D
     \<and> (\<forall>d. 0 \<le> d \<and> d < n \<longrightarrow> C' ! nat d = ?I ! nat d + count_row es d)
     \<and> (\<forall>d t. 0 \<le> d \<and> d < n \<and> t < length (row_events es d) \<longrightarrow>
           (J' ! nat (?I ! nat d + int t), AV' ! nat (?I ! nat d + int t)) = row_events es d ! t)
     \<and> (\<forall>p. 0 \<le> p \<and> (\<forall>d. 0 \<le> d \<and> d < n \<longrightarrow>
                 \<not> (?I ! nat d \<le> p \<and> p < ?I ! nat d + count_row es d))
           \<longrightarrow> J' ! nat p = J ! nat p \<and> AV' ! nat p = D ! nat p)"
  proof (rule put_events_fill[where E = "\<lambda>d. ?I ! nat (d + 1)"])
    show "\<forall>e \<in> set es. 0 \<le> fst e \<and> fst e < n" by (rule rows)
    show "n \<le> int (length ?I)" using lI by simp
    show "\<forall>d. 0 \<le> d \<and> d < n \<longrightarrow> ?I ! nat d + count_row es d \<le> ?I ! nat (d + 1)"
      using next_I by simp
    show "\<forall>d d'. 0 \<le> d \<and> d < d' \<and> d' < n \<longrightarrow> ?I ! nat (d + 1) \<le> ?I ! nat d'"
      using mono by simp
    show "\<forall>d. 0 \<le> d \<and> d < n \<longrightarrow> 0 \<le> ?I ! nat d"
    proof (intro allI impI)
      fix d assume "0 \<le> d \<and> d < n"
      with mono[of 0 d] Inth[of 0] show "0 \<le> ?I ! nat d" by simp
    qed
    show "\<forall>d. 0 \<le> d \<and> d < n \<longrightarrow> ?I ! nat (d + 1) \<le> int (length J)"
    proof (intro allI impI)
      fix d assume "0 \<le> d \<and> d < n"
      with mono[of "d + 1" n] Inth[of n] lenJ n0
      show "?I ! nat (d + 1) \<le> int (length J)" by simp
    qed
    show "length D = length J" by (rule lenD)
  qed
  then obtain C' J' AV' where
    run: "efold put_event es (?I, J, D) = Inr (C', J', AV')"
    and lens: "length J' = length J" "length AV' = length D"
    and ent: "\<forall>d t. 0 \<le> d \<and> d < n \<and> t < length (row_events es d) \<longrightarrow>
           (J' ! nat (?I ! nat d + int t), AV' ! nat (?I ! nat d + int t)) = row_events es d ! t"
    by blast
  have rows: "map (\<lambda>p. (J' ! nat p, AV' ! nat p)) (row_slice ?I d) = row_events es d"
    if d: "0 \<le> d" "d < n" for d
    unfolding row_slice_def
  proof (rule row_slice_entries)
    show "?I ! nat (d + 1) = ?I ! nat d + int (length (row_events es d))"
      using next_I[OF d] by (simp add: length_row_events)
    show "0 \<le> ?I ! nat d" using mono[of 0 d] Inth[of 0] d by simp
    show "\<forall>t < length (row_events es d).
        (J' ! nat (?I ! nat d + int t), AV' ! nat (?I ! nat d + int t)) = row_events es d ! t"
      using ent d by blast
  qed
  from run lens rows show ?thesis by blast
qed

lemma FillJAndData_sched_run:
  assumes safe: "assembly_safe b r" and s: "set sched \<subseteq> set [0..n_edofs b - 1]"
    and lenI: "int (length cnt) = GetVSize b + 1"
    and cnt: "\<forall>d. 0 \<le> d \<and> d \<le> GetVSize b
          \<longrightarrow> cnt ! nat d = count_row (concat (map (events b r) sched)) d"
    and I: "GetI A = prefix_sums cnt (nat (GetVSize b))"
    and lenJ: "int (length (GetJ A)) = sum_list (take (nat (GetVSize b)) cnt)"
    and lenD: "length (GetData A) = length (GetJ A)"
  shows "\<exists>J' D'. FillJAndData_sched b sched A = Inr (A\<lparr>GetJ := J', GetData := D'\<rparr>)
     \<and> length J' = length (GetJ A) \<and> length D' = length (GetData A)
     \<and> (\<forall>d. 0 \<le> d \<and> d < GetVSize b \<longrightarrow>
          row_entries (A\<lparr>GetJ := J', GetData := D'\<rparr>) d
            = row_events (concat (map (events b r) sched)) d)"
proof -
  let ?n = "GetVSize b"
  let ?es = "concat (map (events b r) sched)"
  let ?I = "GetI A"
  from safe have r: "GetElementRestriction b = Some r" and sh: "shapes_ok b r"
    and dg: "degree_ok r" and lk: "lookups_ok b r" by (auto simp: assembly_safe_def)
  from sh have n0: "0 \<le> ?n" by (simp add: shapes_ok_def)
  have lI: "length ?I = Suc (nat ?n)" unfolding I by (simp add: prefix_sums_def)
  have copy: "efold (\<lambda>i I. ebind (rd ?I i) (\<lambda>v. wr I i v)) [0..?n] (replicate (nat (?n + 1)) 0)
      = Inr ?I"
  proof -
    have u: "[0..?n] = map int [0..<Suc (nat ?n)]" using upto_as_map[of "?n + 1"] n0
      by (simp add: nat_add_distrib)
    have "nat (?n + 1) = Suc (nat ?n)" using n0 by simp
    with copy_loop[of "Suc (nat ?n)" ?I "Suc (nat ?n)"] lI u show ?thesis by simp
  qed
  from put_events_rows[OF events_rows[OF sh s] n0 lenI cnt lenJ lenD]
  obtain C' J' D' where
    run: "efold put_event ?es (?I, GetJ A, GetData A) = Inr (C', J', D')"
    and lens: "length J' = length (GetJ A)" "length D' = length (GetData A)"
    and rows: "\<forall>d. 0 \<le> d \<and> d < ?n \<longrightarrow>
          map (\<lambda>p. (J' ! nat p, D' ! nat p)) (row_slice ?I d) = row_events ?es d"
    unfolding I by blast
  have "efold (FillJ_row b r) sched (?I, GetJ A, GetData A) = Inr (C', J', D')"
    using fill_loop_refine[OF sh dg lk s] run by simp
  then have res: "FillJAndData_sched b sched A = Inr (A\<lparr>GetJ := J', GetData := D'\<rparr>)"
    unfolding FillJAndData_sched_def Let_def using r copy by simp
  from res lens rows show ?thesis by (auto simp: row_entries_def)
qed

subsection \<open>Schedules\<close>

lemma mset_concat_map_cong:
  assumes "mset xs = mset ys"
  shows "mset (concat (map f xs)) = mset (concat (map f ys))"
proof -
  have "mset (concat (map f zs)) = \<Sum>\<^sub># (image_mset (\<lambda>x. mset (f x)) (mset zs))" for zs
    by (simp add: mset_concat comp_def flip: sum_mset_sum_list)
  with assms show ?thesis by simp
qed

lemma schedule_mset:
  assumes "schedule b sched"
  shows "mset sched = mset [0..n_edofs b - 1] \<and> set sched \<subseteq> set [0..n_edofs b - 1]"
  using assms set_eq_iff_mset_eq_distinct[of sched "[0..n_edofs b - 1]"]
  by (simp add: schedule_def)

lemma count_row_mset: "mset es = mset es' \<Longrightarrow> count_row es d = count_row es' d"
proof -
  assume a: "mset es = mset es'"
  have "count_row zs d = int (size (filter_mset (\<lambda>e. fst e = d) (mset zs)))" for zs
    by (simp add: count_row_def flip: mset_filter)
  with a show ?thesis by simp
qed

lemma row_events_mset: "mset es = mset es' \<Longrightarrow> mset (row_events es d) = mset (row_events es' d)"
  by (simp add: row_events_def mset_filter)

lemma SparseIJToCSR_sched_run:
  assumes safe: "assembly_safe b r"
    and s1: "set sched1 \<subseteq> set [0..n_edofs b - 1]" and s2: "set sched2 \<subseteq> set [0..n_edofs b - 1]"
    and same: "mset (concat (map (events b r) sched1)) = mset (concat (map (events b r) sched2))"
  shows "\<exists>A cnt. SparseIJToCSR_sched b sched1 sched2 ui ud A0 = Inr A
     \<and> Height A = GetVSize b \<and> Width A = GetVSize b
     \<and> int (length cnt) = GetVSize b + 1
     \<and> (\<forall>d. 0 \<le> d \<and> d \<le> GetVSize b
          \<longrightarrow> cnt ! nat d = count_row (concat (map (events b r) sched1)) d)
     \<and> GetI A = prefix_sums cnt (nat (GetVSize b))
     \<and> (\<forall>d. 0 \<le> d \<and> d < GetVSize b \<longrightarrow>
          row_entries A d = row_events (concat (map (events b r) sched2)) d)"
proof -
  let ?n = "GetVSize b"
  let ?A1 = "A0\<lparr>Height := ?n, Width := ?n, GetI := New (?n + 1) ui\<rparr>"
  from safe have sh: "shapes_ok b r" by (simp add: assembly_safe_def)
  from sh have n0: "0 \<le> ?n" by (simp add: shapes_ok_def)
  have l1: "int (length (GetI ?A1)) = ?n + 1" using n0 by (simp add: New_def)
  from FillI_sched_run[OF safe s1 l1] obtain cnt where
    lc: "int (length cnt) = ?n + 1"
    and nth: "\<forall>d. 0 \<le> d \<and> d \<le> ?n \<longrightarrow> cnt ! nat d = count_row (concat (map (events b r) sched1)) d"
    and f: "FillI_sched b sched1 ?A1
       = Inr (?A1\<lparr>GetI := prefix_sums cnt (nat ?n)\<rparr>, sum_list (take (nat ?n) cnt))"
    by blast
  let ?nnz = "sum_list (take (nat ?n) cnt)"
  let ?A3 = "?A1\<lparr>GetI := prefix_sums cnt (nat ?n), GetJ := New ?nnz ui, GetData := New ?nnz ud\<rparr>"
  have nn: "0 \<le> ?nnz"
  proof (rule sum_list_nonneg)
    fix x assume "x \<in> set (take (nat ?n) cnt)"
    then have "x \<in> set cnt" by (rule in_set_takeD)
    then obtain k where k: "k < length cnt" "x = cnt ! k" by (auto simp: in_set_conv_nth)
    with lc n0 have "int k \<le> ?n" by linarith
    with nth[rule_format, of "int k"] k show "0 \<le> x" by (simp add: count_row_nonneg)
  qed
  have nth2: "\<forall>d. 0 \<le> d \<and> d \<le> ?n \<longrightarrow> cnt ! nat d = count_row (concat (map (events b r) sched2)) d"
    using nth count_row_mset[OF same] by simp
  have "\<exists>J' D'. FillJAndData_sched b sched2 ?A3 = Inr (?A3\<lparr>GetJ := J', GetData := D'\<rparr>)
     \<and> length J' = length (GetJ ?A3) \<and> length D' = length (GetData ?A3)
     \<and> (\<forall>d. 0 \<le> d \<and> d < ?n \<longrightarrow>
          row_entries (?A3\<lparr>GetJ := J', GetData := D'\<rparr>) d
            = row_events (concat (map (events b r) sched2)) d)"
    by (rule FillJAndData_sched_run[OF safe s2 lc nth2]) (use nn in \<open>simp_all add: New_def\<close>)
  then obtain J' D' where
    g: "FillJAndData_sched b sched2 ?A3 = Inr (?A3\<lparr>GetJ := J', GetData := D'\<rparr>)"
    and rows: "\<forall>d. 0 \<le> d \<and> d < ?n \<longrightarrow>
          row_entries (?A3\<lparr>GetJ := J', GetData := D'\<rparr>) d
            = row_events (concat (map (events b r) sched2)) d"
    by blast
  have "SparseIJToCSR_sched b sched1 sched2 ui ud A0 = Inr (?A3\<lparr>GetJ := J', GetData := D'\<rparr>)"
    unfolding SparseIJToCSR_sched_def Let_def using f g by simp
  with lc nth rows show ?thesis by force
qed

subsection \<open>The stack buffers stay within their sixteen cells\<close>

text \<open>
  Claim C7, as amended. The passes do not compare the length of an incidence list with
  \<^verbatim>\<open>Max\<close>: there is no assertion and no error for a list that is too long. If every
  incidence list has at most 16 entries, no run of either pass, in whatever order its
  iterations run and on whatever matrix, reads or writes a cell outside one of the
  stack buffers \<^verbatim>\<open>i_elts\<close>, \<^verbatim>\<open>i_B\<close>, \<^verbatim>\<open>j_elts\<close>, \<^verbatim>\<open>j_B\<close>, in the filling loops, in
  \<^verbatim>\<open>GetMinElt\<close> or in the accumulation; and on an input whose reads are all in range
  the assembly runs to its end. A filling loop that is given more than 16 entries, all
  of them inside the incidence table, fills the sixteen cells and goes on to cell 16,
  outside the buffer.
\<close>

theorem buffers_in_bounds:
  "(GetElementRestriction b = Some r \<and> degree_ok r
      \<longrightarrow> FillI_sched b sched A \<noteq> Inl LocalBufferOverrun
        \<and> FillJAndData_sched b sched A \<noteq> Inl LocalBufferOverrun)
   \<and> (assembly_safe b r \<and> schedule b sched1 \<and> schedule b sched2
      \<longrightarrow> (\<exists>A'. SparseIJToCSR_sched b sched1 sched2 ui ud A0 = Inr A'))
   \<and> (Max16 < n \<and> 0 \<le> offset \<and> offset + Max16 < int (length (Indices r))
      \<longrightarrow> FillI_elts b r offset n = Inl LocalBufferOverrun
        \<and> FillJ_elts b r offset n = Inl LocalBufferOverrun)"
proof -
  have "\<exists>A'. SparseIJToCSR_sched b sched1 sched2 ui ud A0 = Inr A'"
    if safe: "assembly_safe b r" and s1: "schedule b sched1" and s2: "schedule b sched2"
  proof -
    note m1 = schedule_mset[OF s1] and m2 = schedule_mset[OF s2]
    have "mset (concat (map (events b r) sched1)) = mset (concat (map (events b r) sched2))"
      using m1 m2 by (intro mset_concat_map_cong) simp
    from SparseIJToCSR_sched_run[OF safe m1[THEN conjunct2] m2[THEN conjunct2] this, of ui ud A0]
    show ?thesis by blast
  qed
  then show ?thesis
    using FillI_sched_not_overrun FillJAndData_sched_not_overrun
      FillI_elts_reaches_16 FillJ_elts_reaches_16
    by blast
qed

text \<open>
  Claim C7 as stated fails: on seventeen elements that share one DOF the row-count pass
  and the fill pass go on to cell 16 of \<^verbatim>\<open>i_elts\<close>; there is no assertion and no
  degree-exceeded error.
\<close>

theorem seventeen_elements_overrun:
  "FillI ex17 \<lparr>Height = 1, Width = 1, GetI = [0, 0], GetJ = [], GetData = []\<rparr>
     = Inl LocalBufferOverrun
   \<and> FillJAndData ex17 \<lparr>Height = 1, Width = 1, GetI = [0, 1], GetJ = [0], GetData = [0]\<rparr>
     = Inl LocalBufferOverrun"
  by code_simp

text \<open>
  The amended C7 on the small mesh, whose lists have one or two entries: both passes
  run to their end; and on the seventeen elements the filling loop goes on to cell 16.
\<close>

theorem buffers_in_bounds_witness:
  "GetElementRestriction ex_lor = Some ex_restr \<and> degree_ok ex_restr
   \<and> assembly_safe ex_lor ex_restr \<and> schedule ex_lor [0, 1, 2, 3] \<and> schedule ex_lor [3, 1, 0, 2]
   \<and> FillI_sched ex_lor [3, 1, 0, 2] (ex_empty\<lparr>GetI := [0, 0, 0, 0]\<rparr>)
       = Inr (ex_empty\<lparr>GetI := [0, 2, 5, 7]\<rparr>, 7)
   \<and> FillI_sched ex_lor [3, 1, 0, 2] (ex_empty\<lparr>GetI := [0, 0, 0, 0]\<rparr>) \<noteq> Inl LocalBufferOverrun
   \<and> FillJAndData_sched ex_lor [3, 1, 0, 2]
        \<lparr>Height = 3, Width = 3, GetI = [0, 2, 5, 7], GetJ = replicate 7 0, GetData = replicate 7 0\<rparr>
       = Inr \<lparr>Height = 3, Width = 3, GetI = [0, 2, 5, 7],
              GetJ = [0, 1, 0, 1, 2, 1, 2], GetData = [10, 20, 30, 5, - 60, - 70, 80]\<rparr>
   \<and> FillJAndData_sched ex_lor [3, 1, 0, 2]
        \<lparr>Height = 3, Width = 3, GetI = [0, 2, 5, 7], GetJ = replicate 7 0, GetData = replicate 7 0\<rparr>
       \<noteq> Inl LocalBufferOverrun
   \<and> (\<exists>A'. SparseIJToCSR_sched ex_lor [0, 1, 2, 3] [3, 1, 0, 2] (\<lambda>_. 0) (\<lambda>_. 0) ex_empty = Inr A')
   \<and> Max16 < 17 \<and> 0 + Max16 < int (length (Indices ex17_restr))
   \<and> FillI_elts ex17 ex17_restr 0 17 = Inl LocalBufferOverrun
   \<and> FillJ_elts ex17 ex17_restr 0 17 = Inl LocalBufferOverrun"
proof -
  have h: "GetElementRestriction ex_lor = Some ex_restr \<and> degree_ok ex_restr" by code_simp
  have s: "assembly_safe ex_lor ex_restr \<and> schedule ex_lor [0, 1, 2, 3] \<and> schedule ex_lor [3, 1, 0, 2]"
    by code_simp
  have g: "Max16 < 17 \<and> (0::int) \<le> 0 \<and> 0 + Max16 < int (length (Indices ex17_restr))"
    by code_simp
  have f1: "FillI_sched ex_lor [3, 1, 0, 2] (ex_empty\<lparr>GetI := [0, 0, 0, 0]\<rparr>)
       = Inr (ex_empty\<lparr>GetI := [0, 2, 5, 7]\<rparr>, 7)" by code_simp
  have f2: "FillJAndData_sched ex_lor [3, 1, 0, 2]
        \<lparr>Height = 3, Width = 3, GetI = [0, 2, 5, 7], GetJ = replicate 7 0, GetData = replicate 7 0\<rparr>
       = Inr \<lparr>Height = 3, Width = 3, GetI = [0, 2, 5, 7],
              GetJ = [0, 1, 0, 1, 2, 1, 2], GetData = [10, 20, 30, 5, - 60, - 70, 80]\<rparr>"
    by code_simp
  note t1 = buffers_in_bounds[of ex_lor ex_restr "[3, 1, 0, 2]" "ex_empty\<lparr>GetI := [0, 0, 0, 0]\<rparr>"
      "[0, 1, 2, 3]" "[3, 1, 0, 2]" "\<lambda>_. 0" "\<lambda>_. 0" ex_empty]
  note t3 = buffers_in_bounds[where b = ex17 and r = ex17_restr and n = 17 and offset = 0]
  note t2 = buffers_in_bounds[of ex_lor ex_restr "[3, 1, 0, 2]"
      "\<lparr>Height = 3, Width = 3, GetI = [0, 2, 5, 7], GetJ = replicate 7 0, GetData = replicate 7 0\<rparr>"]
  from t1 h have a: "FillI_sched ex_lor [3, 1, 0, 2] (ex_empty\<lparr>GetI := [0, 0, 0, 0]\<rparr>)
      \<noteq> Inl LocalBufferOverrun" by blast
  from t2 h have b: "FillJAndData_sched ex_lor [3, 1, 0, 2]
        \<lparr>Height = 3, Width = 3, GetI = [0, 2, 5, 7], GetJ = replicate 7 0, GetData = replicate 7 0\<rparr>
       \<noteq> Inl LocalBufferOverrun" by blast
  from t1 s have c: "\<exists>A'. SparseIJToCSR_sched ex_lor [0, 1, 2, 3] [3, 1, 0, 2] (\<lambda>_. 0) (\<lambda>_. 0) ex_empty
      = Inr A'" by blast
  from t3 g have d: "FillI_elts ex17 ex17_restr 0 17 = Inl LocalBufferOverrun
      \<and> FillJ_elts ex17 ex17_restr 0 17 = Inl LocalBufferOverrun" by blast
  from h s g f1 f2 a b c d show ?thesis by blast
qed

subsection \<open>Independence of the order of iterations and of atomic claims\<close>


text \<open>
  Claim C9. On an input whose reads are all in range, two runs of the assembly (row-count
  pass, then fill pass), each pass with its iterations in any order and the fresh
  memory in any state, both complete and deliver the same row offsets \<^verbatim>\<open>I\<close> and, for
  every row, the same entries (column, value) up to their order within the row. The
  same holds when the atomic claims of the fill pass are served in any order at all:
  whatever order the emitted entries are put in, each row ends with the same entries.
\<close>

theorem assembly_deterministic:
  assumes "assembly_safe b r"
    and "schedule b sched1" and "schedule b sched2"
    and "schedule b sched1'" and "schedule b sched2'"
  shows "\<exists>A A'. SparseIJToCSR_sched b sched1 sched2 ui ud A0 = Inr A
     \<and> SparseIJToCSR_sched b sched1' sched2' ui' ud' A0' = Inr A'
     \<and> GetI A' = GetI A \<and> Height A' = Height A \<and> Width A' = Width A
     \<and> (\<forall>d \<in> set [0..GetVSize b - 1]. mset (row_entries A' d) = mset (row_entries A d))
     \<and> (\<forall>order J0 D0.
          mset order = mset (concat (map (events b r) [0..n_edofs b - 1]))
          \<and> length J0 = length (GetJ A) \<and> length D0 = length J0
          \<longrightarrow> (\<exists>C J D. efold put_event order (GetI A, J0, D0) = Inr (C, J, D)
                \<and> (\<forall>d \<in> set [0..GetVSize b - 1].
                      mset (map (\<lambda>p. (J ! nat p, D ! nat p)) (row_slice (GetI A) d))
                        = mset (row_entries A d))))"
proof -
  let ?n = "GetVSize b"
  let ?ev = "\<lambda>s. concat (map (events b r) s)"
  let ?all = "?ev [0..n_edofs b - 1]"
  note m1 = schedule_mset[OF assms(2)] and m2 = schedule_mset[OF assms(3)]
    and m1' = schedule_mset[OF assms(4)] and m2' = schedule_mset[OF assms(5)]
  have e1: "mset (?ev sched1) = mset ?all" using m1 by (intro mset_concat_map_cong) simp
  have e2: "mset (?ev sched2) = mset ?all" using m2 by (intro mset_concat_map_cong) simp
  have e1': "mset (?ev sched1') = mset ?all" using m1' by (intro mset_concat_map_cong) simp
  have e2': "mset (?ev sched2') = mset ?all" using m2' by (intro mset_concat_map_cong) simp
  from assms(1) have sh: "shapes_ok b r" by (simp add: assembly_safe_def)
  from sh have n0: "0 \<le> ?n" by (simp add: shapes_ok_def)
  from SparseIJToCSR_sched_run[OF assms(1) m1[THEN conjunct2] m2[THEN conjunct2], of ui ud A0] e1 e2
  obtain A cnt where A: "SparseIJToCSR_sched b sched1 sched2 ui ud A0 = Inr A"
    and dim: "Height A = ?n" "Width A = ?n"
    and lc: "int (length cnt) = ?n + 1"
    and nth: "\<forall>d. 0 \<le> d \<and> d \<le> ?n \<longrightarrow> cnt ! nat d = count_row (?ev sched1) d"
    and I: "GetI A = prefix_sums cnt (nat ?n)"
    and rows: "\<forall>d. 0 \<le> d \<and> d < ?n \<longrightarrow> row_entries A d = row_events (?ev sched2) d"
    by auto
  from SparseIJToCSR_sched_run[OF assms(1) m1'[THEN conjunct2] m2'[THEN conjunct2], of ui' ud' A0']
    e1' e2'
  obtain A' cnt' where A': "SparseIJToCSR_sched b sched1' sched2' ui' ud' A0' = Inr A'"
    and dim': "Height A' = ?n" "Width A' = ?n"
    and lc': "int (length cnt') = ?n + 1"
    and nth': "\<forall>d. 0 \<le> d \<and> d \<le> ?n \<longrightarrow> cnt' ! nat d = count_row (?ev sched1') d"
    and I': "GetI A' = prefix_sums cnt' (nat ?n)"
    and rows': "\<forall>d. 0 \<le> d \<and> d < ?n \<longrightarrow> row_entries A' d = row_events (?ev sched2') d"
    by auto
  have nth_all: "\<forall>d. 0 \<le> d \<and> d \<le> ?n \<longrightarrow> cnt ! nat d = count_row ?all d"
    using nth count_row_mset[OF e1] by simp
  have "cnt' = cnt"
  proof (rule nth_equalityI)
    show "length cnt' = length cnt" using lc lc' by simp
  next
    fix k assume "k < length cnt'"
    with lc' n0 have k: "0 \<le> int k" "int k \<le> ?n" by linarith+
    from nth[rule_format, of "int k"] nth'[rule_format, of "int k"] k
      count_row_mset[OF e1, of "int k"] count_row_mset[OF e1', of "int k"]
    show "cnt' ! k = cnt ! k" by simp
  qed
  with I I' have II: "GetI A' = GetI A" by simp
  have rr: "\<forall>d \<in> set [0..?n - 1]. mset (row_entries A' d) = mset (row_entries A d)"
  proof
    fix d assume "d \<in> set [0..?n - 1]"
    then have d: "0 \<le> d \<and> d < ?n" by simp
    with rows rows' have "row_entries A d = row_events (?ev sched2) d"
      "row_entries A' d = row_events (?ev sched2') d" by blast+
    with row_events_mset[OF e2, of d] row_events_mset[OF e2', of d] show
      "mset (row_entries A' d) = mset (row_entries A d)" by simp
  qed
  have lenJ: "int (length (GetJ A)) = sum_list (take (nat ?n) cnt)"
  proof -
    from SparseIJToCSR_sched_eq_Inr[OF A] obtain A2 nnz where
      f: "FillI_sched b sched1 (A0\<lparr>Height := ?n, Width := ?n, GetI := New (?n + 1) ui\<rparr>)
            = Inr (A2, nnz)"
      and g: "FillJAndData_sched b sched2 (A2\<lparr>GetJ := New nnz ui, GetData := New nnz ud\<rparr>) = Inr A"
      by blast
    have l1: "int (length (GetI (A0\<lparr>Height := ?n, Width := ?n, GetI := New (?n + 1) ui\<rparr>))) = ?n + 1"
      using n0 by (simp add: New_def)
    from FillI_sched_run[OF assms(1) m1[THEN conjunct2] l1] f obtain c2 where
      c2: "int (length c2) = ?n + 1"
        "\<forall>d. 0 \<le> d \<and> d \<le> ?n \<longrightarrow> c2 ! nat d = count_row (?ev sched1) d"
        "nnz = sum_list (take (nat ?n) c2)"
      by auto
    have "c2 = cnt"
    proof (rule nth_equalityI)
      show "length c2 = length cnt" using lc c2(1) by simp
    next
      fix k assume "k < length c2"
      with c2(1) n0 have k: "0 \<le> int k" "int k \<le> ?n" by linarith+
      from nth[rule_format, of "int k"] c2(2)[rule_format, of "int k"] k
      show "c2 ! k = cnt ! k" by simp
    qed
    have "0 \<le> nnz"
      unfolding c2(3) \<open>c2 = cnt\<close>
    proof (rule sum_list_nonneg)
      fix x assume "x \<in> set (take (nat ?n) cnt)"
      then have "x \<in> set cnt" by (rule in_set_takeD)
      then obtain k where k: "k < length cnt" "x = cnt ! k" by (auto simp: in_set_conv_nth)
      with lc n0 have "int k \<le> ?n" by linarith
      with nth[rule_format, of "int k"] k show "0 \<le> x" by (simp add: count_row_nonneg)
    qed
    with FillJAndData_lengths[OF g] c2(3) \<open>c2 = cnt\<close> show ?thesis by (simp add: New_def)
  qed
  have any: "\<exists>C J D. efold put_event order (GetI A, J0, D0) = Inr (C, J, D)
                \<and> (\<forall>d \<in> set [0..?n - 1].
                      mset (map (\<lambda>p. (J ! nat p, D ! nat p)) (row_slice (GetI A) d))
                        = mset (row_entries A d))"
    if o: "mset order = mset ?all" and l: "length J0 = length (GetJ A)" "length D0 = length J0"
    for order J0 D0
  proof -
    have ro: "\<forall>e \<in> set order. 0 \<le> fst e \<and> fst e < ?n"
      using events_rows[OF sh, of "[0..n_edofs b - 1]"] mset_eq_setD[OF o] by simp
    have co: "\<forall>d. 0 \<le> d \<and> d \<le> ?n \<longrightarrow> cnt ! nat d = count_row order d"
      using nth_all count_row_mset[OF o] by simp
    from put_events_rows[OF ro n0 lc co, of J0 D0] lenJ l
    obtain C J D where run: "efold put_event order (GetI A, J0, D0) = Inr (C, J, D)"
      and rws: "\<forall>d. 0 \<le> d \<and> d < ?n \<longrightarrow>
          map (\<lambda>p. (J ! nat p, D ! nat p)) (row_slice (GetI A) d) = row_events order d"
      unfolding I by auto
    have "\<forall>d \<in> set [0..?n - 1].
        mset (map (\<lambda>p. (J ! nat p, D ! nat p)) (row_slice (GetI A) d)) = mset (row_entries A d)"
    proof
      fix d assume "d \<in> set [0..?n - 1]"
      then have d: "0 \<le> d \<and> d < ?n" by simp
      with rws rows have "map (\<lambda>p. (J ! nat p, D ! nat p)) (row_slice (GetI A) d) = row_events order d"
        "row_entries A d = row_events (?ev sched2) d" by blast+
      with row_events_mset[OF o, of d] row_events_mset[OF e2, of d]
      show "mset (map (\<lambda>p. (J ! nat p, D ! nat p)) (row_slice (GetI A) d)) = mset (row_entries A d)"
        by simp
    qed
    with run show ?thesis by blast
  qed
  from A A' II dim dim' rr any show ?thesis by (intro exI[of _ A] exI[of _ A']) simp
qed

theorem assembly_deterministic_witness:
  "assembly_safe ex_lor ex_restr
   \<and> schedule ex_lor [0, 1, 2, 3] \<and> schedule ex_lor [3, 1, 0, 2] \<and> schedule ex_lor [2, 3, 1, 0]
   \<and> (\<exists>A A'. SparseIJToCSR_sched ex_lor [0, 1, 2, 3] [0, 1, 2, 3] (\<lambda>_. 0) (\<lambda>_. 0) ex_empty = Inr A
        \<and> SparseIJToCSR_sched ex_lor [3, 1, 0, 2] [2, 3, 1, 0] (\<lambda>_. 7) (\<lambda>_. 9) ex_empty = Inr A'
        \<and> GetI A' = GetI A
        \<and> (\<forall>d \<in> set [0..GetVSize ex_lor - 1]. mset (row_entries A' d) = mset (row_entries A d)))"
proof -
  have s: "assembly_safe ex_lor ex_restr" by code_simp
  have s1: "schedule ex_lor [0, 1, 2, 3]" by code_simp
  have s2: "schedule ex_lor [3, 1, 0, 2]" by code_simp
  have s3: "schedule ex_lor [2, 3, 1, 0]" by code_simp
  from assembly_deterministic[OF s s1 s1 s2 s3, of "\<lambda>_. 0" "\<lambda>_. 0" ex_empty "\<lambda>_. 7" "\<lambda>_. 9" ex_empty]
  obtain A A' where "SparseIJToCSR_sched ex_lor [0, 1, 2, 3] [0, 1, 2, 3] (\<lambda>_. 0) (\<lambda>_. 0) ex_empty = Inr A"
    "SparseIJToCSR_sched ex_lor [3, 1, 0, 2] [2, 3, 1, 0] (\<lambda>_. 7) (\<lambda>_. 9) ex_empty = Inr A'"
    "GetI A' = GetI A"
    "\<forall>d \<in> set [0..GetVSize ex_lor - 1]. mset (row_entries A' d) = mset (row_entries A d)"
    by blast
  with s s1 s2 s3 show ?thesis by blast
qed

subsection \<open>The election\<close>

lemma common_min_step_Min:
  "common_min_step ys (int (length ys)) m e = (if e \<in> set ys then min m e else m)"
  by (simp add: common_min_step_def min_def)

lemma common_min_fold:
  "foldl (common_min_step ys (int (length ys))) m xs = Min (insert m (set xs \<inter> set ys))"
proof (induction xs arbitrary: m)
  case Nil
  show ?case by simp
next
  case (Cons e xs)
  show ?case
  proof (cases "e \<in> set ys")
    case True
    then have "insert m (set (e # xs) \<inter> set ys) = insert m (insert e (set xs \<inter> set ys))" by auto
    moreover have "Min (insert m (insert e (set xs \<inter> set ys)))
        = Min (insert (min m e) (set xs \<inter> set ys))"
      by (cases "set xs \<inter> set ys = {}") (simp_all add: min.assoc)
    ultimately show ?thesis using True Cons.IH[of "min m e"] by (simp add: common_min_step_Min)
  next
    case False
    then have "insert m (set (e # xs) \<inter> set ys) = insert m (set xs \<inter> set ys)" by auto
    then show ?thesis using False Cons.IH[of m] by (simp add: common_min_step_Min)
  qed
qed

lemma common_min_Min:
  assumes "set xs \<inter> set ys \<noteq> {}" and "\<forall>x \<in> set xs. x < INT_MAX"
  shows "common_min xs (int (length xs)) ys (int (length ys)) = Min (set xs \<inter> set ys)"
proof -
  let ?S = "set xs \<inter> set ys"
  have "common_min xs (int (length xs)) ys (int (length ys)) = Min (insert INT_MAX ?S)"
    by (simp add: common_min_def common_min_fold)
  also have "\<dots> = min INT_MAX (Min ?S)" using assms(1) by simp
  also have "\<dots> = Min ?S"
  proof -
    have "Min ?S \<in> ?S" using assms(1) by (intro Min_in) simp_all
    with assms(2) have "Min ?S < INT_MAX" by blast
    then show ?thesis by simp
  qed
  finally show ?thesis .
qed

subsection \<open>The incidence table as the inverse of the gather map\<close>

lemma incidence_okD:
  assumes "incidence_ok b r" and "0 \<le> d" "d < GetVSize b"
  shows "distinct (map decode (inc_list r d))"
    and "decode ` set (inc_list r d) = {x. 0 \<le> x \<and> x < n_edofs b \<and> gdof r x = d}"
    and "s \<in> set (inc_list r d) \<Longrightarrow> (0 \<le> s) = (0 \<le> sdof r (decode s))"
proof -
  from assms(2,3) have d: "d \<in> set [0..GetVSize b - 1]" by simp
  from assms(1)[unfolded incidence_ok_def, rule_format, OF d]
  have a: "distinct (map decode (inc_list r d))"
    and b: "set (map decode (inc_list r d)) = set (filter (\<lambda>x. gdof r x = d) [0..n_edofs b - 1])"
    and c: "\<forall>s \<in> set (inc_list r d). (0 \<le> s) = (0 \<le> sdof r (decode s))"
    by blast+
  show "distinct (map decode (inc_list r d))" by (rule a)
  from b show "decode ` set (inc_list r d) = {x. 0 \<le> x \<and> x < n_edofs b \<and> gdof r x = d}"
    by auto
  show "s \<in> set (inc_list r d) \<Longrightarrow> (0 \<le> s) = (0 \<le> sdof r (decode s))" using c by blast
qed

lemma inc_list_of_edof:
  assumes sh: "shapes_ok b r" and inc: "incidence_ok b r" and x: "x \<in> set [0..n_edofs b - 1]"
  shows "\<exists>s \<in> set (inc_list r (gdof r x)). decode s = x"
proof -
  from shapes_gdof[OF sh x] have d: "0 \<le> gdof r x" "gdof r x < GetVSize b" by simp_all
  from x have "x \<in> {y. 0 \<le> y \<and> y < n_edofs b \<and> gdof r y = gdof r x}" by simp
  with incidence_okD(2)[OF inc d] have "x \<in> decode ` set (inc_list r (gdof r x))" by simp
  then show ?thesis by auto
qed

lemma edof_of_inc_list:
  assumes sh: "shapes_ok b r" and inc: "incidence_ok b r" and d: "0 \<le> d" "d < GetVSize b"
    and s: "s \<in> set (inc_list r d)"
  shows "decode s \<in> set [0..n_edofs b - 1] \<and> gdof r (decode s) = d
     \<and> elt_of b s = decode s div GetDof b \<and> slot_of b s = decode s mod GetDof b
     \<and> (0 \<le> s) = (0 \<le> sdof r (decode s))"
proof -
  from s have "decode s \<in> decode ` set (inc_list r d)" by simp
  with incidence_okD(2)[OF inc d] have "0 \<le> decode s \<and> decode s < n_edofs b \<and> gdof r (decode s) = d"
    by simp
  with incidence_okD(3)[OF inc d s] show ?thesis by (simp add: elt_of_def slot_of_def)
qed

lemma elt_list_of_edof:
  assumes sh: "shapes_ok b r" and inc: "incidence_ok b r" and x: "x \<in> set [0..n_edofs b - 1]"
  shows "x div GetDof b \<in> set (elt_list b r (gdof r x))"
proof -
  from inc_list_of_edof[OF sh inc x] obtain s where
    "s \<in> set (inc_list r (gdof r x))" "decode s = x" by blast
  then have "elt_of b s \<in> set (elt_list b r (gdof r x))" "elt_of b s = x div GetDof b"
    by (auto simp: elt_list_def elt_of_def)
  then show ?thesis by simp
qed

lemma edof_of_elt_list:
  assumes sh: "shapes_ok b r" and inc: "incidence_ok b r" and d: "0 \<le> d" "d < GetVSize b"
    and e: "e \<in> set (elt_list b r d)"
  shows "\<exists>x \<in> set [0..n_edofs b - 1]. gdof r x = d \<and> x div GetDof b = e"
proof -
  from e obtain s where s: "s \<in> set (inc_list r d)" "e = elt_of b s"
    by (auto simp: elt_list_def)
  from edof_of_inc_list[OF sh inc d s(1)] s(2) show ?thesis by auto
qed

lemma elt_list_bound:
  assumes sh: "shapes_ok b r" and d: "0 \<le> d" "d < GetVSize b"
    and e: "e \<in> set (elt_list b r d)"
  shows "e < INT_MAX"
proof -
  from e obtain s where s: "s \<in> set (inc_list r d)" "e = elt_of b s"
    by (auto simp: elt_list_def)
  from shapes_inc_list[OF sh d s(1)] s(2) have e: "0 \<le> e" "e < GetNE b" by simp_all
  from sh have n: "0 < GetDof b" "GetDof b * GetNE b \<le> INT_MAX"
    by (simp_all add: shapes_ok_def n_edofs_def)
  from n(1) e have "GetNE b \<le> GetDof b * GetNE b" by (simp add: mult_le_cancel_right1)
  with e n(2) show ?thesis by linarith
qed

lemma slots_distinctD:
  assumes "slots_distinct b r" and "x \<in> set [0..n_edofs b - 1]" "y \<in> set [0..n_edofs b - 1]"
    and "x div GetDof b = y div GetDof b" "gdof r x = gdof r y"
  shows "x = y"
  using assms unfolding slots_distinct_def by blast

lemma tmpl_distinctD:
  assumes "tmpl_distinct b" and "0 \<le> a" "a < GetDof b"
    and "k \<in> set [0..sparse_mapping_Height b - 1]" "k' \<in> set [0..sparse_mapping_Height b - 1]"
    and "0 \<le> tmpl b k a" "tmpl b k a = tmpl b k' a"
  shows "k = k'"
proof -
  from assms(2,3) have a: "a \<in> set [0..GetDof b - 1]" by simp
  from assms(1)[unfolded tmpl_distinct_def, rule_format, OF a assms(4,5)] assms(6,7)
  show ?thesis by blast
qed

lemma tmpl_agreesD:
  assumes "tmpl_agrees b r" and "x \<in> set [0..n_edofs b - 1]" "x' \<in> set [0..n_edofs b - 1]"
    and "gdof r x = gdof r x'"
    and "0 \<le> c" "c < GetDof b" "0 \<le> c'" "c' < GetDof b"
    and "gdof r (c + GetDof b * (x div GetDof b)) = gdof r (c' + GetDof b * (x' div GetDof b))"
  shows "coupled b (x mod GetDof b) c = coupled b (x' mod GetDof b) c'"
proof -
  from assms(5-8) have c: "c \<in> set [0..GetDof b - 1]" "c' \<in> set [0..GetDof b - 1]" by simp_all
  from assms(1)[unfolded tmpl_agrees_def, rule_format, OF assms(2,3,4) c assms(9)]
  show ?thesis .
qed

subsection \<open>Which iterations emit\<close>

lemma emits_elected:
  "emits b r i j \<longleftrightarrow>
     0 \<le> col_slot b i j
     \<and> (no_conflict r (gdof r i) (gdof r (col_edof b i j))
        \<or> i div GetDof b = elected b r (gdof r i) (gdof r (col_edof b i j)))"
  by (simp add: emits_def elected_def Let_def)

lemma col_edof_split:
  assumes sh: "shapes_ok b r" and i: "i \<in> set [0..n_edofs b - 1]"
    and j: "j \<in> set [0..sparse_mapping_Height b - 1]" and c: "0 \<le> col_slot b i j"
  shows "col_edof b i j \<in> set [0..n_edofs b - 1]"
    and "col_edof b i j div GetDof b = i div GetDof b"
    and "col_edof b i j mod GetDof b = col_slot b i j"
    and "col_slot b i j < GetDof b"
    and "0 \<le> gdof r (col_edof b i j)" and "gdof r (col_edof b i j) < GetVSize b"
proof -
  from col_edof_in_range[OF sh i j c] show y: "col_edof b i j \<in> set [0..n_edofs b - 1]"
    and lt: "col_slot b i j < GetDof b" by simp_all
  from edof_join[OF c lt, of "i div GetDof b"]
  show "col_edof b i j div GetDof b = i div GetDof b"
    "col_edof b i j mod GetDof b = col_slot b i j" by (simp_all add: col_edof_def)
  from shapes_gdof[OF sh y] show "0 \<le> gdof r (col_edof b i j)"
    "gdof r (col_edof b i j) < GetVSize b" by simp_all
qed

lemma elected_Min:
  assumes sh: "shapes_ok b r" and d: "0 \<le> d" "d < GetVSize b" and c: "0 \<le> c" "c < GetVSize b"
    and ne: "set (elt_list b r d) \<inter> set (elt_list b r c) \<noteq> {}"
  shows "elected b r d c = Min (set (elt_list b r d) \<inter> set (elt_list b r c))"
proof -
  from shapes_offsets[OF sh d] shapes_offsets[OF sh c]
  have l: "inc_len r d = int (length (elt_list b r d))" "inc_len r c = int (length (elt_list b r c))"
    by (simp_all add: length_elt_list)
  have "\<forall>x \<in> set (elt_list b r d). x < INT_MAX" using elt_list_bound[OF sh d] by blast
  from common_min_Min[OF ne this] show ?thesis unfolding elected_def l[symmetric] .
qed

lemma elected_common:
  assumes sh: "shapes_ok b r" and inc: "incidence_ok b r"
    and x: "x \<in> set [0..n_edofs b - 1]" and y: "y \<in> set [0..n_edofs b - 1]"
    and e: "x div GetDof b = y div GetDof b"
  shows "elected b r (gdof r x) (gdof r y)
           = Min (set (elt_list b r (gdof r x)) \<inter> set (elt_list b r (gdof r y)))"
    and "elected b r (gdof r x) (gdof r y)
           \<in> set (elt_list b r (gdof r x)) \<inter> set (elt_list b r (gdof r y))"
proof -
  let ?S = "set (elt_list b r (gdof r x)) \<inter> set (elt_list b r (gdof r y))"
  from elt_list_of_edof[OF sh inc x] elt_list_of_edof[OF sh inc y] e
  have "x div GetDof b \<in> ?S" by simp
  then have ne: "?S \<noteq> {}" by blast
  from shapes_gdof[OF sh x] shapes_gdof[OF sh y]
  have d: "0 \<le> gdof r x" "gdof r x < GetVSize b" "0 \<le> gdof r y" "gdof r y < GetVSize b"
    by simp_all
  from elected_Min[OF sh d ne] show m: "elected b r (gdof r x) (gdof r y) = Min ?S" .
  have "Min ?S \<in> ?S" using ne by (intro Min_in) simp_all
  with m show "elected b r (gdof r x) (gdof r y) \<in> ?S" by simp
qed

lemma inc_len_one:
  assumes sh: "shapes_ok b r" and inc: "incidence_ok b r"
    and x: "x \<in> set [0..n_edofs b - 1]" and y: "y \<in> set [0..n_edofs b - 1]"
    and g: "gdof r x = gdof r y" and one: "inc_len r (gdof r x) = 1"
  shows "x = y"
proof -
  from one have "length (inc_list r (gdof r x)) = 1" by (simp add: length_inc_list)
  then obtain s where s: "inc_list r (gdof r x) = [s]"
    by (cases "inc_list r (gdof r x)") simp_all
  from inc_list_of_edof[OF sh inc x] s have "x = decode s" by simp
  moreover from inc_list_of_edof[OF sh inc y] g s have "y = decode s" by simp
  ultimately show ?thesis by simp
qed

lemma emits_unique:
  assumes sh: "shapes_ok b r" and inc: "incidence_ok b r"
    and sd: "slots_distinct b r" and td: "tmpl_distinct b"
    and i: "i \<in> set [0..n_edofs b - 1]" and i': "i' \<in> set [0..n_edofs b - 1]"
    and j: "j \<in> set [0..sparse_mapping_Height b - 1]"
    and j': "j' \<in> set [0..sparse_mapping_Height b - 1]"
    and e: "emits b r i j" and e': "emits b r i' j'"
    and row: "gdof r i = gdof r i'"
    and col: "gdof r (col_edof b i j) = gdof r (col_edof b i' j')"
  shows "i = i' \<and> j = j'"
proof -
  let ?n = "GetDof b"
  let ?y = "col_edof b i j" and ?y' = "col_edof b i' j'"
  from e e' have c: "0 \<le> col_slot b i j" "0 \<le> col_slot b i' j'" by (simp_all add: emits_elected)
  note y = col_edof_split[OF sh i j c(1)] and y' = col_edof_split[OF sh i' j' c(2)]
  have el: "i div ?n = i' div ?n"
  proof (cases "no_conflict r (gdof r i) (gdof r ?y)")
    case True
    then consider "inc_len r (gdof r i) = 1" | "inc_len r (gdof r ?y) = 1"
      by (auto simp: no_conflict_def)
    then show ?thesis
    proof cases
      case 1
      from inc_len_one[OF sh inc i i' row 1] show ?thesis by simp
    next
      case 2
      from inc_len_one[OF sh inc y(1) y'(1) col 2] have "?y = ?y'" .
      with y(2) y'(2) show ?thesis by simp
    qed
  next
    case False
    with e have "i div ?n = elected b r (gdof r i) (gdof r ?y)" by (simp add: emits_elected)
    moreover from False row col e' have "i' div ?n = elected b r (gdof r i') (gdof r ?y')"
      by (simp add: emits_elected)
    ultimately show ?thesis using row col by simp
  qed
  from slots_distinctD[OF sd i i' el row] have ii: "i = i'" .
  from y(2) y'(2) el have "?y div ?n = ?y' div ?n" by simp
  from slots_distinctD[OF sd y(1) y'(1) this col] have "?y = ?y'" .
  with y(3) y'(3) have "col_slot b i j = col_slot b i' j'" by simp
  with ii have t: "tmpl b j (i mod ?n) = tmpl b j' (i mod ?n)" by (simp add: col_slot_def)
  from shapes_edof[OF sh i] have a: "0 \<le> i mod ?n" "i mod ?n < ?n" by simp_all
  from c(1) have "0 \<le> tmpl b j (i mod ?n)" by (simp add: col_slot_def)
  from tmpl_distinctD[OF td a j j' this t] ii show ?thesis by simp
qed

lemma coupled_by_agreement:
  assumes sh: "shapes_ok b r" and ta: "tmpl_agrees b r"
    and i: "i \<in> set [0..n_edofs b - 1]" and j: "j \<in> set [0..sparse_mapping_Height b - 1]"
    and c: "0 \<le> col_slot b i j"
    and x: "x \<in> set [0..n_edofs b - 1]" and y: "y \<in> set [0..n_edofs b - 1]"
    and e: "x div GetDof b = y div GetDof b"
    and row: "gdof r x = gdof r i" and col: "gdof r y = gdof r (col_edof b i j)"
  shows "\<exists>k \<in> set [0..sparse_mapping_Height b - 1].
           tmpl b k (x mod GetDof b) = y mod GetDof b \<and> col_edof b x k = y"
proof -
  let ?n = "GetDof b"
  note cj = col_edof_split[OF sh i j c]
  from shapes_edof[OF sh y] have ym: "0 \<le> y mod ?n" "y mod ?n < ?n"
    "y mod ?n + ?n * (y div ?n) = y" by simp_all
  have "gdof r (col_slot b i j + ?n * (i div ?n)) = gdof r (y mod ?n + ?n * (x div ?n))"
    using col ym(3) e by (simp add: col_edof_def)
  from tmpl_agreesD[OF ta i x row[symmetric] c cj(4) ym(1,2) this]
  have "coupled b (i mod ?n) (col_slot b i j) = coupled b (x mod ?n) (y mod ?n)" .
  moreover have "coupled b (i mod ?n) (col_slot b i j)"
    using j unfolding coupled_def col_slot_def by blast
  ultimately have "coupled b (x mod ?n) (y mod ?n)" by simp
  then obtain k where k: "k \<in> set [0..sparse_mapping_Height b - 1]"
    "tmpl b k (x mod ?n) = y mod ?n" unfolding coupled_def by auto
  then have "col_edof b x k = y" using ym(3) e by (simp add: col_edof_def col_slot_def)
  with k show ?thesis by blast
qed

lemma emits_exists:
  assumes sh: "shapes_ok b r" and inc: "incidence_ok b r" and ta: "tmpl_agrees b r"
    and i: "i \<in> set [0..n_edofs b - 1]" and j: "j \<in> set [0..sparse_mapping_Height b - 1]"
    and c: "0 \<le> col_slot b i j"
  shows "\<exists>i' \<in> set [0..n_edofs b - 1]. \<exists>j' \<in> set [0..sparse_mapping_Height b - 1].
           emits b r i' j' \<and> gdof r i' = gdof r i
           \<and> gdof r (col_edof b i' j') = gdof r (col_edof b i j)"
proof (cases "no_conflict r (gdof r i) (gdof r (col_edof b i j))")
  case True
  with c have "emits b r i j" by (simp add: emits_elected)
  with i j show ?thesis by blast
next
  case False
  let ?n = "GetDof b"
  let ?d = "gdof r i" and ?c = "gdof r (col_edof b i j)"
  note cj = col_edof_split[OF sh i j c]
  from shapes_gdof[OF sh i] have d: "0 \<le> ?d" "?d < GetVSize b" by simp_all
  from elected_common(2)[OF sh inc i cj(1) cj(2)[symmetric]]
  have el: "elected b r ?d ?c \<in> set (elt_list b r ?d)" "elected b r ?d ?c \<in> set (elt_list b r ?c)"
    by simp_all
  from edof_of_elt_list[OF sh inc d el(1)] obtain x where
    x: "x \<in> set [0..n_edofs b - 1]" "gdof r x = ?d" "x div ?n = elected b r ?d ?c" by blast
  from edof_of_elt_list[OF sh inc cj(5,6) el(2)] obtain y where
    y: "y \<in> set [0..n_edofs b - 1]" "gdof r y = ?c" "y div ?n = elected b r ?d ?c" by blast
  from x(3) y(3) have e: "x div ?n = y div ?n" by simp
  from coupled_by_agreement[OF sh ta i j c x(1) y(1) e x(2) y(2)] obtain k where
    k: "k \<in> set [0..sparse_mapping_Height b - 1]" "tmpl b k (x mod ?n) = y mod ?n"
    "col_edof b x k = y" by blast
  from shapes_edof[OF sh y(1)] k(2) have "0 \<le> col_slot b x k" by (simp add: col_slot_def)
  with x(2,3) y(2) k(3) have "emits b r x k" by (simp add: emits_elected)
  with x(1,2) y(2) k(1,3) show ?thesis by blast
qed

subsection \<open>The reverse lookups succeed\<close>

lemma lookup_found:
  assumes "k \<in> set [0..sparse_mapping_Height b - 1]" and "tmpl b k a = c"
  shows "0 \<le> lookup b a c"
proof -
  from assms have "find (\<lambda>m. tmpl b m a = c) [0..sparse_mapping_Height b - 1] \<noteq> None"
    by (auto simp: find_None_iff)
  then obtain m where m: "find (\<lambda>m. tmpl b m a = c) [0..sparse_mapping_Height b - 1] = Some m"
    by blast
  then have "m \<in> set [0..sparse_mapping_Height b - 1]"
    by (auto simp: find_Some_iff in_set_conv_nth simp del: set_upto)
  with m show ?thesis by (simp add: lookup_def)
qed

lemma mesh_lookups_ok:
  assumes sh: "shapes_ok b r" and inc: "incidence_ok b r" and ta: "tmpl_agrees b r"
  shows "lookups_ok b r"
  unfolding lookups_ok_def
proof (intro ballI impI)
  fix i j sk sl
  let ?n = "GetDof b"
  assume i: "i \<in> set [0..n_edofs b - 1]" and j: "j \<in> set [0..sparse_mapping_Height b - 1]"
    and em: "emits b r i j \<and> \<not> no_conflict r (gdof r i) (gdof r (col_edof b i j))"
    and sk: "sk \<in> set (inc_list r (gdof r i))"
    and sl: "sl \<in> set (inc_list r (gdof r (col_edof b i j)))"
    and e: "elt_of b sk = elt_of b sl"
  from em have c: "0 \<le> col_slot b i j" by (simp add: emits_elected)
  note cj = col_edof_split[OF sh i j c]
  from shapes_gdof[OF sh i] have d: "0 \<le> gdof r i" "gdof r i < GetVSize b" by simp_all
  note x = edof_of_inc_list[OF sh inc d sk] and y = edof_of_inc_list[OF sh inc cj(5,6) sl]
  from x y e have e': "decode sk div ?n = decode sl div ?n" by simp
  from coupled_by_agreement[OF sh ta i j c x[THEN conjunct1] y[THEN conjunct1] e']
    x y obtain k where "k \<in> set [0..sparse_mapping_Height b - 1]"
    "tmpl b k (decode sk mod ?n) = decode sl mod ?n" by auto
  from lookup_found[OF this] x y show "0 \<le> lookup b (slot_of b sk) (slot_of b sl)" by simp
qed

lemma mesh_ok_safe: "mesh_ok b r \<Longrightarrow> assembly_safe b r"
  by (simp add: mesh_ok_def assembly_safe_def mesh_lookups_ok)

subsection \<open>The entries emitted for a row\<close>

lemma entry_fst [simp]: "fst (entry b r i j) = gdof r i"
  by (simp add: entry_def Let_def)

lemma entry_col [simp]: "fst (snd (entry b r i j)) = gdof r (col_edof b i j)"
  by (simp add: entry_def Let_def)

lemma row_events_append: "row_events (es @ es') d = row_events es d @ row_events es' d"
  by (simp add: row_events_def)

lemma row_events_of_iteration:
  "row_events (events b r i) d = (if gdof r i = d then map snd (events b r i) else [])"
  by (simp add: row_events_def events_def filter_map o_def)

lemma row_events_concat:
  "row_events (concat (map (events b r) xs)) d
     = concat (map (\<lambda>i. map snd (events b r i)) (filter (\<lambda>i. gdof r i = d) xs))"
  by (induction xs) (simp_all add: row_events_append row_events_of_iteration, simp add: row_events_def)

lemma row_cols_concat:
  "map fst (row_events (concat (map (events b r) xs)) d)
     = concat (map (\<lambda>i. map (\<lambda>j. gdof r (col_edof b i j))
                          (filter (emits b r i) [0..sparse_mapping_Height b - 1]))
                 (filter (\<lambda>i. gdof r i = d) xs))"
  by (simp add: row_events_concat map_concat o_def events_def)

lemma in_row_events:
  "e \<in> set (row_events (concat (map (events b r) xs)) d) \<longleftrightarrow>
     (\<exists>i \<in> set xs. \<exists>j \<in> set [0..sparse_mapping_Height b - 1].
        emits b r i j \<and> gdof r i = d \<and> e = snd (entry b r i j))"
  unfolding row_events_concat by (force simp: events_def)

lemma distinct_concat_map:
  assumes "distinct xs" and "\<And>x. x \<in> set xs \<Longrightarrow> distinct (f x)"
    and "\<And>x y. x \<in> set xs \<Longrightarrow> y \<in> set xs \<Longrightarrow> x \<noteq> y \<Longrightarrow> set (f x) \<inter> set (f y) = {}"
  shows "distinct (concat (map f xs))"
  using assms
proof (induction xs)
  case Nil
  show ?case by simp
next
  case (Cons x xs)
  have "distinct (concat (map f xs))" using Cons.prems by (intro Cons.IH) auto
  moreover have "distinct (f x)" using Cons.prems(2) by simp
  moreover have "set (f x) \<inter> set (concat (map f xs)) = {}"
  proof -
    have "set (f x) \<inter> set (f y) = {}" if "y \<in> set xs" for y
      using Cons.prems(1) Cons.prems(3)[of x y] that by auto
    then show ?thesis by auto
  qed
  ultimately show ?case by simp
qed

lemma row_cols_distinct:
  assumes sh: "shapes_ok b r" and inc: "incidence_ok b r"
    and sd: "slots_distinct b r" and td: "tmpl_distinct b"
  shows "distinct (map fst (row_events (concat (map (events b r) [0..n_edofs b - 1])) d))"
  unfolding row_cols_concat
proof (rule distinct_concat_map)
  let ?js = "[0..sparse_mapping_Height b - 1]"
  show "distinct (filter (\<lambda>i. gdof r i = d) [0..n_edofs b - 1])" by simp
  show "distinct (map (\<lambda>j. gdof r (col_edof b i j)) (filter (emits b r i) ?js))"
    if "i \<in> set (filter (\<lambda>i. gdof r i = d) [0..n_edofs b - 1])" for i
  proof -
    from that have i: "i \<in> set [0..n_edofs b - 1]" by simp
    have "inj_on (\<lambda>j. gdof r (col_edof b i j)) (set (filter (emits b r i) ?js))"
    proof (rule inj_onI)
      fix j j' assume "j \<in> set (filter (emits b r i) ?js)" "j' \<in> set (filter (emits b r i) ?js)"
        and c: "gdof r (col_edof b i j) = gdof r (col_edof b i j')"
      then have j: "j \<in> set ?js" "j' \<in> set ?js" and e: "emits b r i j" "emits b r i j'" by simp_all
      from emits_unique[OF sh inc sd td i i j e refl c] show "j = j'" by simp
    qed
    then show ?thesis by (simp add: distinct_map)
  qed
  show "set (map (\<lambda>j. gdof r (col_edof b i j)) (filter (emits b r i) ?js))
      \<inter> set (map (\<lambda>j. gdof r (col_edof b i' j)) (filter (emits b r i') ?js)) = {}"
    if "i \<in> set (filter (\<lambda>i. gdof r i = d) [0..n_edofs b - 1])"
      and "i' \<in> set (filter (\<lambda>i. gdof r i = d) [0..n_edofs b - 1])" and ne: "i \<noteq> i'" for i i'
  proof (rule ccontr)
    assume "\<not> ?thesis"
    then obtain c where
      "c \<in> set (map (\<lambda>j. gdof r (col_edof b i j)) (filter (emits b r i) ?js))"
      "c \<in> set (map (\<lambda>j. gdof r (col_edof b i' j)) (filter (emits b r i') ?js))" by blast
    then obtain j j' where j: "j \<in> set ?js" "emits b r i j" "c = gdof r (col_edof b i j)"
      and j': "j' \<in> set ?js" "emits b r i' j'" "c = gdof r (col_edof b i' j')" by auto
    from that have i: "i \<in> set [0..n_edofs b - 1]" "i' \<in> set [0..n_edofs b - 1]"
      and row: "gdof r i = gdof r i'" by simp_all
    from j(3) j'(3) have col: "gdof r (col_edof b i j) = gdof r (col_edof b i' j')" by simp
    from emits_unique[OF sh inc sd td i j(1) j'(1) j(2) j'(2) row col] ne show False by simp
  qed
qed

lemma row_cols_asserted:
  assumes sh: "shapes_ok b r" and inc: "incidence_ok b r" and ta: "tmpl_agrees b r"
  shows "set (map fst (row_events (concat (map (events b r) [0..n_edofs b - 1])) d))
     = set (asserted_cols b r d)"
proof (intro equalityI subsetI)
  fix c assume "c \<in> set (map fst (row_events (concat (map (events b r) [0..n_edofs b - 1])) d))"
  then obtain i j where "i \<in> set [0..n_edofs b - 1]" "j \<in> set [0..sparse_mapping_Height b - 1]"
    "emits b r i j" "gdof r i = d" "c = gdof r (col_edof b i j)"
    unfolding row_cols_concat by auto
  moreover from this have "0 \<le> col_slot b i j" by (simp add: emits_elected)
  ultimately show "c \<in> set (asserted_cols b r d)" unfolding asserted_cols_def by auto
next
  fix c assume "c \<in> set (asserted_cols b r d)"
  then obtain i j where i: "i \<in> set [0..n_edofs b - 1]"
    and j: "j \<in> set [0..sparse_mapping_Height b - 1]"
    and c: "0 \<le> col_slot b i j" and d: "gdof r i = d" "c = gdof r (col_edof b i j)"
    unfolding asserted_cols_def by auto
  from emits_exists[OF sh inc ta i j c] obtain i' j' where
    "i' \<in> set [0..n_edofs b - 1]" "j' \<in> set [0..sparse_mapping_Height b - 1]"
    "emits b r i' j'" "gdof r i' = gdof r i" "gdof r (col_edof b i' j') = gdof r (col_edof b i j)"
    by blast
  with d show "c \<in> set (map fst (row_events (concat (map (events b r) [0..n_edofs b - 1])) d))"
    unfolding row_cols_concat by force
qed

lemma row_count_distinct:
  assumes sh: "shapes_ok b r" and inc: "incidence_ok b r"
    and sd: "slots_distinct b r" and td: "tmpl_distinct b" and ta: "tmpl_agrees b r"
  shows "count_row (concat (map (events b r) [0..n_edofs b - 1])) d
     = int (card (set (asserted_cols b r d)))"
proof -
  let ?all = "concat (map (events b r) [0..n_edofs b - 1])"
  have "count_row ?all d = int (length (map fst (row_events ?all d)))"
    by (simp add: length_row_events)
  also have "\<dots> = int (card (set (map fst (row_events ?all d))))"
    using row_cols_distinct[OF sh inc sd td, of d] by (simp only: distinct_card)
  also have "\<dots> = int (card (set (asserted_cols b r d)))"
    by (simp only: row_cols_asserted[OF sh inc ta])
  finally show ?thesis .
qed

subsection \<open>The value of an emitted entry\<close>

lemma foldl_cond_sum:
  "foldl (\<lambda>val x. if P x then val + g x else val) (v :: real) xs
     = v + sum_list (map g (filter P xs))"
  by (induction xs arbitrary: v) simp_all

lemma foldl_plus_sum:
  "foldl (\<lambda>val x. val + g x) (v :: real) xs = v + sum_list (map g xs)"
  by (induction xs arbitrary: v) simp_all

lemma acc_val_sum:
  "acc_val b r d c
     = sum_list (map (\<lambda>sk. sum_list (map (acc_term b sk)
                                (filter (\<lambda>sl. elt_of b sk = elt_of b sl) (inc_list r c))))
                  (inc_list r d))"
  by (simp add: acc_val_def foldl_cond_sum foldl_plus_sum)

lemma sum_list_concat_map:
  "sum_list (concat (map f xs)) = (sum_list (map (\<lambda>x. sum_list (f x)) xs) :: real)"
  by (induction xs) simp_all

lemma contributions_sum:
  "sum_list (contributions b r d c)
     = sum_list (map (\<lambda>i. sum_list (map (\<lambda>j. of_int (sgn_of (sdof r (col_edof b i j)) (sdof r i))
                                              * val_at b j (i mod GetDof b) (i div GetDof b))
                       (filter (\<lambda>j. 0 \<le> col_slot b i j \<and> gdof r (col_edof b i j) = c)
                          [0..sparse_mapping_Height b - 1])))
                  (filter (\<lambda>i. gdof r i = d) [0..n_edofs b - 1]))"
  by (simp add: contributions_def sum_list_concat_map)

lemma sum_list_reindex:
  assumes "distinct (map h ks)" and "distinct xs" and "set (map h ks) = set xs"
  shows "sum_list (map F xs) = (sum_list (map (\<lambda>k. F (h k)) ks) :: real)"
proof -
  from assms have "mset (map h ks) = mset xs" by (simp only: set_eq_iff_mset_eq_distinct)
  then have "mset (map F (map h ks)) = mset (map F xs)" by (metis mset_map)
  then have "sum_mset (mset (map F (map h ks))) = sum_mset (mset (map F xs))" by simp
  then show ?thesis by (simp only: sum_mset_sum_list map_map o_def)
qed

lemma filter_single:
  assumes "distinct xs" and "x \<in> set xs" and "P x"
    and "\<And>y. y \<in> set xs \<Longrightarrow> P y \<Longrightarrow> y = x"
  shows "filter P xs = [x]"
proof -
  from assms(2) obtain ys zs where xs: "xs = ys @ x # zs" by (auto simp: in_set_conv_decomp)
  with assms(1) have nx: "x \<notin> set ys" "x \<notin> set zs" by auto
  have "\<not> P y" if "y \<in> set ys \<union> set zs" for y
  proof
    assume "P y"
    moreover from that xs have "y \<in> set xs" by auto
    ultimately have "y = x" by (rule assms(4)[rotated])
    with that nx show False by auto
  qed
  then have "filter P ys = []" "filter P zs = []" by (auto simp: filter_empty_conv)
  with xs assms(3) show ?thesis by simp
qed

lemma sum_list_single:
  assumes "distinct xs" and "x \<in> set xs" and "\<And>y. y \<in> set xs \<Longrightarrow> y \<noteq> x \<Longrightarrow> F y = 0"
  shows "sum_list (map F xs) = (F x :: real)"
proof -
  have "sum_list (map F xs) = sum F (set xs)"
    using assms(1) by (simp add: sum_list_distinct_conv_sum_set)
  also have "\<dots> = sum F {x}"
    using assms(2,3) by (intro sum.mono_neutral_right) auto
  finally show ?thesis by simp
qed

lemma sgn_of_cong:
  "(0 \<le> a) = (0 \<le> a') \<Longrightarrow> (0 \<le> c) = (0 \<le> c') \<Longrightarrow> sgn_of a c = sgn_of a' c'"
  by (simp add: sgn_of_def not_le[symmetric])

lemma lookup_unique:
  assumes td: "tmpl_distinct b" and a: "0 \<le> a" "a < GetDof b"
    and k: "k \<in> set [0..sparse_mapping_Height b - 1]" and t: "tmpl b k a = c" and c: "0 \<le> c"
  shows "lookup b a c = k"
proof -
  from lookup_found[OF k t] have l0: "0 \<le> lookup b a c" .
  from lookup_bounds[OF l0] l0 have l: "lookup b a c \<in> set [0..sparse_mapping_Height b - 1]"
    "tmpl b (lookup b a c) a = c" by simp_all
  from t c have "0 \<le> tmpl b k a" by simp
  moreover from t l(2) have "tmpl b k a = tmpl b (lookup b a c) a" by simp
  ultimately have "k = lookup b a c" by (rule tmpl_distinctD[OF td a k l(1)])
  then show ?thesis by (rule sym)
qed

text \<open>
  One reference \<open>sk\<close> of the row DOF: the references of the column DOF in the same
  element are at most one, and with it goes exactly one template entry.
\<close>

lemma reference_terms:
  assumes sh: "shapes_ok b r" and inc: "incidence_ok b r"
    and sd: "slots_distinct b r" and td: "tmpl_distinct b" and ta: "tmpl_agrees b r"
    and i: "i \<in> set [0..n_edofs b - 1]" and j: "j \<in> set [0..sparse_mapping_Height b - 1]"
    and cs: "0 \<le> col_slot b i j"
    and sk: "sk \<in> set (inc_list r (gdof r i))"
  shows "sum_list (map (acc_term b sk)
           (filter (\<lambda>sl. elt_of b sk = elt_of b sl) (inc_list r (gdof r (col_edof b i j)))))
     = sum_list (map (\<lambda>k. of_int (sgn_of (sdof r (col_edof b (decode sk) k)) (sdof r (decode sk)))
                            * val_at b k (decode sk mod GetDof b) (decode sk div GetDof b))
         (filter (\<lambda>k. 0 \<le> col_slot b (decode sk) k
                       \<and> gdof r (col_edof b (decode sk) k) = gdof r (col_edof b i j))
            [0..sparse_mapping_Height b - 1]))"
proof -
  let ?n = "GetDof b" and ?js = "[0..sparse_mapping_Height b - 1]"
  let ?c = "gdof r (col_edof b i j)" and ?x = "decode sk"
  note cj = col_edof_split[OF sh i j cs]
  from shapes_gdof[OF sh i] have d: "0 \<le> gdof r i" "gdof r i < GetVSize b" by simp_all
  from edof_of_inc_list[OF sh inc d sk] have x: "?x \<in> set [0..n_edofs b - 1]"
    and gx: "gdof r ?x = gdof r i" and ex: "elt_of b sk = ?x div ?n" and sx: "slot_of b sk = ?x mod ?n"
    and px: "(0 \<le> sk) = (0 \<le> sdof r ?x)" by simp_all
  from shapes_edof[OF sh x] have xm: "0 \<le> ?x mod ?n" "?x mod ?n < ?n" by simp_all
  have same: "col_edof b ?x k = y"
    if "k \<in> set ?js" "0 \<le> col_slot b ?x k" "gdof r (col_edof b ?x k) = ?c"
      "y \<in> set [0..n_edofs b - 1]" "gdof r y = ?c" "y div ?n = ?x div ?n" for k y
  proof -
    note ck = col_edof_split[OF sh x that(1,2)]
    from ck(2) that(6) have "col_edof b ?x k div ?n = y div ?n" by simp
    from slots_distinctD[OF sd ck(1) that(4) this] that(3,5) show ?thesis by simp
  qed
  show ?thesis
  proof (cases "\<exists>sl \<in> set (inc_list r ?c). elt_of b sk = elt_of b sl")
    case True
    then obtain sl where sl: "sl \<in> set (inc_list r ?c)" and e: "elt_of b sk = elt_of b sl" by blast
    let ?y = "decode sl"
    from edof_of_inc_list[OF sh inc cj(5,6) sl] have y: "?y \<in> set [0..n_edofs b - 1]"
      and gy: "gdof r ?y = ?c" and ey: "elt_of b sl = ?y div ?n" and sy: "slot_of b sl = ?y mod ?n"
      and py: "(0 \<le> sl) = (0 \<le> sdof r ?y)" by simp_all
    from e ex ey have exy: "?x div ?n = ?y div ?n" by simp
    from shapes_edof[OF sh y] have ym: "0 \<le> ?y mod ?n" by simp
    from incidence_okD(1)[OF inc cj(5,6)] have dl: "distinct (inc_list r ?c)"
      and inj: "inj_on decode (set (inc_list r ?c))" by (simp_all add: distinct_map)
    have L: "filter (\<lambda>sl. elt_of b sk = elt_of b sl) (inc_list r ?c) = [sl]"
    proof (rule filter_single[where P = "\<lambda>sl. elt_of b sk = elt_of b sl", OF dl sl e])
      fix s assume s: "s \<in> set (inc_list r ?c)" and es: "elt_of b sk = elt_of b s"
      from edof_of_inc_list[OF sh inc cj(5,6) s] have y': "decode s \<in> set [0..n_edofs b - 1]"
        "gdof r (decode s) = ?c" "elt_of b s = decode s div ?n" by simp_all
      from es e ey y'(3) have "decode s div ?n = ?y div ?n" by simp
      from slots_distinctD[OF sd y'(1) y this] y'(2) gy have "decode s = ?y" by simp
      with inj s sl show "s = sl" by (simp add: inj_on_def)
    qed
    from coupled_by_agreement[OF sh ta i j cs x y exy gx gy] obtain k where
      k: "k \<in> set ?js" "tmpl b k (?x mod ?n) = ?y mod ?n" "col_edof b ?x k = ?y" by blast
    from k(2) ym have ck: "0 \<le> col_slot b ?x k" by (simp add: col_slot_def)
    have R: "filter (\<lambda>k. 0 \<le> col_slot b ?x k \<and> gdof r (col_edof b ?x k) = ?c) ?js = [k]"
    proof (rule filter_single)
      show "distinct ?js" by simp
      show "k \<in> set ?js" by (rule k(1))
      show "0 \<le> col_slot b ?x k \<and> gdof r (col_edof b ?x k) = ?c" using ck k(3) gy by simp
    next
      fix k' assume k': "k' \<in> set ?js"
        and q: "0 \<le> col_slot b ?x k' \<and> gdof r (col_edof b ?x k') = ?c"
      from same[OF k' q[THEN conjunct1] q[THEN conjunct2] y gy exy[symmetric]]
      have "col_edof b ?x k' = ?y" .
      with k(3) have "col_slot b ?x k' = col_slot b ?x k" by (simp add: col_edof_def)
      then have "tmpl b k' (?x mod ?n) = tmpl b k (?x mod ?n)" by (simp add: col_slot_def)
      moreover from q have "0 \<le> tmpl b k' (?x mod ?n)" by (simp add: col_slot_def)
      ultimately show "k' = k" using tmpl_distinctD[OF td xm k' k(1)] by simp
    qed
    from lookup_unique[OF td xm k(1,2) ym] have lk: "lookup b (?x mod ?n) (?y mod ?n) = k" .
    have sg: "sgn_of sl sk = sgn_of (sdof r ?y) (sdof r ?x)" by (rule sgn_of_cong[OF py px])
    have "acc_term b sk sl
        = of_int (sgn_of (sdof r (col_edof b ?x k)) (sdof r ?x)) * val_at b k (?x mod ?n) (?x div ?n)"
      unfolding acc_term_def sx sy ex lk sg k(3) ..
    with L R show ?thesis by simp
  next
    case False
    then have L: "filter (\<lambda>sl. elt_of b sk = elt_of b sl) (inc_list r ?c) = []"
      by (simp add: filter_empty_conv)
    have R: "filter (\<lambda>k. 0 \<le> col_slot b ?x k \<and> gdof r (col_edof b ?x k) = ?c) ?js = []"
      unfolding filter_empty_conv
    proof (intro ballI notI)
      fix k assume k: "k \<in> set ?js"
        and q: "0 \<le> col_slot b ?x k \<and> gdof r (col_edof b ?x k) = ?c"
      note ck = col_edof_split[OF sh x k q[THEN conjunct1]]
      from inc_list_of_edof[OF sh inc ck(1)] q obtain sl where
        sl: "sl \<in> set (inc_list r ?c)" "decode sl = col_edof b ?x k" by auto
      then have "elt_of b sl = ?x div ?n" using ck(2) by (simp add: elt_of_def)
      with False sl(1) ex show False by metis
    qed
    from L R show ?thesis by simp
  qed
qed

lemma conflict_value:
  assumes sh: "shapes_ok b r" and inc: "incidence_ok b r"
    and sd: "slots_distinct b r" and td: "tmpl_distinct b" and ta: "tmpl_agrees b r"
    and i: "i \<in> set [0..n_edofs b - 1]" and j: "j \<in> set [0..sparse_mapping_Height b - 1]"
    and cs: "0 \<le> col_slot b i j"
  shows "acc_val b r (gdof r i) (gdof r (col_edof b i j))
     = sum_list (contributions b r (gdof r i) (gdof r (col_edof b i j)))"
proof -
  let ?d = "gdof r i" and ?c = "gdof r (col_edof b i j)"
  from shapes_gdof[OF sh i] have d: "0 \<le> ?d" "?d < GetVSize b" by simp_all
  have st: "set (map decode (inc_list r ?d)) = set (filter (\<lambda>x. gdof r x = ?d) [0..n_edofs b - 1])"
    using incidence_okD(2)[OF inc d] by auto
  have dx: "distinct (filter (\<lambda>x. gdof r x = ?d) [0..n_edofs b - 1])" by simp
  let ?F = "\<lambda>x. sum_list (map (\<lambda>k. of_int (sgn_of (sdof r (col_edof b x k)) (sdof r x))
                                        * val_at b k (x mod GetDof b) (x div GetDof b))
                 (filter (\<lambda>k. 0 \<le> col_slot b x k \<and> gdof r (col_edof b x k) = ?c)
                    [0..sparse_mapping_Height b - 1]))"
  let ?G = "\<lambda>sk. sum_list (map (acc_term b sk)
                 (filter (\<lambda>sl. elt_of b sk = elt_of b sl) (inc_list r ?c)))"
  have "acc_val b r ?d ?c = sum_list (map ?G (inc_list r ?d))" by (rule acc_val_sum)
  also have "\<dots> = sum_list (map (\<lambda>sk. ?F (decode sk)) (inc_list r ?d))"
    by (rule arg_cong[where f = sum_list], rule map_cong[OF refl])
       (rule reference_terms[OF sh inc sd td ta i j cs])
  also have "\<dots> = sum_list (map ?F (filter (\<lambda>x. gdof r x = ?d) [0..n_edofs b - 1]))"
    by (rule sum_list_reindex[OF incidence_okD(1)[OF inc d] dx st, symmetric])
  also have "\<dots> = sum_list (contributions b r ?d ?c)" by (rule contributions_sum[symmetric])
  finally show ?thesis .
qed

lemma no_conflict_value:
  assumes sh: "shapes_ok b r" and inc: "incidence_ok b r"
    and sd: "slots_distinct b r" and td: "tmpl_distinct b"
    and i: "i \<in> set [0..n_edofs b - 1]" and j: "j \<in> set [0..sparse_mapping_Height b - 1]"
    and cs: "0 \<le> col_slot b i j"
    and nc: "no_conflict r (gdof r i) (gdof r (col_edof b i j))"
  shows "sum_list (contributions b r (gdof r i) (gdof r (col_edof b i j)))
     = of_int (sgn_of (sdof r (col_edof b i j)) (sdof r i))
         * val_at b j (i mod GetDof b) (i div GetDof b)"
proof -
  let ?js = "[0..sparse_mapping_Height b - 1]"
  let ?d = "gdof r i" and ?c = "gdof r (col_edof b i j)"
  let ?Q = "\<lambda>x k. 0 \<le> col_slot b x k \<and> gdof r (col_edof b x k) = ?c"
  let ?t = "\<lambda>x k. of_int (sgn_of (sdof r (col_edof b x k)) (sdof r x))
                    * val_at b k (x mod GetDof b) (x div GetDof b)"
  let ?F = "\<lambda>x. sum_list (map (?t x) (filter (?Q x) ?js))"
  from cs nc have e: "emits b r i j" by (simp add: emits_elected)
  have only: "x = i \<and> k = j"
    if "x \<in> set [0..n_edofs b - 1]" "gdof r x = ?d" "k \<in> set ?js" "?Q x k" for x k
  proof -
    from that nc have "emits b r x k" by (simp add: emits_elected)
    from emits_unique[OF sh inc sd td that(1) i that(3) j this e that(2)] that(4)
    show ?thesis by simp
  qed
  have Fi: "filter (?Q i) ?js = [j]"
  proof (rule filter_single)
    show "distinct ?js" by simp
    show "j \<in> set ?js" by (rule j)
    show "?Q i j" using cs by simp
  next
    fix k assume "k \<in> set ?js" "?Q i k"
    from only[OF i refl this] show "k = j" by simp
  qed
  have F0: "?F x = 0" if "x \<in> set (filter (\<lambda>x. gdof r x = ?d) [0..n_edofs b - 1])" "x \<noteq> i" for x
  proof -
    from that(1) have x: "x \<in> set [0..n_edofs b - 1]" "gdof r x = ?d" by simp_all
    have "filter (?Q x) ?js = []"
      unfolding filter_empty_conv using only[OF x] that(2) by blast
    then show ?thesis by simp
  qed
  have "i \<in> set (filter (\<lambda>x. gdof r x = ?d) [0..n_edofs b - 1])" using i by simp
  from sum_list_single[of "filter (\<lambda>x. gdof r x = ?d) [0..n_edofs b - 1]" i ?F, OF _ this F0]
  have S: "sum_list (map ?F (filter (\<lambda>x. gdof r x = ?d) [0..n_edofs b - 1])) = ?F i" by simp
  have T: "?F i = ?t i j" unfolding Fi by simp
  show ?thesis unfolding contributions_sum by (rule trans[OF S T])
qed

lemma entry_value:
  assumes sh: "shapes_ok b r" and inc: "incidence_ok b r"
    and sd: "slots_distinct b r" and td: "tmpl_distinct b" and ta: "tmpl_agrees b r"
    and i: "i \<in> set [0..n_edofs b - 1]" and j: "j \<in> set [0..sparse_mapping_Height b - 1]"
    and e: "emits b r i j"
  shows "snd (snd (entry b r i j))
     = sum_list (contributions b r (gdof r i) (gdof r (col_edof b i j)))"
proof -
  from e have cs: "0 \<le> col_slot b i j" by (simp add: emits_elected)
  have v: "snd (snd (entry b r i j))
      = (if no_conflict r (gdof r i) (gdof r (col_edof b i j))
         then of_int (sgn_of (sdof r (col_edof b i j)) (sdof r i))
                * val_at b j (i mod GetDof b) (i div GetDof b)
         else acc_val b r (gdof r i) (gdof r (col_edof b i j)))"
    by (simp add: entry_def Let_def)
  show ?thesis
  proof (cases "no_conflict r (gdof r i) (gdof r (col_edof b i j))")
    case True
    from v True have "snd (snd (entry b r i j))
      = of_int (sgn_of (sdof r (col_edof b i j)) (sdof r i))
          * val_at b j (i mod GetDof b) (i div GetDof b)" by (simp only: if_True)
    also note no_conflict_value[OF sh inc sd td i j cs True, symmetric]
    finally show ?thesis .
  next
    case False
    from v False have "snd (snd (entry b r i j)) = acc_val b r (gdof r i) (gdof r (col_edof b i j))"
      by (simp only: if_False)
    also note conflict_value[OF sh inc sd td ta i j cs]
    finally show ?thesis .
  qed
qed

subsection \<open>Each pair once\<close>

lemma emits_counted:
  assumes sh: "shapes_ok b r" and inc: "incidence_ok b r"
    and i: "i \<in> set [0..n_edofs b - 1]" and j: "j \<in> set [0..sparse_mapping_Height b - 1]"
  shows "emits b r i j = counted b r i j"
proof (cases "0 \<le> col_slot b i j")
  case True
  note cj = col_edof_split[OF sh i j True]
  from elected_common(1)[OF sh inc i cj(1) cj(2)[symmetric]]
  show ?thesis by (simp add: emits_elected counted_def no_conflict_def Let_def)
next
  case False
  then show ?thesis by (simp add: emits_elected counted_def)
qed

lemma foldl_bump_replicate:
  "foldl bump I (replicate k d) = I[nat d := I ! nat d + int k]"
proof (induction k)
  case 0
  show ?case by simp
next
  case (Suc k)
  have "replicate (Suc k) d = replicate k d @ [d]" by (simp add: replicate_append_same)
  then have "foldl bump I (replicate (Suc k) d) = bump (foldl bump I (replicate k d)) d"
    by (simp only: foldl_append foldl.simps)
  also have "\<dots> = bump (I[nat d := I ! nat d + int k]) d" by (simp only: Suc.IH)
  also have "\<dots> = I[nat d := I ! nat d + int (Suc k)]"
    by (cases "nat d < length I")
       (simp_all add: bump_def add.assoc add.commute[of 1] list_update_beyond not_less)
  finally show ?case .
qed

lemma FillI_row_counted:
  assumes sh: "shapes_ok b r" and dg: "degree_ok r" and inc: "incidence_ok b r"
    and i: "i \<in> set [0..n_edofs b - 1]" and len: "int (length I) = GetVSize b + 1"
  shows "FillI_row b r i I
     = Inr (I[nat (gdof r i) := I ! nat (gdof r i)
              + int (length (filter (counted b r i) [0..sparse_mapping_Height b - 1]))])"
proof -
  let ?js = "[0..sparse_mapping_Height b - 1]"
  have f: "filter (emits b r i) ?js = filter (counted b r i) ?js"
    by (rule filter_cong[OF refl]) (rule emits_counted[OF sh inc i])
  have "map fst (events b r i) = replicate (length (filter (counted b r i) ?js)) (gdof r i)"
    unfolding events_def f by (simp add: o_def map_replicate_const)
  with FillI_row_refine[OF sh dg i len] show ?thesis by (simp only: foldl_bump_replicate)
qed

lemma mesh_okD:
  assumes "mesh_ok b r"
  shows "GetElementRestriction b = Some r" "shapes_ok b r" "degree_ok r" "incidence_ok b r"
    "slots_distinct b r" "tmpl_distinct b" "tmpl_agrees b r"
  using assms by (simp_all add: mesh_ok_def)

lemma mesh_row_counts:
  assumes m: "mesh_ok b r" and s: "schedule b sched"
    and len: "int (length (GetI A)) = GetVSize b + 1"
  shows "\<exists>cnt. count_pass b r sched (GetI A) = Inr cnt
     \<and> int (length cnt) = GetVSize b + 1
     \<and> (\<forall>d \<in> set [0..GetVSize b - 1]. cnt ! nat d = int (card (set (asserted_cols b r d))))
     \<and> FillI_sched b sched A
       = Inr (A\<lparr>GetI := prefix_sums cnt (nat (GetVSize b))\<rparr>, sum_list (take (nat (GetVSize b)) cnt))"
proof -
  note mk = mesh_okD[OF m]
  let ?all = "concat (map (events b r) [0..n_edofs b - 1])"
  note sm = schedule_mset[OF s]
  have e: "mset (concat (map (events b r) sched)) = mset ?all"
    using sm by (intro mset_concat_map_cong) simp
  from FillI_sched_run[OF mesh_ok_safe[OF m] sm[THEN conjunct2] len] obtain cnt where
    c: "count_pass b r sched (GetI A) = Inr cnt" and lc: "int (length cnt) = GetVSize b + 1"
    and nth: "\<forall>d. 0 \<le> d \<and> d \<le> GetVSize b
          \<longrightarrow> cnt ! nat d = count_row (concat (map (events b r) sched)) d"
    and f: "FillI_sched b sched A
       = Inr (A\<lparr>GetI := prefix_sums cnt (nat (GetVSize b))\<rparr>, sum_list (take (nat (GetVSize b)) cnt))"
    by blast
  have "\<forall>d \<in> set [0..GetVSize b - 1]. cnt ! nat d = int (card (set (asserted_cols b r d)))"
  proof
    fix d assume "d \<in> set [0..GetVSize b - 1]"
    then have "0 \<le> d \<and> d \<le> GetVSize b" by simp
    with nth have "cnt ! nat d = count_row (concat (map (events b r) sched)) d" by blast
    also have "\<dots> = count_row ?all d" by (rule count_row_mset[OF e])
    also have "\<dots> = int (card (set (asserted_cols b r d)))"
      by (rule row_count_distinct[OF mk(2,4,5,6,7)])
    finally show "cnt ! nat d = int (card (set (asserted_cols b r d)))" .
  qed
  with c lc f show ?thesis by blast
qed

lemma mesh_rows_assembled:
  assumes m: "mesh_ok b r" and s1: "schedule b sched1" and s2: "schedule b sched2"
  shows "\<exists>A. SparseIJToCSR_sched b sched1 sched2 ui ud A0 = Inr A
     \<and> (\<forall>d \<in> set [0..GetVSize b - 1]. row_assembled b r A d)"
proof -
  note mk = mesh_okD[OF m]
  let ?ev = "\<lambda>s. concat (map (events b r) s)"
  let ?all = "?ev [0..n_edofs b - 1]"
  note m1 = schedule_mset[OF s1] and m2 = schedule_mset[OF s2]
  have e1: "mset (?ev sched1) = mset ?all" using m1 by (intro mset_concat_map_cong) simp
  have e2: "mset (?ev sched2) = mset ?all" using m2 by (intro mset_concat_map_cong) simp
  from SparseIJToCSR_sched_run[OF mesh_ok_safe[OF m] m1[THEN conjunct2] m2[THEN conjunct2],
      of ui ud A0] e1 e2
  obtain A where A: "SparseIJToCSR_sched b sched1 sched2 ui ud A0 = Inr A"
    and rows: "\<forall>d. 0 \<le> d \<and> d < GetVSize b \<longrightarrow> row_entries A d = row_events (?ev sched2) d"
    by auto
  have "\<forall>d \<in> set [0..GetVSize b - 1]. row_assembled b r A d"
  proof
    fix d assume "d \<in> set [0..GetVSize b - 1]"
    then have "0 \<le> d \<and> d < GetVSize b" by simp
    with rows have re: "row_entries A d = row_events (?ev sched2) d" by blast
    have ms: "mset (row_entries A d) = mset (row_events ?all d)"
      unfolding re by (rule row_events_mset[OF e2])
    then have mc: "mset (map fst (row_entries A d)) = mset (map fst (row_events ?all d))"
      by (metis mset_map)
    have "distinct (map fst (row_entries A d))"
      using mset_eq_imp_distinct_iff[OF mc] row_cols_distinct[OF mk(2,4,5,6), of d] by simp
    moreover have "set (map fst (row_entries A d)) = set (asserted_cols b r d)"
      using mset_eq_setD[OF mc] row_cols_asserted[OF mk(2,4,7), of d] by simp
    moreover have "\<forall>e \<in> set (row_entries A d). snd e = sum_list (contributions b r d (fst e))"
    proof
      fix e assume "e \<in> set (row_entries A d)"
      with mset_eq_setD[OF ms] have "e \<in> set (row_events ?all d)" by simp
      then obtain i j where i: "i \<in> set [0..n_edofs b - 1]"
        and j: "j \<in> set [0..sparse_mapping_Height b - 1]"
        and em: "emits b r i j" and g: "gdof r i = d" and e: "e = snd (entry b r i j)"
        unfolding in_row_events by blast
      from entry_value[OF mk(2,4,5,6,7) i j em] g e
      show "snd e = sum_list (contributions b r d (fst e))" by simp
    qed
    ultimately show "row_assembled b r A d" unfolding row_assembled_def by blast
  qed
  with A show ?thesis by blast
qed

subsection \<open>The row-count pass counts each pair once\<close>

text \<open>
  Claim C2, as amended. On an input the passes are written for (\<open>mesh_ok\<close>: the
  arrays well shaped, the incidence lists of at most 16 entries, the incidence table the
  inverse of the gather map, no element with a global DOF in two slots, no template row
  with a slot twice, the elements agreeing on the coupling): each iteration of the
  row-count kernel adds to the counter of its row the number of template entries that the
  rule of the specification counts: the entry is present and one of the two incidence
  lists has length 1, or the element of the iteration is the least element common to the
  two lists. Whatever the order of the iterations, the pass returns, and the counter of
  every row is the number of distinct columns asserted in that row; the offsets stored
  are the exclusive prefix sums of these counters.
\<close>

theorem row_count_once:
  assumes "mesh_ok b r" and "schedule b sched"
    and "int (length (GetI A)) = GetVSize b + 1"
  shows "(\<forall>i \<in> set [0..n_edofs b - 1]. \<forall>I. int (length I) = GetVSize b + 1 \<longrightarrow>
            FillI_row b r i I
              = Inr (I[nat (gdof r i) := I ! nat (gdof r i)
                       + int (length (filter (counted b r i) [0..sparse_mapping_Height b - 1]))]))
     \<and> (\<exists>cnt. count_pass b r sched (GetI A) = Inr cnt
          \<and> (\<forall>d \<in> set [0..GetVSize b - 1].
                cnt ! nat d = int (card (set (asserted_cols b r d))))
          \<and> FillI_sched b sched A
              = Inr (A\<lparr>GetI := prefix_sums cnt (nat (GetVSize b))\<rparr>,
                     sum_list (take (nat (GetVSize b)) cnt)))"
proof -
  note mk = mesh_okD[OF assms(1)]
  have "\<forall>i \<in> set [0..n_edofs b - 1]. \<forall>I. int (length I) = GetVSize b + 1 \<longrightarrow>
      FillI_row b r i I
        = Inr (I[nat (gdof r i) := I ! nat (gdof r i)
                 + int (length (filter (counted b r i) [0..sparse_mapping_Height b - 1]))])"
    using FillI_row_counted[OF mk(2,3,4)] by blast
  moreover from mesh_row_counts[OF assms] have "\<exists>cnt. count_pass b r sched (GetI A) = Inr cnt
      \<and> (\<forall>d \<in> set [0..GetVSize b - 1]. cnt ! nat d = int (card (set (asserted_cols b r d))))
      \<and> FillI_sched b sched A
          = Inr (A\<lparr>GetI := prefix_sums cnt (nat (GetVSize b))\<rparr>,
                 sum_list (take (nat (GetVSize b)) cnt))"
    by blast
  ultimately show ?thesis by blast
qed

text \<open>
  On the small mesh, with the iterations in the order 3, 1, 0, 2 and the counters holding
  5 to begin with: the rows get 2, 3 and 2, the numbers of distinct columns asserted.
\<close>

theorem row_count_once_witness:
  "mesh_ok ex_lor ex_restr \<and> schedule ex_lor [3, 1, 0, 2]
   \<and> count_pass ex_lor ex_restr [3, 1, 0, 2] [5, 5, 5, 5] = Inr [2, 3, 2, 0]
   \<and> (\<exists>cnt. count_pass ex_lor ex_restr [3, 1, 0, 2] [5, 5, 5, 5] = Inr cnt
        \<and> (\<forall>d \<in> set [0..GetVSize ex_lor - 1].
              cnt ! nat d = int (card (set (asserted_cols ex_lor ex_restr d)))))"
proof -
  have m: "mesh_ok ex_lor ex_restr" by code_simp
  have s: "schedule ex_lor [3, 1, 0, 2]" by code_simp
  have l: "int (length (GetI (ex_empty\<lparr>GetI := [5, 5, 5, 5]\<rparr>))) = GetVSize ex_lor + 1"
    by code_simp
  have c: "count_pass ex_lor ex_restr [3, 1, 0, 2] [5, 5, 5, 5] = Inr [2, 3, 2, 0]" by code_simp
  have g: "GetI (ex_empty\<lparr>GetI := [5, 5, 5, 5]\<rparr>) = [5, 5, 5, 5]" by simp
  from row_count_once[OF m s l, THEN conjunct2, unfolded g] have "\<exists>cnt. count_pass ex_lor ex_restr [3, 1, 0, 2] [5, 5, 5, 5] = Inr cnt
      \<and> (\<forall>d \<in> set [0..GetVSize ex_lor - 1].
            cnt ! nat d = int (card (set (asserted_cols ex_lor ex_restr d))))"
    by blast
  with m s c show ?thesis by blast
qed

text \<open>
  Claim C2 as stated fails on one element whose two slots are the same global DOF: the
  arrays are well shaped, the incidence table is the inverse of the gather map and the
  template is in order; the one pair (0, 0) is asserted, and the row-count pass counts it
  four times.
\<close>

theorem wrap_row_counted_four_times:
  "GetElementRestriction ex_wrap = Some ex_wrap_restr
   \<and> shapes_ok ex_wrap ex_wrap_restr \<and> degree_ok ex_wrap_restr \<and> incidence_ok ex_wrap ex_wrap_restr
   \<and> tmpl_distinct ex_wrap \<and> tmpl_agrees ex_wrap ex_wrap_restr
   \<and> \<not> slots_distinct ex_wrap ex_wrap_restr
   \<and> remdups (asserted_cols ex_wrap ex_wrap_restr 0) = [0]
   \<and> FillI ex_wrap (ex_empty\<lparr>GetI := [0, 0]\<rparr>) = Inr (ex_empty\<lparr>GetI := [0, 4]\<rparr>, 4)"
  by code_simp

subsection \<open>The fill pass writes each pair once, with the sum of its contributions\<close>

text \<open>
  Claim C1, as amended. On an input the passes are written for (\<open>mesh_ok\<close>: the
  arrays well shaped, the incidence lists of at most 16 entries, the incidence table the
  inverse of the gather map, no element with a global DOF in two slots, no template row
  with a slot twice, the elements agreeing on the coupling): each iteration of the
  fill kernel serves, for the template entries that the rule of the row-count pass
  counts, one entry each, whose value in the conflict case is the sum accumulated over
  the pairs of references in the same element. Whatever the order of the iterations of
  the two passes, the assembly returns a matrix in which every row has no column twice,
  has exactly the columns asserted in that row, and holds for each column the sum of all
  element-local contributions to the pair, each with its orientation sign.
\<close>

theorem one_entry_per_pair:
  assumes "mesh_ok b r" and "schedule b sched1" and "schedule b sched2"
  shows "(\<forall>i \<in> set [0..n_edofs b - 1]. \<forall>s.
            FillJ_row b r i s
              = efold put_event
                  (map (entry b r i) (filter (counted b r i) [0..sparse_mapping_Height b - 1])) s)
     \<and> (\<exists>A. SparseIJToCSR_sched b sched1 sched2 ui ud A0 = Inr A
          \<and> (\<forall>d \<in> set [0..GetVSize b - 1]. row_assembled b r A d))"
proof -
  note mk = mesh_okD[OF assms(1)]
  from mesh_ok_safe[OF assms(1)] have lk: "lookups_ok b r" by (simp add: assembly_safe_def)
  have "FillJ_row b r i s
      = efold put_event
          (map (entry b r i) (filter (counted b r i) [0..sparse_mapping_Height b - 1])) s"
    if i: "i \<in> set [0..n_edofs b - 1]" for i s
  proof -
    have "filter (emits b r i) [0..sparse_mapping_Height b - 1]
        = filter (counted b r i) [0..sparse_mapping_Height b - 1]"
      by (rule filter_cong[OF refl]) (rule emits_counted[OF mk(2,4) i])
    with FillJ_row_refine[OF mk(2,3) lk i, of s] show ?thesis by (simp add: events_def)
  qed
  moreover from mesh_rows_assembled[OF assms, of ui ud A0]
  have "\<exists>A. SparseIJToCSR_sched b sched1 sched2 ui ud A0 = Inr A
      \<and> (\<forall>d \<in> set [0..GetVSize b - 1]. row_assembled b r A d)" .
  ultimately show ?thesis by blast
qed

text \<open>
  On the small mesh, with the two passes in different orders: the matrix returned has
  the rows \<open>(0, 10) (1, 20)\<close>, \<open>(2, -60) (0, 30) (1, 5)\<close> and \<open>(1, -70) (2, 80)\<close>; the entry
  (1, 1) is the sum of the contributions 2 and 3 of the two elements.
\<close>

theorem one_entry_per_pair_witness:
  "mesh_ok ex_lor ex_restr \<and> schedule ex_lor [3, 1, 0, 2] \<and> schedule ex_lor [2, 3, 1, 0]
   \<and> SparseIJToCSR_sched ex_lor [3, 1, 0, 2] [2, 3, 1, 0] (\<lambda>_. 7) (\<lambda>_. 9) ex_empty
       = Inr \<lparr>Height = 3, Width = 3, GetI = [0, 2, 5, 7],
              GetJ = [0, 1, 2, 0, 1, 1, 2], GetData = [10, 20, - 60, 30, 5, - 70, 80]\<rparr>
   \<and> contributions ex_lor ex_restr 1 1 = [2, 3]
   \<and> (\<exists>A. SparseIJToCSR_sched ex_lor [3, 1, 0, 2] [2, 3, 1, 0] (\<lambda>_. 7) (\<lambda>_. 9) ex_empty = Inr A
        \<and> (\<forall>d \<in> set [0..GetVSize ex_lor - 1]. row_assembled ex_lor ex_restr A d))"
proof -
  have m: "mesh_ok ex_lor ex_restr" by code_simp
  have s1: "schedule ex_lor [3, 1, 0, 2]" by code_simp
  have s2: "schedule ex_lor [2, 3, 1, 0]" by code_simp
  have r: "SparseIJToCSR_sched ex_lor [3, 1, 0, 2] [2, 3, 1, 0] (\<lambda>_. 7) (\<lambda>_. 9) ex_empty
       = Inr \<lparr>Height = 3, Width = 3, GetI = [0, 2, 5, 7],
              GetJ = [0, 1, 2, 0, 1, 1, 2], GetData = [10, 20, - 60, 30, 5, - 70, 80]\<rparr>"
    by code_simp
  have c: "contributions ex_lor ex_restr 1 1 = [2, 3]" by code_simp
  from one_entry_per_pair[OF m s1 s2, of "\<lambda>_. 7" "\<lambda>_. 9" ex_empty]
  have "\<exists>A. SparseIJToCSR_sched ex_lor [3, 1, 0, 2] [2, 3, 1, 0] (\<lambda>_. 7) (\<lambda>_. 9) ex_empty = Inr A
        \<and> (\<forall>d \<in> set [0..GetVSize ex_lor - 1]. row_assembled ex_lor ex_restr A d)"
    by blast
  with m s1 s2 r c show ?thesis by blast
qed

text \<open>
  Claim C1 as stated fails on one element whose two slots are the same global DOF: the
  one pair (0, 0) is asserted, with the contributions 1, 2, 3 and 4, and the assembly
  writes four entries for it in row 0, each with the value 10.
\<close>

theorem wrap_pair_entered_four_times:
  "remdups (asserted_cols ex_wrap ex_wrap_restr 0) = [0]
   \<and> contributions ex_wrap ex_wrap_restr 0 0 = [1, 2, 3, 4]
   \<and> SparseIJToCSR ex_wrap (\<lambda>_. 0) (\<lambda>_. 0) ex_empty
       = Inr \<lparr>Height = 1, Width = 1, GetI = [0, 4],
              GetJ = [0, 0, 0, 0], GetData = [10, 10, 10, 10]\<rparr>"
  by code_simp

subsection \<open>Decoding and orientation\<close>

lemma decode_rule: "decode v = (if 0 \<le> v then v else NOT v) \<and> 0 \<le> decode v"
  by (simp add: decode_def not_int_def)

lemma no_conflict_entry:
  assumes sh: "shapes_ok b r"
    and i: "i \<in> set [0..n_edofs b - 1]" and j: "j \<in> set [0..sparse_mapping_Height b - 1]"
    and sii: "sii = GatherMap r ! nat i" and ii: "ii = (if 0 \<le> sii then sii else -1 - sii)"
    and c: "c = sparse_mapping b ! nat (j + sparse_mapping_Height b * (i mod GetDof b))" "0 \<le> c"
    and sjj: "sjj = GatherMap r ! nat (c + GetDof b * (i div GetDof b))"
    and jj: "jj = (if 0 \<le> sjj then sjj else -1 - sjj)"
    and one: "inc_len r ii = 1 \<or> inc_len r jj = 1"
    and x: "x = sparse_ij b ! nat (j + sparse_mapping_Height b * (i mod GetDof b + GetDof b * (i div GetDof b)))"
  shows "emits b r i j"
    and "entry b r i j
      = (ii, jj, of_int (if (0 \<le> sjj \<and> 0 \<le> sii) \<or> (sjj < 0 \<and> sii < 0) then 1 else -1) * x)"
proof -
  have cs: "col_slot b i j = c" by (simp add: col_slot_def tmpl_def c(1))
  have gi: "gdof r i = ii" by (simp add: gdof_def sdof_def decode_def sii ii)
  have sy: "sdof r (col_edof b i j) = sjj" by (simp add: sdof_def col_edof_def cs sjj)
  then have gy: "gdof r (col_edof b i j) = jj" by (simp add: gdof_def decode_def jj)
  from one have nc: "no_conflict r (gdof r i) (gdof r (col_edof b i j))"
    by (simp add: no_conflict_def gi gy)
  with c(2) cs show "emits b r i j" by (simp add: emits_def Let_def)
  have "sdof r i = sii" by (simp add: sdof_def sii)
  with nc gi gy sy show "entry b r i j
      = (ii, jj, of_int (if (0 \<le> sjj \<and> 0 \<le> sii) \<or> (sjj < 0 \<and> sii < 0) then 1 else -1) * x)"
    by (simp add: entry_def Let_def sgn_of_def val_at_def x)
qed

lemma FillI_row_emits:
  assumes sh: "shapes_ok b r" and dg: "degree_ok r"
    and i: "i \<in> set [0..n_edofs b - 1]" and len: "int (length I) = GetVSize b + 1"
  shows "FillI_row b r i I
     = Inr (I[nat (gdof r i) := I ! nat (gdof r i)
              + int (length (filter (emits b r i) [0..sparse_mapping_Height b - 1]))])"
proof -
  have "map fst (events b r i)
      = replicate (length (filter (emits b r i) [0..sparse_mapping_Height b - 1])) (gdof r i)"
    unfolding events_def by (simp add: o_def map_replicate_const)
  with FillI_row_refine[OF sh dg i len] show ?thesis by (simp only: foldl_bump_replicate)
qed

text \<open>
  Claim C4. A signed index \<open>v\<close> decodes to \<open>v\<close> when it is not negative and to
  \<open>-1 - v\<close>, its bitwise complement, when it is, and the result is never negative. In
  the kernels the row of iteration \<open>i\<close> is the signed index of the gather map decoded in
  this way: the row-count kernel adds its count to the counter of that row, and the fill
  kernel serves its entries to that row; the signed entries of the incidence table are
  decoded in the same way when the stack buffers are filled, the slot kept in \<^verbatim>\<open>i_B\<close>
  and \<^verbatim>\<open>j_B\<close> carrying the sign of the entry. In the no-conflict case of the fill pass (the
  template entry is present and the incidence list of the row or of the column has
  length 1) the entry served has the decoded column index and the local value times
  the sign, which is \<open>+1\<close> exactly when the signed row and column indices are both
  non-negative or both negative, and \<open>-1\<close> otherwise; and the matrix that the assembly
  returns holds this entry in that row.
\<close>

theorem decode_and_no_conflict_sign:
  assumes "assembly_safe b r" and "schedule b sched1" and "schedule b sched2"
    and "i \<in> set [0..n_edofs b - 1]"
    and "sii = GatherMap r ! nat i" and "ii = (if 0 \<le> sii then sii else -1 - sii)"
  shows "(\<forall>v. decode v = (if 0 \<le> v then v else NOT v) \<and> 0 \<le> decode v)
     \<and> (\<forall>I. int (length I) = GetVSize b + 1 \<longrightarrow>
          FillI_row b r i I
            = Inr (I[nat ii := I ! nat ii
                     + int (length (filter (emits b r i) [0..sparse_mapping_Height b - 1]))]))
     \<and> (\<forall>s. FillJ_row b r i s
            = efold put_event
                (map (entry b r i) (filter (emits b r i) [0..sparse_mapping_Height b - 1])) s)
     \<and> (\<exists>A. SparseIJToCSR_sched b sched1 sched2 ui ud A0 = Inr A
          \<and> (\<forall>j \<in> set [0..sparse_mapping_Height b - 1]. \<forall>c sjj jj x.
                c = sparse_mapping b ! nat (j + sparse_mapping_Height b * (i mod GetDof b))
                \<and> 0 \<le> c
                \<and> sjj = GatherMap r ! nat (c + GetDof b * (i div GetDof b))
                \<and> jj = (if 0 \<le> sjj then sjj else -1 - sjj)
                \<and> (inc_len r ii = 1 \<or> inc_len r jj = 1)
                \<and> x = sparse_ij b ! nat (j + sparse_mapping_Height b
                                              * (i mod GetDof b + GetDof b * (i div GetDof b)))
                \<longrightarrow> emits b r i j
                  \<and> entry b r i j
                      = (ii, jj, of_int (if (0 \<le> sjj \<and> 0 \<le> sii) \<or> (sjj < 0 \<and> sii < 0)
                                         then 1 else -1) * x)
                  \<and> (jj, of_int (if (0 \<le> sjj \<and> 0 \<le> sii) \<or> (sjj < 0 \<and> sii < 0)
                                  then 1 else -1) * x) \<in> set (row_entries A ii)))
     \<and> (\<forall>d. 0 \<le> d \<and> d < GetVSize b \<longrightarrow>
          FillI_elts b r (Offsets r ! nat d) (inc_len r d)
            = Inr (map (\<lambda>s. decode s div GetDof b) (inc_list r d)
                   @ replicate (nat Max16 - nat (inc_len r d)) 0)
          \<and> FillJ_elts b r (Offsets r ! nat d) (inc_len r d)
            = Inr (map (\<lambda>s. decode s div GetDof b) (inc_list r d)
                     @ replicate (nat Max16 - nat (inc_len r d)) 0,
                   map (\<lambda>s. if 0 \<le> s then decode s mod GetDof b else -1 - decode s mod GetDof b)
                       (inc_list r d)
                     @ replicate (nat Max16 - nat (inc_len r d)) 0))"
proof -
  let ?js = "[0..sparse_mapping_Height b - 1]"
  let ?ev = "\<lambda>s. concat (map (events b r) s)"
  from assms(1) have sh: "shapes_ok b r" and dg: "degree_ok r" and lk: "lookups_ok b r"
    by (simp_all add: assembly_safe_def)
  note i = assms(4)
  have gi: "gdof r i = ii" by (simp add: gdof_def sdof_def decode_def assms(5,6))
  note m1 = schedule_mset[OF assms(2)] and m2 = schedule_mset[OF assms(3)]
  have c1: "\<forall>v. decode v = (if 0 \<le> v then v else NOT v) \<and> 0 \<le> decode v"
    using decode_rule by blast
  have c2: "\<forall>I. int (length I) = GetVSize b + 1 \<longrightarrow>
      FillI_row b r i I
        = Inr (I[nat ii := I ! nat ii + int (length (filter (emits b r i) ?js))])"
    using FillI_row_emits[OF sh dg i] unfolding gi by blast
  have c3: "\<forall>s. FillJ_row b r i s
      = efold put_event (map (entry b r i) (filter (emits b r i) ?js)) s"
    using FillJ_row_refine[OF sh dg lk i] by (simp add: events_def)
  have e12: "mset (?ev sched1) = mset (?ev sched2)"
    using m1 m2 by (intro mset_concat_map_cong) simp
  from SparseIJToCSR_sched_run[OF assms(1) m1[THEN conjunct2] m2[THEN conjunct2] e12, of ui ud A0]
  obtain A where A: "SparseIJToCSR_sched b sched1 sched2 ui ud A0 = Inr A"
    and rows: "\<forall>d. 0 \<le> d \<and> d < GetVSize b \<longrightarrow> row_entries A d = row_events (?ev sched2) d"
    by blast
  from shapes_gdof[OF sh i] gi rows
  have row: "row_entries A ii = row_events (?ev sched2) ii" by simp
  from assms(3) i have i2: "i \<in> set sched2" by (simp add: schedule_def)
  have c4: "\<forall>j \<in> set ?js. \<forall>c sjj jj x.
      c = sparse_mapping b ! nat (j + sparse_mapping_Height b * (i mod GetDof b))
      \<and> 0 \<le> c
      \<and> sjj = GatherMap r ! nat (c + GetDof b * (i div GetDof b))
      \<and> jj = (if 0 \<le> sjj then sjj else -1 - sjj)
      \<and> (inc_len r ii = 1 \<or> inc_len r jj = 1)
      \<and> x = sparse_ij b ! nat (j + sparse_mapping_Height b
                                    * (i mod GetDof b + GetDof b * (i div GetDof b)))
      \<longrightarrow> emits b r i j
        \<and> entry b r i j
            = (ii, jj, of_int (if (0 \<le> sjj \<and> 0 \<le> sii) \<or> (sjj < 0 \<and> sii < 0) then 1 else -1) * x)
        \<and> (jj, of_int (if (0 \<le> sjj \<and> 0 \<le> sii) \<or> (sjj < 0 \<and> sii < 0) then 1 else -1) * x)
            \<in> set (row_entries A ii)"
  proof (intro ballI allI impI)
    fix j c sjj jj x
    assume j: "j \<in> set ?js"
      and h: "c = sparse_mapping b ! nat (j + sparse_mapping_Height b * (i mod GetDof b))
        \<and> 0 \<le> c
        \<and> sjj = GatherMap r ! nat (c + GetDof b * (i div GetDof b))
        \<and> jj = (if 0 \<le> sjj then sjj else -1 - sjj)
        \<and> (inc_len r ii = 1 \<or> inc_len r jj = 1)
        \<and> x = sparse_ij b ! nat (j + sparse_mapping_Height b
                                      * (i mod GetDof b + GetDof b * (i div GetDof b)))"
    let ?v = "of_int (if (0 \<le> sjj \<and> 0 \<le> sii) \<or> (sjj < 0 \<and> sii < 0) then 1 else -1) * x :: real"
    from h have h1: "c = sparse_mapping b ! nat (j + sparse_mapping_Height b * (i mod GetDof b))"
      and h2: "0 \<le> c" and h3: "sjj = GatherMap r ! nat (c + GetDof b * (i div GetDof b))"
      and h4: "jj = (if 0 \<le> sjj then sjj else -1 - sjj)"
      and h5: "inc_len r ii = 1 \<or> inc_len r jj = 1"
      and h6: "x = sparse_ij b ! nat (j + sparse_mapping_Height b
                                      * (i mod GetDof b + GetDof b * (i div GetDof b)))"
      by blast+
    note ne = no_conflict_entry[OF sh i j assms(5,6) h1 h2 h3 h4 h5 h6]
    have "snd (entry b r i j) \<in> set (row_events (?ev sched2) ii)"
      unfolding in_row_events using i2 j ne(1) gi by blast
    with ne(2) row have "(jj, ?v) \<in> set (row_entries A ii)" by simp
    with ne show "emits b r i j \<and> entry b r i j = (ii, jj, ?v) \<and> (jj, ?v) \<in> set (row_entries A ii)"
      by blast
  qed
  have c5: "\<forall>d. 0 \<le> d \<and> d < GetVSize b \<longrightarrow>
      FillI_elts b r (Offsets r ! nat d) (inc_len r d)
        = Inr (map (\<lambda>s. decode s div GetDof b) (inc_list r d)
               @ replicate (nat Max16 - nat (inc_len r d)) 0)
      \<and> FillJ_elts b r (Offsets r ! nat d) (inc_len r d)
        = Inr (map (\<lambda>s. decode s div GetDof b) (inc_list r d)
                 @ replicate (nat Max16 - nat (inc_len r d)) 0,
               map (\<lambda>s. if 0 \<le> s then decode s mod GetDof b else -1 - decode s mod GetDof b)
                   (inc_list r d)
                 @ replicate (nat Max16 - nat (inc_len r d)) 0)"
  proof (intro allI impI)
    fix d assume "0 \<le> d \<and> d < GetVSize b"
    then have d: "0 \<le> d" "d < GetVSize b" by simp_all
    have e: "elt_list b r d = map (\<lambda>s. decode s div GetDof b) (inc_list r d)"
      by (simp add: elt_list_def elt_of_def)
    have f: "map (B_of b) (inc_list r d)
        = map (\<lambda>s. if 0 \<le> s then decode s mod GetDof b else -1 - decode s mod GetDof b)
            (inc_list r d)"
      by (simp add: B_of_def slot_of_def)
    from FillI_elts_shapes[OF sh d degree_inc_len[OF sh dg d]]
      FillJ_elts_shapes[OF sh d degree_inc_len[OF sh dg d]]
    show "FillI_elts b r (Offsets r ! nat d) (inc_len r d)
        = Inr (map (\<lambda>s. decode s div GetDof b) (inc_list r d)
               @ replicate (nat Max16 - nat (inc_len r d)) 0)
      \<and> FillJ_elts b r (Offsets r ! nat d) (inc_len r d)
        = Inr (map (\<lambda>s. decode s div GetDof b) (inc_list r d)
                 @ replicate (nat Max16 - nat (inc_len r d)) 0,
               map (\<lambda>s. if 0 \<le> s then decode s mod GetDof b else -1 - decode s mod GetDof b)
                   (inc_list r d)
                 @ replicate (nat Max16 - nat (inc_len r d)) 0)"
      unfolding e f by simp
  qed
  from c1 c2 c3 A c4 c5 show ?thesis by blast
qed

text \<open>
  C4 on the small mesh: iteration 2 is slot 0 of element 1, DOF 1 reversed (signed index
  \<open>-2\<close>, row 1). Its second template entry is slot 1, DOF 2 (signed index 2), met by one
  element only: the local value 60 goes to row 1, column 2, with the sign \<open>-1\<close>. The
  row-count kernel adds 1 to the counter of row 1.
\<close>

theorem decode_and_no_conflict_sign_witness:
  "assembly_safe ex_lor ex_restr \<and> schedule ex_lor [3, 1, 0, 2] \<and> schedule ex_lor [2, 3, 1, 0]
   \<and> GatherMap ex_restr ! nat 2 = -2 \<and> decode (-2) = 1 \<and> NOT (-2 :: int) = 1
   \<and> FillI_row ex_lor ex_restr 2 [0, 0, 0, 0] = Inr [0, 1, 0, 0]
   \<and> FillJ_row ex_lor ex_restr 2 ([0, 2, 5, 7], replicate 7 0, replicate 7 0)
       = Inr ([0, 3, 5, 7], [0, 0, 2, 0, 0, 0, 0], [0, 0, - 60, 0, 0, 0, 0])
   \<and> (\<exists>A. SparseIJToCSR_sched ex_lor [3, 1, 0, 2] [2, 3, 1, 0] (\<lambda>_. 7) (\<lambda>_. 9) ex_empty = Inr A
        \<and> (2, - 60) \<in> set (row_entries A 1))"
proof -
  have s: "assembly_safe ex_lor ex_restr" by code_simp
  have s1: "schedule ex_lor [3, 1, 0, 2]" by code_simp
  have s2: "schedule ex_lor [2, 3, 1, 0]" by code_simp
  have i: "2 \<in> set [0..n_edofs ex_lor - 1]" by code_simp
  have sii: "- 2 = GatherMap ex_restr ! nat 2" by code_simp
  have ii: "(1::int) = (if (0::int) \<le> - 2 then - 2 else -1 - (- 2))" by simp
  note t = decode_and_no_conflict_sign[OF s s1 s2 i sii ii, of "\<lambda>_. 7" "\<lambda>_. 9" ex_empty]
  have d: "decode (-2) = 1 \<and> NOT (-2 :: int) = 1" using t[THEN conjunct1] by simp
  have l: "int (length [0::int, 0, 0, 0]) = GetVSize ex_lor + 1" by code_simp
  have k: "[0::int, 0, 0, 0][nat 1 := [0::int, 0, 0, 0] ! nat 1
       + int (length (filter (emits ex_lor ex_restr 2) [0..sparse_mapping_Height ex_lor - 1]))]
     = [0, 1, 0, 0]" by code_simp
  from t[THEN conjunct2, THEN conjunct1, rule_format, OF l] k
  have fi: "FillI_row ex_lor ex_restr 2 [0, 0, 0, 0] = Inr [0, 1, 0, 0]" by simp
  have ev: "efold put_event
       (map (entry ex_lor ex_restr 2)
          (filter (emits ex_lor ex_restr 2) [0..sparse_mapping_Height ex_lor - 1]))
       ([0, 2, 5, 7], replicate 7 0, replicate 7 0)
     = Inr ([0, 3, 5, 7], [0, 0, 2, 0, 0, 0, 0], [0, 0, - 60, 0, 0, 0, 0])" by code_simp
  from t[THEN conjunct2, THEN conjunct2, THEN conjunct1, rule_format,
      of "([0, 2, 5, 7], replicate 7 0, replicate 7 0)"] ev
  have fj: "FillJ_row ex_lor ex_restr 2 ([0, 2, 5, 7], replicate 7 0, replicate 7 0)
       = Inr ([0, 3, 5, 7], [0, 0, 2, 0, 0, 0, 0], [0, 0, - 60, 0, 0, 0, 0])" by simp
  from t obtain A where
    A: "SparseIJToCSR_sched ex_lor [3, 1, 0, 2] [2, 3, 1, 0] (\<lambda>_. 7) (\<lambda>_. 9) ex_empty = Inr A"
    and e: "\<forall>j \<in> set [0..sparse_mapping_Height ex_lor - 1]. \<forall>c sjj jj x.
        c = sparse_mapping ex_lor ! nat (j + sparse_mapping_Height ex_lor * (2 mod GetDof ex_lor))
        \<and> 0 \<le> c
        \<and> sjj = GatherMap ex_restr ! nat (c + GetDof ex_lor * (2 div GetDof ex_lor))
        \<and> jj = (if 0 \<le> sjj then sjj else -1 - sjj)
        \<and> (inc_len ex_restr 1 = 1 \<or> inc_len ex_restr jj = 1)
        \<and> x = sparse_ij ex_lor ! nat (j + sparse_mapping_Height ex_lor
                                      * (2 mod GetDof ex_lor + GetDof ex_lor * (2 div GetDof ex_lor)))
        \<longrightarrow> emits ex_lor ex_restr 2 j
          \<and> entry ex_lor ex_restr 2 j
              = (1, jj, of_int (if (0 \<le> sjj \<and> 0 \<le> (- 2 :: int)) \<or> (sjj < 0 \<and> (- 2 :: int) < 0)
                                 then 1 else -1) * x)
          \<and> (jj, of_int (if (0 \<le> sjj \<and> 0 \<le> (- 2 :: int)) \<or> (sjj < 0 \<and> (- 2 :: int) < 0)
                          then 1 else -1) * x) \<in> set (row_entries A 1)"
    by blast
  have j: "1 \<in> set [0..sparse_mapping_Height ex_lor - 1]" by code_simp
  have h: "(1::int) = sparse_mapping ex_lor ! nat (1 + sparse_mapping_Height ex_lor * (2 mod GetDof ex_lor))
        \<and> (0::int) \<le> 1
        \<and> (2::int) = GatherMap ex_restr ! nat (1 + GetDof ex_lor * (2 div GetDof ex_lor))
        \<and> (2::int) = (if (0::int) \<le> 2 then 2 else -1 - 2)
        \<and> (inc_len ex_restr 1 = 1 \<or> inc_len ex_restr 2 = 1)
        \<and> (60::real) = sparse_ij ex_lor ! nat (1 + sparse_mapping_Height ex_lor
                                      * (2 mod GetDof ex_lor + GetDof ex_lor * (2 div GetDof ex_lor)))"
    by code_simp
  from e[rule_format, OF j h] have "(2, - 60) \<in> set (row_entries A 1)" by simp
  with s s1 s2 sii d fi fj A show ?thesis by auto
qed

end
